(* ===== verification/Workshop_Prelude.thy ===== *)
theory Workshop_Prelude
  imports Main "HOL-Library.Word"
begin

text \<open>
  The prelude of the development: the outcome of one execution step of a C program (a result, a
  step that is not enabled, or undefined behaviour), C's signed integer ranges, runs and
  reachability of a labelled step function, and the interface \<open>safe_system\<close> through which
  every concurrent program below is verified.
\<close>

named_theorems frame_simps \<open>what an operation of the machine leaves unchanged\<close>
named_theorems outcome_simps \<open>inversion of outcomes\<close>

section \<open>Outcomes\<close>

text \<open>
  What may go wrong in a C program of the workshop: a data race, signed overflow of a non-atomic
  \<open>++\<close>, a mutex unlocked by a thread that does not own it, a lock destroyed while it is in use, an
  array access out of bounds, a failing \<open>assert\<close>.
\<close>

datatype ub = DataRace | SignedOverflow | NotOwner | InUse | OutOfBounds | AssertFail

text \<open>
  \<open>Ok\<close>: the step is done; \<open>Blocked\<close>: the step is not enabled in this state (a lock is
  held by another thread, a message that coherence forbids to read); \<open>UB\<close>: undefined
  behaviour or a failed assertion.
\<close>

datatype 'a outcome = Ok 'a | Blocked | UB ub

fun obind :: "'a outcome \<Rightarrow> ('a \<Rightarrow> 'b outcome) \<Rightarrow> 'b outcome" where
  "obind (Ok x) f = f x"
| "obind Blocked f = Blocked"
| "obind (UB e) f = UB e"

lemma obind_Ok_iff [outcome_simps]: "obind x f = Ok y \<longleftrightarrow> (\<exists>z. x = Ok z \<and> f z = Ok y)"
  by (cases x) auto

lemma obind_UB_iff [outcome_simps]: "obind x f = UB e \<longleftrightarrow> x = UB e \<or> (\<exists>z. x = Ok z \<and> f z = UB e)"
  by (cases x) auto

lemma if_Ok_iff [outcome_simps]: "(if b then Ok x else Blocked) = Ok y \<longleftrightarrow> b \<and> x = y"
  by simp

lemma if_UB_iff [outcome_simps]: "(if b then Ok x else Blocked) \<noteq> UB e"
  by simp

section \<open>Signed integers of C\<close>

text \<open>
  A signed object of \<^term>\<open>w\<close> bits holds an integer in the range \<^term>\<open>signed_range w\<close>. A
  non-atomic addition that leaves the range is undefined; an atomic addition wraps around in
  two's complement (C11 7.17.7.5).
\<close>

definition signed_range :: "nat \<Rightarrow> int \<Rightarrow> bool" where
  "signed_range w v \<longleftrightarrow> - (2 ^ (w - 1)) \<le> v \<and> v < 2 ^ (w - 1)"

definition signed_add :: "nat \<Rightarrow> int \<Rightarrow> int \<Rightarrow> int outcome" where
  "signed_add w a b = (if signed_range w (a + b) then Ok (a + b) else UB SignedOverflow)"

definition signed_wrap :: "nat \<Rightarrow> int \<Rightarrow> int" where
  "signed_wrap w v = (v + 2 ^ (w - 1)) mod 2 ^ w - 2 ^ (w - 1)"

lemma signed_wrap_id:
  assumes "signed_range w v" and "0 < w"
  shows "signed_wrap w v = v"
proof -
  have "(2::int) ^ w = 2 * 2 ^ (w - 1)"
    using assms(2) by (metis Suc_diff_1 power_Suc)
  then have "(v + 2 ^ (w - 1)) mod 2 ^ w = v + 2 ^ (w - 1)"
    using assms(1) by (intro mod_pos_pos_trivial) (auto simp: signed_range_def)
  then show ?thesis by (simp add: signed_wrap_def)
qed

lemma signed_wrap_range: "0 < w \<Longrightarrow> signed_range w (signed_wrap w v)"
proof -
  assume "0 < w"
  then have "(2::int) ^ w = 2 * 2 ^ (w - 1)"
    by (metis Suc_diff_1 power_Suc)
  moreover have "0 \<le> (v + 2 ^ (w - 1)) mod 2 ^ w" and "(v + 2 ^ (w - 1)) mod 2 ^ w < 2 ^ w"
    by (simp_all add: pos_mod_bound)
  ultimately show ?thesis by (simp add: signed_range_def signed_wrap_def)
qed

lemma signed_wrap_add: "signed_wrap w (signed_wrap w a + b) = signed_wrap w (a + b)"
proof -
  have "signed_wrap w a + b + 2 ^ (w - 1) = (a + 2 ^ (w - 1)) mod 2 ^ w + b"
    by (simp add: signed_wrap_def)
  then have "(signed_wrap w a + b + 2 ^ (w - 1)) mod 2 ^ w = (a + 2 ^ (w - 1) + b) mod 2 ^ w"
    by (simp only: mod_add_left_eq)
  also have "a + 2 ^ (w - 1) + b = a + b + 2 ^ (w - 1)" by simp
  finally show ?thesis by (simp add: signed_wrap_def)
qed

section \<open>Runs and reachable states\<close>

text \<open>
  A concurrent program is a step function labelled with an event: which thread moves, and how a
  choice that C leaves open (the message a load reads, a weak compare-exchange that fails) is
  resolved. A run executes a schedule, a list of events.
\<close>

fun run :: "('e \<Rightarrow> 's \<Rightarrow> 's outcome) \<Rightarrow> 'e list \<Rightarrow> 's \<Rightarrow> 's outcome" where
  "run step [] s = Ok s"
| "run step (e # es) s = obind (step e s) (run step es)"

inductive reach :: "('e \<Rightarrow> 's \<Rightarrow> 's outcome) \<Rightarrow> 's \<Rightarrow> 's \<Rightarrow> bool" for step s0 where
  reach_refl: "reach step s0 s0"
| reach_step: "reach step s0 s \<Longrightarrow> step e s = Ok s' \<Longrightarrow> reach step s0 s'"

lemma reach_trans: "reach step s1 s2 \<Longrightarrow> reach step s0 s1 \<Longrightarrow> reach step s0 s2"
  by (induction rule: reach.induct) (auto intro: reach_step)

lemma run_append: "run step (es @ fs) s = obind (run step es s) (run step fs)"
proof (induction es arbitrary: s)
  case (Cons e es)
  then show ?case by (cases "step e s") auto
qed simp

lemma run_reach: "run step es s = Ok s' \<Longrightarrow> reach step s s'"
proof (induction es arbitrary: s)
  case Nil
  then show ?case by (auto intro: reach_refl)
next
  case (Cons e es)
  then obtain s1 where "step e s = Ok s1" and "run step es s1 = Ok s'"
    by (auto simp: outcome_simps)
  then show ?case using Cons.IH reach_step [OF reach_refl] reach_trans by metis
qed

lemma reach_run: "reach step s s' \<Longrightarrow> \<exists>es. run step es s = Ok s'"
proof (induction rule: reach.induct)
  case reach_refl
  have "run step [] s = Ok s" by simp
  then show ?case by blast
next
  case (reach_step s1 e s2)
  then obtain es where "run step es s = Ok s1" by blast
  then have "run step (es @ [e]) s = Ok s2"
    using reach_step.hyps(2) by (simp add: run_append)
  then show ?case by blast
qed

lemma run_extend:
  assumes "run step es s = Ok s'" and "\<exists>fs. run step fs s' = Ok s''"
  shows "\<exists>gs. run step gs s = Ok s''"
proof -
  obtain fs where "run step fs s' = Ok s''" using assms(2) by blast
  then have "run step (es @ fs) s = Ok s''" by (simp add: run_append assms(1))
  then show ?thesis by blast
qed

text \<open>
  The interface of a verified program: an invariant that holds at the start, that every step
  keeps and under which no step is undefined.
\<close>

locale safe_system =
  fixes step :: "'e \<Rightarrow> 's \<Rightarrow> 's outcome"
    and initial :: "'s \<Rightarrow> bool"
    and inv :: "'s \<Rightarrow> bool"
  assumes inv_initial: "initial s \<Longrightarrow> inv s"
    and inv_step: "inv s \<Longrightarrow> step e s = Ok s' \<Longrightarrow> inv s'"
    and inv_no_ub: "inv s \<Longrightarrow> step e s \<noteq> UB u"
begin

lemma reach_from_inv: "reach step s0 s \<Longrightarrow> inv s0 \<Longrightarrow> inv s"
  by (induction rule: reach.induct) (auto intro: inv_step)

lemma reach_inv: "reach step s0 s \<Longrightarrow> initial s0 \<Longrightarrow> inv s"
  by (rule reach_from_inv) (auto intro: inv_initial)

lemma never_ub: "reach step s0 s \<Longrightarrow> initial s0 \<Longrightarrow> step e s \<noteq> UB u"
  by (auto dest: reach_inv inv_no_ub)

lemma run_no_ub: "inv s \<Longrightarrow> run step es s \<noteq> UB u"
proof (induction es arbitrary: s)
  case (Cons e es)
  then show ?case using inv_no_ub inv_step by (cases "step e s") auto
qed simp

end

section \<open>Sums over threads\<close>

lemma sum_upd_in:
  fixes f :: "nat \<Rightarrow> nat"
  assumes "i < n"
  shows "(\<Sum>j<n. (f(i := v)) j) + f i = (\<Sum>j<n. f j) + v"
proof -
  have "(\<Sum>j<n. (f(i := v)) j) = v + (\<Sum>j\<in>{..<n} - {i}. f j)"
    using assms by (subst sum.remove [of _ i]) auto
  moreover have "(\<Sum>j<n. f j) = f i + (\<Sum>j\<in>{..<n} - {i}. f j)"
    using assms by (subst sum.remove [of _ i]) auto
  ultimately show ?thesis by simp
qed

lemma sum_const_eq:
  fixes f :: "nat \<Rightarrow> nat"
  shows "(\<And>i. i < n \<Longrightarrow> f i = k) \<Longrightarrow> (\<Sum>i<n. f i) = n * k"
  by simp

lemma sum_le_const:
  fixes f :: "nat \<Rightarrow> nat"
  assumes "\<And>i. i < n \<Longrightarrow> f i \<le> k"
  shows "(\<Sum>i<n. f i) \<le> n * k"
  using sum_bounded_above [of "{..<n}" f k] assms by simp

end
