(* ===== verification/C11_Machine.thy ===== *)
theory C11_Machine
  imports Workshop_Prelude
begin

text \<open>
  The abstract machine the programs of the workshop run on: C11 atomics with their memory orders,
  plain (non-atomic) objects with data-race detection, and the POSIX objects the sources use
  (threads, mutexes, condition variables, reader-writer locks).

  It is a view machine. An object has a history: the list of the values written to it, in
  modification order, each message with the view its writer released. A thread has a view: the
  messages, and the plain reads, that happen before its next operation. A relaxed load may read
  any message that its thread's view does not rule out; an acquire operation adds the view of the
  message it reads; a release operation publishes the thread's view. A plain access is a data race,
  that is undefined, unless every conflicting access happens before it.

  Writes extend a history at its end. Every atomic object of the workshop is written either by one
  thread at a time or by read-modify-write operations, which take the place right after the message
  they read, so no other modification order is coherent. Sequentially consistent operations are
  taken to be acquire and release operations: that allows more executions than C11 does.
\<close>

section \<open>Views, messages and the state of the machine\<close>

type_synonym tid = nat

text \<open>The write of index \<open>n\<close> to an object, and the plain reads of it by one thread.\<close>

datatype 'l vkey = W 'l | R 'l tid

type_synonym 'l view = "'l vkey \<Rightarrow> nat"

datatype ('l, 'v) msg = Msg (mval: 'v) (mview: "'l view")

text \<open>A POSIX mutex: its owner, and the view released by the last unlock.\<close>

record 'l mutex =
  owner :: "tid option"
  released :: "'l view"

text \<open>
  A POSIX reader-writer lock: the threads that hold it for reading, the thread that holds it for
  writing, the views released by readers and by writers.
\<close>

record 'l rwlock =
  rd_holders :: "tid list"
  wr_holder :: "tid option"
  rd_released :: "'l view"
  wr_released :: "'l view"

record ('l, 'v) machine =
  hist :: "'l \<Rightarrow> ('l, 'v) msg list"
  rds :: "'l \<Rightarrow> tid list"
  cur :: "tid \<Rightarrow> 'l view"
  mtx :: "'l \<Rightarrow> 'l mutex"
  rwl :: "'l \<Rightarrow> 'l rwlock"
  waiting :: "'l \<Rightarrow> tid list"

definition no_view :: "'l view" where
  "no_view = (\<lambda>_. 0)"

definition vone :: "'l vkey \<Rightarrow> nat \<Rightarrow> 'l view" where
  "vone k i = (\<lambda>_. 0)(k := i)"

text \<open>All objects initialised statically, no thread but the main thread.\<close>

definition init_machine :: "('l \<Rightarrow> 'v) \<Rightarrow> ('l, 'v) machine" where
  "init_machine v0 = \<lparr>hist = (\<lambda>x. [Msg (v0 x) no_view]), rds = (\<lambda>_. []), cur = (\<lambda>_. no_view),
     mtx = (\<lambda>_. \<lparr>owner = None, released = no_view\<rparr>),
     rwl = (\<lambda>_. \<lparr>rd_holders = [], wr_holder = None, rd_released = no_view, wr_released = no_view\<rparr>),
     waiting = (\<lambda>_. [])\<rparr>"

text \<open>The value a thread that has seen every write reads.\<close>

definition value_of :: "('l, 'v) machine \<Rightarrow> 'l \<Rightarrow> 'v" where
  "value_of m x = mval (last (hist m x))"

text \<open>A view covers the writes to an object, and every access to it.\<close>

definition knows_writes :: "'l view \<Rightarrow> 'l \<Rightarrow> ('l, 'v) machine \<Rightarrow> bool" where
  "knows_writes v x m \<longleftrightarrow> length (hist m x) \<le> Suc (v (W x))"

definition knows :: "'l view \<Rightarrow> 'l \<Rightarrow> ('l, 'v) machine \<Rightarrow> bool" where
  "knows v x m \<longleftrightarrow> knows_writes v x m \<and> (\<forall>t\<in>set (rds m x). count_list (rds m x) t \<le> v (R x t))"

section \<open>Atomic operations\<close>

datatype memory_order = Relaxed | Acquire | Release | AcqRel | SeqCst

fun acquires :: "memory_order \<Rightarrow> bool" where
  "acquires Acquire = True"
| "acquires AcqRel = True"
| "acquires SeqCst = True"
| "acquires _ = False"

fun releases :: "memory_order \<Rightarrow> bool" where
  "releases Release = True"
| "releases AcqRel = True"
| "releases SeqCst = True"
| "releases _ = False"

definition see :: "tid \<Rightarrow> 'l view \<Rightarrow> ('l, 'v) machine \<Rightarrow> ('l, 'v) machine" where
  "see t v m = m\<lparr>cur := (cur m)(t := sup (cur m t) v)\<rparr>"

text \<open>\<open>atomic_load_explicit\<close>: reads the message of index \<open>i\<close>.\<close>

definition atomic_load :: "memory_order \<Rightarrow> tid \<Rightarrow> 'l \<Rightarrow> nat \<Rightarrow> ('l, 'v) machine \<Rightarrow>
    ('v \<times> ('l, 'v) machine) outcome" where
  "atomic_load ord t x i m =
     (if cur m t (W x) \<le> i \<and> i < length (hist m x) then
        let msg = hist m x ! i
        in Ok (mval msg, see t (sup (vone (W x) i) (if acquires ord then mview msg else no_view)) m)
      else Blocked)"

text \<open>\<open>atomic_store_explicit\<close>.\<close>

definition atomic_store :: "memory_order \<Rightarrow> tid \<Rightarrow> 'l \<Rightarrow> 'v \<Rightarrow> ('l, 'v) machine \<Rightarrow>
    ('l, 'v) machine" where
  "atomic_store ord t x v m =
     (let m' = see t (vone (W x) (length (hist m x))) m;
          pub = (if releases ord then cur m' t else vone (W x) (length (hist m x)))
      in m'\<lparr>hist := (hist m)(x := hist m x @ [Msg v pub])\<rparr>)"

text \<open>
  An atomic read-modify-write: it reads the last message and extends the history right after it;
  its message also carries the view of the message it replaces (the release sequence).
\<close>

definition atomic_rmw :: "memory_order \<Rightarrow> tid \<Rightarrow> 'l \<Rightarrow> ('v \<Rightarrow> 'v) \<Rightarrow> ('l, 'v) machine \<Rightarrow>
    'v \<times> ('l, 'v) machine" where
  "atomic_rmw ord t x f m =
     (let msg = last (hist m x);
          one = vone (W x) (length (hist m x));
          m' = see t (sup one (if acquires ord then mview msg else no_view)) m;
          pub = sup (mview msg) (if releases ord then cur m' t else one)
      in (mval msg, m'\<lparr>hist := (hist m)(x := hist m x @ [Msg (f (mval msg)) pub])\<rparr>))"

text \<open>\<open>atomic_fetch_add_explicit\<close> on a signed object of \<open>w\<close> bits.\<close>

definition atomic_fetch_add :: "nat \<Rightarrow> memory_order \<Rightarrow> tid \<Rightarrow> 'l \<Rightarrow> int \<Rightarrow> ('l, int) machine \<Rightarrow>
    int \<times> ('l, int) machine" where
  "atomic_fetch_add w ord t x d m = atomic_rmw ord t x (\<lambda>v. signed_wrap w (v + d)) m"

text \<open>
  \<open>atomic_compare_exchange_weak_explicit\<close>: it succeeds when the last message has the expected
  value; it may fail, also spuriously, as a load of a message with the failure order.
\<close>

datatype choice = Tau | Pick nat | Fail nat

fun atomic_cas_weak :: "memory_order \<Rightarrow> memory_order \<Rightarrow> tid \<Rightarrow> 'l \<Rightarrow> 'v \<Rightarrow> 'v \<Rightarrow> choice \<Rightarrow>
    ('l, 'v) machine \<Rightarrow> (bool \<times> ('l, 'v) machine) outcome" where
  "atomic_cas_weak succ fail t x expected desired (Fail i) m =
     obind (atomic_load fail t x i m) (\<lambda>(v, m'). Ok (False, m'))"
| "atomic_cas_weak succ fail t x expected desired _ m =
     (if value_of m x = expected then Ok (True, snd (atomic_rmw succ t x (\<lambda>_. desired) m))
      else Blocked)"

section \<open>Plain accesses\<close>

definition na_load :: "tid \<Rightarrow> 'l \<Rightarrow> ('l, 'v) machine \<Rightarrow> ('v \<times> ('l, 'v) machine) outcome" where
  "na_load t x m =
     (if knows_writes (cur m t) x m then
        Ok (value_of m x,
            see t (vone (R x t) (Suc (count_list (rds m x) t))) (m\<lparr>rds := (rds m)(x := t # rds m x)\<rparr>))
      else UB DataRace)"

definition na_store :: "tid \<Rightarrow> 'l \<Rightarrow> 'v \<Rightarrow> ('l, 'v) machine \<Rightarrow> ('l, 'v) machine outcome" where
  "na_store t x v m =
     (if knows (cur m t) x m then
        Ok (see t (vone (W x) (length (hist m x))) (m\<lparr>hist := (hist m)(x := hist m x @ [Msg v no_view])\<rparr>))
      else UB DataRace)"

section \<open>POSIX threads, mutexes, condition variables, reader-writer locks\<close>

text \<open>A new thread starts with its creator's view; joining it adds its view to the joiner's.\<close>

definition pthread_create :: "tid \<Rightarrow> tid \<Rightarrow> ('l, 'v) machine \<Rightarrow> ('l, 'v) machine" where
  "pthread_create t c m = m\<lparr>cur := (cur m)(c := cur m t)\<rparr>"

definition pthread_join :: "tid \<Rightarrow> tid \<Rightarrow> ('l, 'v) machine \<Rightarrow> ('l, 'v) machine" where
  "pthread_join t c m = see t (cur m c) m"

definition mutex_lock :: "tid \<Rightarrow> 'l \<Rightarrow> ('l, 'v) machine \<Rightarrow> ('l, 'v) machine outcome" where
  "mutex_lock t x m =
     (if owner (mtx m x) = None
      then Ok (see t (released (mtx m x)) (m\<lparr>mtx := (mtx m)(x := (mtx m x)\<lparr>owner := Some t\<rparr>)\<rparr>))
      else Blocked)"

definition mutex_unlock :: "tid \<Rightarrow> 'l \<Rightarrow> ('l, 'v) machine \<Rightarrow> ('l, 'v) machine outcome" where
  "mutex_unlock t x m =
     (if owner (mtx m x) = Some t
      then Ok (m\<lparr>mtx := (mtx m)(x := \<lparr>owner = None, released = cur m t\<rparr>)\<rparr>)
      else UB NotOwner)"

definition mutex_init :: "'l \<Rightarrow> ('l, 'v) machine \<Rightarrow> ('l, 'v) machine" where
  "mutex_init x m = m\<lparr>mtx := (mtx m)(x := \<lparr>owner = None, released = no_view\<rparr>)\<rparr>"

definition cond_init :: "'l \<Rightarrow> ('l, 'v) machine \<Rightarrow> ('l, 'v) machine" where
  "cond_init c m = m\<lparr>waiting := (waiting m)(c := [])\<rparr>"

text \<open>
  \<open>pthread_cond_wait\<close> releases the mutex and joins the waiting threads in one step; a waiting
  thread goes on when a broadcast has removed it, or by a spurious wakeup, and then locks the
  mutex again.
\<close>

definition cond_wait_enter :: "tid \<Rightarrow> 'l \<Rightarrow> 'l \<Rightarrow> ('l, 'v) machine \<Rightarrow> ('l, 'v) machine outcome" where
  "cond_wait_enter t c x m =
     obind (mutex_unlock t x m) (\<lambda>m'. Ok (m'\<lparr>waiting := (waiting m')(c := t # waiting m' c)\<rparr>))"

definition cond_spurious_wake :: "tid \<Rightarrow> 'l \<Rightarrow> ('l, 'v) machine \<Rightarrow> ('l, 'v) machine" where
  "cond_spurious_wake t c m = m\<lparr>waiting := (waiting m)(c := removeAll t (waiting m c))\<rparr>"

definition cond_broadcast :: "'l \<Rightarrow> ('l, 'v) machine \<Rightarrow> ('l, 'v) machine" where
  "cond_broadcast c m = m\<lparr>waiting := (waiting m)(c := [])\<rparr>"

definition rwlock_init :: "'l \<Rightarrow> ('l, 'v) machine \<Rightarrow> ('l, 'v) machine" where
  "rwlock_init x m = m\<lparr>rwl := (rwl m)(x :=
     \<lparr>rd_holders = [], wr_holder = None, rd_released = no_view, wr_released = no_view\<rparr>)\<rparr>"

definition rwlock_rdlock :: "tid \<Rightarrow> 'l \<Rightarrow> ('l, 'v) machine \<Rightarrow> ('l, 'v) machine outcome" where
  "rwlock_rdlock t x m =
     (if wr_holder (rwl m x) = None
      then Ok (see t (wr_released (rwl m x))
             (m\<lparr>rwl := (rwl m)(x := (rwl m x)\<lparr>rd_holders := t # rd_holders (rwl m x)\<rparr>)\<rparr>))
      else Blocked)"

definition rwlock_wrlock :: "tid \<Rightarrow> 'l \<Rightarrow> ('l, 'v) machine \<Rightarrow> ('l, 'v) machine outcome" where
  "rwlock_wrlock t x m =
     (if wr_holder (rwl m x) = None \<and> rd_holders (rwl m x) = []
      then Ok (see t (sup (wr_released (rwl m x)) (rd_released (rwl m x)))
             (m\<lparr>rwl := (rwl m)(x := (rwl m x)\<lparr>wr_holder := Some t\<rparr>)\<rparr>))
      else Blocked)"

definition rwlock_unlock :: "tid \<Rightarrow> 'l \<Rightarrow> ('l, 'v) machine \<Rightarrow> ('l, 'v) machine outcome" where
  "rwlock_unlock t x m =
     (let l = rwl m x in
      if wr_holder l = Some t
      then Ok (m\<lparr>rwl := (rwl m)(x := l\<lparr>wr_holder := None, wr_released := sup (wr_released l) (cur m t)\<rparr>)\<rparr>)
      else if t \<in> set (rd_holders l)
      then Ok (m\<lparr>rwl := (rwl m)(x := l\<lparr>rd_holders := remove1 t (rd_holders l),
                                      rd_released := sup (rd_released l) (cur m t)\<rparr>)\<rparr>)
      else UB NotOwner)"

text \<open>Destroying an object that a thread holds or waits for is undefined.\<close>

definition mutex_destroy :: "'l \<Rightarrow> ('l, 'v) machine \<Rightarrow> ('l, 'v) machine outcome" where
  "mutex_destroy x m = (if owner (mtx m x) = None then Ok m else UB InUse)"

definition cond_destroy :: "'l \<Rightarrow> ('l, 'v) machine \<Rightarrow> ('l, 'v) machine outcome" where
  "cond_destroy c m = (if waiting m c = [] then Ok m else UB InUse)"

definition rwlock_destroy :: "'l \<Rightarrow> ('l, 'v) machine \<Rightarrow> ('l, 'v) machine outcome" where
  "rwlock_destroy x m = (if wr_holder (rwl m x) = None \<and> rd_holders (rwl m x) = [] then Ok m else UB InUse)"

section \<open>Laws of the machine\<close>

text \<open>The objects of the initial machine are initialised.\<close>

lemma init_machine_fresh [simp]:
  "mutex_init x (init_machine v0) = init_machine v0" "cond_init c (init_machine v0) = init_machine v0"
  "rwlock_init l (init_machine v0) = init_machine v0"
  by (simp_all add: mutex_init_def cond_init_def rwlock_init_def init_machine_def fun_upd_idem)

text \<open>
  Thread \<open>t\<close> moved: its view grew, no other thread's view changed. An object is untouched when
  its history and its plain reads are as before.
\<close>

definition grows :: "tid \<Rightarrow> ('l, 'v) machine \<Rightarrow> ('l, 'v) machine \<Rightarrow> bool" where
  "grows t m m' \<longleftrightarrow> cur m t \<le> cur m' t \<and> (\<forall>u. u \<noteq> t \<longrightarrow> cur m' u = cur m u)"

definition untouched :: "'l \<Rightarrow> ('l, 'v) machine \<Rightarrow> ('l, 'v) machine \<Rightarrow> bool" where
  "untouched x m m' \<longleftrightarrow> hist m' x = hist m x \<and> rds m' x = rds m x"

lemmas view_simps = sup_fun_def sup_nat_def vone_def no_view_def

lemma grows_refl [simp, intro]: "grows t m m"
  by (simp add: grows_def)

lemma grows_trans: "grows t m m' \<Longrightarrow> grows t m' m'' \<Longrightarrow> grows t m m''"
  by (auto simp: grows_def)

lemma grows_le: "grows t m m' \<Longrightarrow> cur m u \<le> cur m' u"
  by (cases "u = t") (auto simp: grows_def)

lemma untouched_refl [simp, intro]: "untouched x m m"
  by (simp add: untouched_def)

lemma untouched_trans: "untouched x m m' \<Longrightarrow> untouched x m' m'' \<Longrightarrow> untouched x m m''"
  by (simp add: untouched_def)

lemma untouched_value: "untouched x m m' \<Longrightarrow> value_of m' x = value_of m x"
  by (simp add: untouched_def value_of_def)

lemma knows_writes_mono:
  "knows_writes v x m \<Longrightarrow> v \<le> v' \<Longrightarrow> hist m' x = hist m x \<Longrightarrow> knows_writes v' x m'"
  by (auto simp: knows_writes_def le_fun_def intro: order.trans)

lemma knows_imp_writes: "knows v x m \<Longrightarrow> knows_writes v x m"
  by (simp add: knows_def)

lemma knows_mono: "knows v x m \<Longrightarrow> v \<le> v' \<Longrightarrow> untouched x m m' \<Longrightarrow> knows v' x m'"
proof -
  assume *: "knows v x m" "v \<le> v'" "untouched x m m'"
  then have "knows_writes v' x m'"
    by (auto simp: untouched_def knows_def intro: knows_writes_mono)
  moreover have "count_list (rds m' x) t \<le> v' (R x t)" if "t \<in> set (rds m' x)" for t
    using * that by (auto simp: untouched_def knows_def le_fun_def intro: order.trans)
  ultimately show ?thesis by (auto simp: knows_def)
qed

lemma knows_grows: "knows (cur m u) x m \<Longrightarrow> grows t m m' \<Longrightarrow> untouched x m m' \<Longrightarrow> knows (cur m' u) x m'"
  by (blast intro: knows_mono grows_le)

text \<open>The same, for one key of a view at a time.\<close>

fun key_of :: "'l vkey \<Rightarrow> 'l" where
  "key_of (W x) = x"
| "key_of (R x t) = x"

fun accesses :: "('l, 'v) machine \<Rightarrow> 'l vkey \<Rightarrow> nat" where
  "accesses m (W x) = length (hist m x) - 1"
| "accesses m (R x t) = count_list (rds m x) t"

definition knows_key :: "'l view \<Rightarrow> 'l vkey \<Rightarrow> ('l, 'v) machine \<Rightarrow> bool" where
  "knows_key v k m \<longleftrightarrow> accesses m k \<le> v k"

lemma knows_iff_keys: "knows v x m \<longleftrightarrow> (\<forall>k. key_of k = x \<longrightarrow> knows_key v k m)"
proof
  assume k: "knows v x m"
  have "count_list (rds m x) t \<le> v (R x t)" for t
    using k by (cases "t \<in> set (rds m x)") (auto simp: knows_def count_list_0_iff)
  then have "knows_key v k m" if "key_of k = x" for k
    using k that by (cases k) (auto simp: knows_key_def knows_def knows_writes_def)
  then show "\<forall>k. key_of k = x \<longrightarrow> knows_key v k m" by blast
next
  assume k: "\<forall>k. key_of k = x \<longrightarrow> knows_key v k m"
  then have "knows_key v (W x) m" "\<And>t. knows_key v (R x t) m" by simp_all
  then show "knows v x m" by (auto simp: knows_def knows_writes_def knows_key_def)
qed

lemma knows_key_mono: "knows_key v k m \<Longrightarrow> v \<le> v' \<Longrightarrow> accesses m' k = accesses m k \<Longrightarrow> knows_key v' k m'"
  by (auto simp: knows_key_def le_fun_def intro: order.trans)

lemma untouched_accesses: "untouched x m m' \<Longrightarrow> key_of k = x \<Longrightarrow> accesses m' k = accesses m k"
  by (cases k) (auto simp: untouched_def)

lemma tracked_keyI:
  "untouched x m m' \<or> knows v x m' \<Longrightarrow> key_of k = x \<Longrightarrow> accesses m' k = accesses m k \<or> knows_key v k m'"
  by (auto simp: knows_iff_keys dest: untouched_accesses)

lemma see_frame [frame_simps]:
  "hist (see t v m) = hist m" "rds (see t v m) = rds m" "mtx (see t v m) = mtx m"
  "rwl (see t v m) = rwl m" "waiting (see t v m) = waiting m"
  "cur (see t v m) t = sup (cur m t) v" "u \<noteq> t \<Longrightarrow> cur (see t v m) u = cur m u"
  by (simp_all add: see_def)

lemma see_grows [intro]: "grows t m (see t v m)"
  by (simp add: grows_def frame_simps)

lemma init_machine_sel [simp]:
  "hist (init_machine v0) x = [Msg (v0 x) no_view]" "rds (init_machine v0) x = []"
  "cur (init_machine v0) t = no_view"
  "mtx (init_machine v0) x = \<lparr>owner = None, released = no_view\<rparr>"
  "rwl (init_machine v0) x = \<lparr>rd_holders = [], wr_holder = None, rd_released = no_view, wr_released = no_view\<rparr>"
  "waiting (init_machine v0) x = []"
  by (simp_all add: init_machine_def)

lemma knows_init [simp]: "knows v x (init_machine v0)"
  by (simp add: knows_def knows_writes_def)

lemma value_of_init [simp]: "value_of (init_machine v0) x = v0 x"
  by (simp add: value_of_def)

subsection \<open>Atomic operations\<close>

lemma atomic_load_D:
  assumes "atomic_load ord t x i m = Ok (v, m')"
  shows "v = mval (hist m x ! i)" and "i < length (hist m x)" and "cur m t (W x) \<le> i"
    and "hist m' = hist m" and "rds m' = rds m" and "mtx m' = mtx m" and "rwl m' = rwl m"
    and "waiting m' = waiting m" and "grows t m m'" and "i \<le> cur m' t (W x)"
    and "acquires ord \<Longrightarrow> mview (hist m x ! i) \<le> cur m' t"
proof -
  from assms have m': "m' = see t (sup (vone (W x) i) (if acquires ord then mview (hist m x ! i) else no_view)) m"
    and *: "v = mval (hist m x ! i)" "i < length (hist m x)" "cur m t (W x) \<le> i"
    by (auto simp: atomic_load_def Let_def split: if_splits)
  show "v = mval (hist m x ! i)" and "i < length (hist m x)" and "cur m t (W x) \<le> i"
    by (fact *)+
  show "hist m' = hist m" and "rds m' = rds m" and "mtx m' = mtx m" and "rwl m' = rwl m"
    and "waiting m' = waiting m" and "grows t m m'" and "i \<le> cur m' t (W x)"
    by (auto simp: m' frame_simps view_simps)
  show "acquires ord \<Longrightarrow> mview (hist m x ! i) \<le> cur m' t"
    by (simp add: m' frame_simps le_supI2)
qed

lemma atomic_load_no_ub: "atomic_load ord t x i m \<noteq> UB e"
  by (simp add: atomic_load_def Let_def)

lemma atomic_load_latest:
  assumes "knows_writes (cur m t) x m" and "atomic_load ord t x i m = Ok (v, m')"
  shows "v = value_of m x"
proof -
  from atomic_load_D(2,3) [OF assms(2)] have "i = length (hist m x) - 1"
    using assms(1) by (auto simp: knows_writes_def)
  moreover from atomic_load_D(2) [OF assms(2)] have "hist m x \<noteq> []" by auto
  ultimately show ?thesis
    using atomic_load_D(1) [OF assms(2)] by (simp add: value_of_def last_conv_nth)
qed

lemma atomic_load_enabled:
  assumes "hist m x \<noteq> []" and "Suc (cur m t (W x)) \<le> length (hist m x)"
  shows "\<exists>m'. atomic_load ord t x (length (hist m x) - 1) m = Ok (value_of m x, m')"
  using assms by (auto simp: atomic_load_def Let_def value_of_def last_conv_nth)

lemma atomic_store_frame [frame_simps]:
  "rds (atomic_store ord t x v m) = rds m" "mtx (atomic_store ord t x v m) = mtx m"
  "rwl (atomic_store ord t x v m) = rwl m" "waiting (atomic_store ord t x v m) = waiting m"
  "y \<noteq> x \<Longrightarrow> hist (atomic_store ord t x v m) y = hist m y"
  "value_of (atomic_store ord t x v m) x = v"
  by (simp_all add: atomic_store_def Let_def frame_simps value_of_def)

lemma atomic_store_grows [intro]: "grows t m (atomic_store ord t x v m)"
  by (auto simp: atomic_store_def Let_def grows_def frame_simps)

lemma atomic_store_hist:
  "\<exists>pub. hist (atomic_store ord t x v m) x = hist m x @ [Msg v pub] \<and>
     (releases ord \<longrightarrow> pub = cur (atomic_store ord t x v m) t)"
  by (simp add: atomic_store_def Let_def frame_simps)

lemma atomic_store_knows_writes: "knows_writes (cur (atomic_store ord t x v m) t) x (atomic_store ord t x v m)"
  by (simp add: knows_writes_def atomic_store_def Let_def frame_simps view_simps)

lemma atomic_store_knows:
  assumes "knows (cur m t) x m"
  shows "knows (cur (atomic_store ord t x v m) t) x (atomic_store ord t x v m)"
  using assms atomic_store_knows_writes [of ord t x v m] grows_le [OF atomic_store_grows [of t m ord x v], of t]
  by (fastforce simp: knows_def frame_simps le_fun_def intro: order.trans)

lemma atomic_rmw_frame [frame_simps]:
  "rds (snd (atomic_rmw ord t x f m)) = rds m" "mtx (snd (atomic_rmw ord t x f m)) = mtx m"
  "rwl (snd (atomic_rmw ord t x f m)) = rwl m" "waiting (snd (atomic_rmw ord t x f m)) = waiting m"
  "y \<noteq> x \<Longrightarrow> hist (snd (atomic_rmw ord t x f m)) y = hist m y"
  "fst (atomic_rmw ord t x f m) = value_of m x"
  "value_of (snd (atomic_rmw ord t x f m)) x = f (value_of m x)"
  by (simp_all add: atomic_rmw_def Let_def frame_simps value_of_def)

lemma atomic_rmw_grows [intro]: "grows t m (snd (atomic_rmw ord t x f m))"
  by (auto simp: atomic_rmw_def Let_def grows_def frame_simps)

lemma atomic_rmw_knows_writes:
  "knows_writes (cur (snd (atomic_rmw ord t x f m)) t) x (snd (atomic_rmw ord t x f m))"
  by (simp add: knows_writes_def atomic_rmw_def Let_def frame_simps view_simps)

lemma atomic_rmw_acquires:
  "acquires ord \<Longrightarrow> mview (last (hist m x)) \<le> cur (snd (atomic_rmw ord t x f m)) t"
  by (simp add: atomic_rmw_def Let_def frame_simps le_supI2)

lemma atomic_rmw_hist:
  "\<exists>pub. hist (snd (atomic_rmw ord t x f m)) x = hist m x @ [Msg (f (value_of m x)) pub] \<and>
     mview (last (hist m x)) \<le> pub \<and> (releases ord \<longrightarrow> cur (snd (atomic_rmw ord t x f m)) t \<le> pub)"
  by (auto simp: atomic_rmw_def Let_def frame_simps value_of_def le_supI1 le_supI2)

lemma value_of_other: "hist m' y = hist m y \<Longrightarrow> value_of m' y = value_of m y"
  by (simp add: value_of_def)

subsection \<open>Plain accesses\<close>

lemma na_load_UB_iff: "na_load t x m = UB e \<longleftrightarrow> \<not> knows_writes (cur m t) x m \<and> e = DataRace"
  by (auto simp: na_load_def)

lemma na_load_D:
  assumes "na_load t x m = Ok (v, m')"
  shows "v = value_of m x" and "knows_writes (cur m t) x m" and "hist m' = hist m"
    and "y \<noteq> x \<Longrightarrow> rds m' y = rds m y" and "mtx m' = mtx m" and "rwl m' = rwl m"
    and "waiting m' = waiting m" and "grows t m m'"
    and "knows (cur m t) x m \<Longrightarrow> knows (cur m' t) x m'"
proof -
  from assms have kw: "knows_writes (cur m t) x m" and v: "v = value_of m x"
    and m': "m' = see t (vone (R x t) (Suc (count_list (rds m x) t))) (m\<lparr>rds := (rds m)(x := t # rds m x)\<rparr>)"
    by (auto simp: na_load_def split: if_splits)
  show "v = value_of m x" and "knows_writes (cur m t) x m" by (fact v kw)+
  show "hist m' = hist m" and "y \<noteq> x \<Longrightarrow> rds m' y = rds m y" and "mtx m' = mtx m"
    and "rwl m' = rwl m" and "waiting m' = waiting m"
    by (auto simp: m' frame_simps)
  show "grows t m m'"
    by (simp add: m' grows_def frame_simps)
  show "knows (cur m' t) x m'" if "knows (cur m t) x m"
  proof -
    have "knows_writes (cur m' t) x m'"
      using kw by (auto simp: m' knows_writes_def frame_simps view_simps)
    moreover have "count_list (rds m' x) u \<le> cur m' t (R x u)" if "u \<in> set (rds m' x)" for u
      using that \<open>knows (cur m t) x m\<close>
      by (auto simp: m' knows_def frame_simps view_simps)
    ultimately show ?thesis by (simp add: knows_def)
  qed
qed

lemma na_load_ok:
  assumes "knows_writes (cur m t) x m"
  obtains m' where "na_load t x m = Ok (value_of m x, m')"
  using assms by (simp add: na_load_def)

lemma na_store_UB_iff: "na_store t x v m = UB e \<longleftrightarrow> \<not> knows (cur m t) x m \<and> e = DataRace"
  by (auto simp: na_store_def)

lemma na_store_D:
  assumes "na_store t x v m = Ok m'"
  shows "knows (cur m t) x m" and "value_of m' x = v" and "rds m' = rds m"
    and "y \<noteq> x \<Longrightarrow> hist m' y = hist m y" and "mtx m' = mtx m" and "rwl m' = rwl m"
    and "waiting m' = waiting m" and "grows t m m'" and "knows (cur m' t) x m'"
    and "hist m' x = hist m x @ [Msg v no_view]"
proof -
  from assms have k: "knows (cur m t) x m"
    and m': "m' = see t (vone (W x) (length (hist m x))) (m\<lparr>hist := (hist m)(x := hist m x @ [Msg v no_view])\<rparr>)"
    by (auto simp: na_store_def split: if_splits)
  show "knows (cur m t) x m" by (fact k)
  show "value_of m' x = v" and "rds m' = rds m" and "y \<noteq> x \<Longrightarrow> hist m' y = hist m y"
    and "mtx m' = mtx m" and "rwl m' = rwl m" and "waiting m' = waiting m"
    and "hist m' x = hist m x @ [Msg v no_view]"
    by (auto simp: m' frame_simps value_of_def)
  show "grows t m m'"
    by (simp add: m' grows_def frame_simps)
  show "knows (cur m' t) x m'"
    using k by (auto simp: m' knows_def knows_writes_def frame_simps view_simps)
qed

lemma na_store_ok:
  assumes "knows (cur m t) x m"
  obtains m' where "na_store t x v m = Ok m'"
  using assms by (simp add: na_store_def)

lemma na_load_reads:
  assumes "na_load t x m = Ok (v, m')"
  shows "rds m' x = t # rds m x" and "Suc (count_list (rds m x) t) \<le> cur m' t (R x t)"
  using assms by (auto simp: na_load_def frame_simps view_simps split: if_splits)

text \<open>A plain access is in the view of the thread that made it.\<close>

lemma na_load_tracked:
  assumes "na_load t x m = Ok (v, m')"
  shows "accesses m' k = accesses m k \<or> knows_key (cur m' t) k m'"
  using na_load_D(3,4) [OF assms] na_load_reads [OF assms]
  by (cases k; cases "key_of k = x") (auto simp: knows_key_def)

lemma na_store_tracked:
  assumes "na_store t x v m = Ok m'"
  shows "accesses m' k = accesses m k \<or> knows_key (cur m' t) k m'"
  by (rule tracked_keyI [OF _ refl])
    (use na_store_D(3,4,9) [OF assms] in \<open>cases "key_of k = x"; auto simp: untouched_def\<close>)

subsection \<open>Threads and mutexes\<close>

lemma pthread_create_frame [frame_simps]:
  "hist (pthread_create t c m) = hist m" "rds (pthread_create t c m) = rds m"
  "mtx (pthread_create t c m) = mtx m" "rwl (pthread_create t c m) = rwl m"
  "waiting (pthread_create t c m) = waiting m"
  "cur (pthread_create t c m) c = cur m t" "u \<noteq> c \<Longrightarrow> cur (pthread_create t c m) u = cur m u"
  by (simp_all add: pthread_create_def)

lemma pthread_join_frame [frame_simps]:
  "hist (pthread_join t c m) = hist m" "rds (pthread_join t c m) = rds m"
  "mtx (pthread_join t c m) = mtx m" "rwl (pthread_join t c m) = rwl m"
  "waiting (pthread_join t c m) = waiting m"
  "cur (pthread_join t c m) t = sup (cur m t) (cur m c)"
  "u \<noteq> t \<Longrightarrow> cur (pthread_join t c m) u = cur m u"
  by (simp_all add: pthread_join_def frame_simps)

lemma pthread_join_grows [intro]: "grows t m (pthread_join t c m)"
  by (auto simp: pthread_join_def)

lemma untouched_create [simp]: "untouched x m (pthread_create t c m)"
  by (simp add: untouched_def frame_simps)

lemma untouched_join [simp]: "untouched x m (pthread_join t c m)"
  by (simp add: untouched_def frame_simps)

lemma mutex_lock_D:
  assumes "mutex_lock t x m = Ok m'"
  shows "owner (mtx m x) = None" and "owner (mtx m' x) = Some t"
    and "y \<noteq> x \<Longrightarrow> mtx m' y = mtx m y"
    and "released (mtx m x) \<le> cur m' t" and "hist m' = hist m" and "rds m' = rds m"
    and "rwl m' = rwl m" and "waiting m' = waiting m" and "grows t m m'"
  using assms by (auto simp: mutex_lock_def frame_simps grows_def split: if_splits)

lemma mutex_lock_no_ub: "mutex_lock t x m \<noteq> UB e"
  by (simp add: mutex_lock_def)

lemma mutex_lock_ok:
  assumes "owner (mtx m x) = None"
  obtains m' where "mutex_lock t x m = Ok m'"
  using assms by (simp add: mutex_lock_def)

lemma mutex_unlock_D:
  assumes "mutex_unlock t x m = Ok m'"
  shows "owner (mtx m x) = Some t" and "owner (mtx m' x) = None"
    and "released (mtx m' x) = cur m t" and "y \<noteq> x \<Longrightarrow> mtx m' y = mtx m y"
    and "hist m' = hist m" and "rds m' = rds m" and "cur m' = cur m"
    and "rwl m' = rwl m" and "waiting m' = waiting m"
  using assms by (auto simp: mutex_unlock_def split: if_splits)

lemma mutex_tracked:
  "mutex_lock t x m = Ok m' \<Longrightarrow> accesses m' k = accesses m k"
  "mutex_unlock t x m = Ok m' \<Longrightarrow> accesses m' k = accesses m k"
  by (cases k; auto dest: mutex_lock_D(5,6) mutex_unlock_D(5,6))+

lemma rwlock_rdlock_D:
  assumes "rwlock_rdlock t x m = Ok m'"
  shows "wr_holder (rwl m x) = None" and "rwl m' x = (rwl m x)\<lparr>rd_holders := t # rd_holders (rwl m x)\<rparr>"
    and "hist m' = hist m" and "rds m' = rds m" and "grows t m m'" and "wr_released (rwl m x) \<le> cur m' t"
  using assms by (auto simp: rwlock_rdlock_def frame_simps grows_def split: if_splits)

lemma rwlock_wrlock_D:
  assumes "rwlock_wrlock t x m = Ok m'"
  shows "wr_holder (rwl m x) = None" and "rd_holders (rwl m x) = []"
    and "rwl m' x = (rwl m x)\<lparr>wr_holder := Some t\<rparr>"
    and "hist m' = hist m" and "rds m' = rds m" and "grows t m m'"
    and "sup (wr_released (rwl m x)) (rd_released (rwl m x)) \<le> cur m' t"
  using assms by (auto simp: rwlock_wrlock_def frame_simps grows_def le_supI2 split: if_splits)

lemma rwlock_unlock_D:
  assumes "rwlock_unlock t x m = Ok m'"
  shows "hist m' = hist m" and "rds m' = rds m" and "cur m' = cur m"
    and "wr_holder (rwl m x) = Some t \<Longrightarrow>
      rwl m' x = (rwl m x)\<lparr>wr_holder := None, wr_released := sup (wr_released (rwl m x)) (cur m t)\<rparr>"
    and "wr_holder (rwl m x) \<noteq> Some t \<Longrightarrow>
      rwl m' x = (rwl m x)\<lparr>rd_holders := remove1 t (rd_holders (rwl m x)),
                           rd_released := sup (rd_released (rwl m x)) (cur m t)\<rparr>"
  using assms by (auto simp: rwlock_unlock_def Let_def split: if_splits)

lemma rwlock_ok:
  "wr_holder (rwl m x) = None \<Longrightarrow> \<exists>m'. rwlock_rdlock t x m = Ok m'"
  "wr_holder (rwl m x) = None \<Longrightarrow> rd_holders (rwl m x) = [] \<Longrightarrow> \<exists>m'. rwlock_wrlock t x m = Ok m'"
  "wr_holder (rwl m x) = Some t \<or> t \<in> set (rd_holders (rwl m x)) \<Longrightarrow> \<exists>m'. rwlock_unlock t x m = Ok m'"
  by (auto simp: rwlock_rdlock_def rwlock_wrlock_def rwlock_unlock_def Let_def)

lemma rwlock_no_ub: "rwlock_rdlock t x m \<noteq> UB e" "rwlock_wrlock t x m \<noteq> UB e"
  by (simp_all add: rwlock_rdlock_def rwlock_wrlock_def)

lemma mutex_unlock_UB_iff: "mutex_unlock t x m = UB e \<longleftrightarrow> owner (mtx m x) \<noteq> Some t \<and> e = NotOwner"
  by (auto simp: mutex_unlock_def)

lemma mutex_unlock_ok:
  assumes "owner (mtx m x) = Some t"
  obtains m' where "mutex_unlock t x m = Ok m'"
  using assms by (simp add: mutex_unlock_def)

section \<open>Well-formed machines\<close>

text \<open>
  Every view that is kept somewhere points at messages that exist; in a well-formed machine a
  load of the last message is always enabled.
\<close>

definition view_ok :: "('l, 'v) machine \<Rightarrow> 'l view \<Rightarrow> bool" where
  "view_ok m v \<longleftrightarrow> (\<forall>x. v (W x) < length (hist m x))"

definition mwf :: "('l, 'v) machine \<Rightarrow> bool" where
  "mwf m \<longleftrightarrow> (\<forall>t. view_ok m (cur m t)) \<and> (\<forall>x. \<forall>msg\<in>set (hist m x). view_ok m (mview msg)) \<and>
     (\<forall>x. view_ok m (released (mtx m x))) \<and>
     (\<forall>x. view_ok m (rd_released (rwl m x)) \<and> view_ok m (wr_released (rwl m x)))"

named_theorems mwf_intros \<open>operations keep the machine well-formed\<close>

lemma view_ok_sup [simp]: "view_ok m (sup v w) \<longleftrightarrow> view_ok m v \<and> view_ok m w"
  by (auto simp: view_ok_def view_simps)

lemma view_ok_longer:
  "view_ok m v \<Longrightarrow> (\<And>x. length (hist m x) \<le> length (hist m' x)) \<Longrightarrow> view_ok m' v"
  by (meson view_ok_def less_le_trans)

lemma view_ok_hist: "hist m' = hist m \<Longrightarrow> view_ok m' v = view_ok m v"
  by (simp add: view_ok_def)

lemma mwf_hist:
  assumes "mwf m"
  shows "hist m x \<noteq> []"
proof -
  have "cur m 0 (W x) < length (hist m x)" using assms by (simp add: mwf_def view_ok_def)
  then show ?thesis by auto
qed

lemma view_ok_no_view: "mwf m \<Longrightarrow> view_ok m no_view"
  by (simp add: view_ok_def no_view_def mwf_hist)

lemma mwfD:
  assumes "mwf m"
  shows "view_ok m (cur m t)" and "msg \<in> set (hist m x) \<Longrightarrow> view_ok m (mview msg)"
    and "view_ok m (released (mtx m x))" and "view_ok m (rd_released (rwl m x))"
    and "view_ok m (wr_released (rwl m x))" and "view_ok m (mview (last (hist m x)))"
  using assms last_in_set [OF mwf_hist [OF assms, of x]] unfolding mwf_def by blast+

lemma mwf_init [mwf_intros]: "mwf (init_machine v0)"
  by (auto simp: mwf_def view_ok_def no_view_def)

lemma mwf_see [mwf_intros]: "mwf m \<Longrightarrow> view_ok m v \<Longrightarrow> mwf (see t v m)"
  unfolding mwf_def by (simp add: view_ok_hist [of "see t v m" m] frame_simps) (simp add: see_def)

text \<open>A history that grows by a message whose view, and whose writer's view, are well-formed.\<close>

lemma mwf_append:
  assumes "mwf m" and "view_ok m' (mview msg)" and "view_ok m' (cur m' t)"
    and "hist m' = (hist m)(x := hist m x @ [msg])" and "mtx m' = mtx m" and "rwl m' = rwl m"
    and "\<And>u. u \<noteq> t \<Longrightarrow> cur m' u = cur m u"
  shows "mwf m'"
proof -
  have longer: "view_ok m v \<Longrightarrow> view_ok m' v" for v
    by (rule view_ok_longer [of m]) (simp_all add: assms(4))
  have "view_ok m' (cur m' u)" for u
    using assms(3,7) mwfD(1) [OF assms(1)] longer by (cases "u = t") auto
  moreover have "view_ok m' (mview a)" if "a \<in> set (hist m' y)" for a y
    using that assms(2,4) mwfD(2) [OF assms(1)] longer by (auto split: if_splits)
  ultimately show ?thesis
    using mwfD(3,4,5) [OF assms(1)] longer by (auto simp: mwf_def assms(5,6))
qed

lemma view_ok_vone:
  "mwf m \<Longrightarrow> i < length (hist m x) \<Longrightarrow> view_ok m (vone (W x) i)"
  using mwf_hist [of m] by (auto simp: view_ok_def vone_def)

lemma view_ok_vone_R: "mwf m \<Longrightarrow> view_ok m (vone (R x t) i)"
  using mwf_hist [of m] by (auto simp: view_ok_def vone_def)

lemma atomic_load_mwf [mwf_intros]:
  assumes "mwf m" and "atomic_load ord t x i m = Ok (v, m')"
  shows "mwf m'"
proof -
  have i: "i < length (hist m x)" using atomic_load_D(2) [OF assms(2)] .
  have "view_ok m (if acquires ord then mview (hist m x ! i) else no_view)"
    using mwfD(2) [OF assms(1) nth_mem [OF i]] view_ok_no_view [OF assms(1)] by simp
  then show ?thesis
    using assms(2) view_ok_vone [OF assms(1) i]
    by (auto simp: atomic_load_def Let_def split: if_splits intro!: mwf_see [OF assms(1)])
qed

lemma atomic_store_mwf [mwf_intros]: "mwf m \<Longrightarrow> mwf (atomic_store ord t x v m)"
proof -
  assume m: "mwf m"
  let ?m' = "atomic_store ord t x v m" and ?one = "vone (W x) (length (hist m x))"
  have "view_ok ?m' (sup (cur m t) ?one)"
    using mwfD(1) [OF m, of t] mwf_hist [OF m]
    by (auto simp: view_ok_def view_simps atomic_store_def Let_def frame_simps less_Suc_eq)
  moreover obtain pub where "hist ?m' = (hist m)(x := hist m x @ [Msg v pub])"
      "pub = sup (cur m t) ?one \<or> pub = ?one"
    by (simp add: atomic_store_def Let_def frame_simps)
  ultimately show ?thesis
    by (intro mwf_append [OF m, where x = x and t = t and msg = "Msg v pub"])
      (auto simp: frame_simps, auto simp: atomic_store_def Let_def frame_simps)
qed

lemma atomic_rmw_mwf [mwf_intros]: "mwf m \<Longrightarrow> mwf (snd (atomic_rmw ord t x f m))"
proof -
  assume m: "mwf m"
  let ?m' = "snd (atomic_rmw ord t x f m)" and ?one = "vone (W x) (length (hist m x))"
    and ?msg = "last (hist m x)"
  have longer: "view_ok m u \<Longrightarrow> view_ok ?m' u" for u
    by (rule view_ok_longer [of m]) (simp_all add: atomic_rmw_def Let_def frame_simps)
  have one: "view_ok ?m' ?one"
    using mwf_hist [OF m] by (auto simp: view_ok_def view_simps atomic_rmw_def Let_def frame_simps)
  have cur: "cur ?m' t = sup (cur m t) (sup ?one (if acquires ord then mview ?msg else no_view))"
    by (simp add: atomic_rmw_def Let_def frame_simps)
  have ok: "view_ok ?m' (cur ?m' t)"
    using mwfD(1,6) [OF m] view_ok_no_view [OF m] longer one by (simp add: cur)
  obtain pub where "hist ?m' = (hist m)(x := hist m x @ [Msg (f (value_of m x)) pub])"
      "pub = sup (mview ?msg) (cur ?m' t) \<or> pub = sup (mview ?msg) ?one"
    by (simp add: atomic_rmw_def Let_def frame_simps value_of_def)
  then show ?thesis
    using ok one mwfD(6) [OF m] longer
    by (intro mwf_append [OF m, where x = x and t = t and msg = "Msg (f (value_of m x)) pub"])
      (auto simp: frame_simps, auto simp: atomic_rmw_def Let_def frame_simps)
qed

lemma atomic_cas_mwf [mwf_intros]:
  "mwf m \<Longrightarrow> atomic_cas_weak so fo t x a b c m = Ok (r, m') \<Longrightarrow> mwf m'"
  by (cases c) (auto simp: outcome_simps intro: mwf_intros split: if_splits)

lemma na_load_mwf [mwf_intros]: "mwf m \<Longrightarrow> na_load t x m = Ok (v, m') \<Longrightarrow> mwf m'"
proof -
  assume m: "mwf m" and "na_load t x m = Ok (v, m')"
  then have m': "m' = see t (vone (R x t) (Suc (count_list (rds m x) t))) (m\<lparr>rds := (rds m)(x := t # rds m x)\<rparr>)"
    by (auto simp: na_load_def split: if_splits)
  have "mwf (m\<lparr>rds := (rds m)(x := t # rds m x)\<rparr>)"
    using m by (simp add: mwf_def view_ok_def)
  then show ?thesis unfolding m' by (intro mwf_see view_ok_vone_R)
qed

lemma na_store_mwf [mwf_intros]: "mwf m \<Longrightarrow> na_store t x v m = Ok m' \<Longrightarrow> mwf m'"
proof -
  assume m: "mwf m" and "na_store t x v m = Ok m'"
  then have m': "m' = see t (vone (W x) (length (hist m x))) (m\<lparr>hist := (hist m)(x := hist m x @ [Msg v no_view])\<rparr>)"
    by (auto simp: na_store_def split: if_splits)
  have "view_ok m' (mview (Msg v no_view))" and "view_ok m' (cur m' t)"
    using mwfD(1) [OF m, of t] mwf_hist [OF m]
    by (auto simp: m' view_ok_def view_simps frame_simps less_Suc_eq)
  then show ?thesis
    by (rule mwf_append [OF m, where x = x]) (simp_all add: m' frame_simps)
qed

lemma pthread_create_mwf [mwf_intros]: "mwf m \<Longrightarrow> mwf (pthread_create t c m)"
  by (simp add: mwf_def pthread_create_def view_ok_def)

lemma pthread_join_mwf [mwf_intros]: "mwf m \<Longrightarrow> mwf (pthread_join t c m)"
  unfolding pthread_join_def by (intro mwf_see mwfD)

lemma mutex_lock_mwf [mwf_intros]: "mwf m \<Longrightarrow> mutex_lock t x m = Ok m' \<Longrightarrow> mwf m'"
proof -
  assume m: "mwf m" and "mutex_lock t x m = Ok m'"
  then have m': "m' = see t (released (mtx m x)) (m\<lparr>mtx := (mtx m)(x := (mtx m x)\<lparr>owner := Some t\<rparr>)\<rparr>)"
    by (auto simp: mutex_lock_def split: if_splits)
  have "mwf (m\<lparr>mtx := (mtx m)(x := (mtx m x)\<lparr>owner := Some t\<rparr>)\<rparr>)"
    using m by (simp add: mwf_def view_ok_def)
  moreover have "view_ok (m\<lparr>mtx := (mtx m)(x := (mtx m x)\<lparr>owner := Some t\<rparr>)\<rparr>) (released (mtx m x))"
    using mwfD(3) [OF m] by (simp add: view_ok_def)
  ultimately show ?thesis unfolding m' by (rule mwf_see)
qed

lemma mutex_unlock_mwf [mwf_intros]: "mwf m \<Longrightarrow> mutex_unlock t x m = Ok m' \<Longrightarrow> mwf m'"
  by (auto simp: mutex_unlock_def mwf_def view_ok_def split: if_splits)

lemma rwlock_mwf [mwf_intros]:
  "mwf m \<Longrightarrow> rwlock_rdlock t x m = Ok m' \<Longrightarrow> mwf m'"
  "mwf m \<Longrightarrow> rwlock_wrlock t x m = Ok m' \<Longrightarrow> mwf m'"
  "mwf m \<Longrightarrow> rwlock_unlock t x m = Ok m' \<Longrightarrow> mwf m'"
proof -
  assume m: "mwf m"
  have upd: "mwf (m\<lparr>rwl := (rwl m)(x := l)\<rparr>)" if "view_ok m (rd_released l)" "view_ok m (wr_released l)" for l
    using m that by (simp add: mwf_def view_ok_def)
  have ok: "view_ok (m\<lparr>rwl := f\<rparr>) v = view_ok m v" for f v by (simp add: view_ok_def)
  show "rwlock_rdlock t x m = Ok m' \<Longrightarrow> mwf m'" and "rwlock_wrlock t x m = Ok m' \<Longrightarrow> mwf m'"
    using mwfD(4,5) [OF m, of x]
    by (auto simp: rwlock_rdlock_def rwlock_wrlock_def ok split: if_splits intro!: mwf_see upd)
  show "rwlock_unlock t x m = Ok m' \<Longrightarrow> mwf m'"
    using mwfD(1,4,5) [OF m]
    by (auto simp: rwlock_unlock_def Let_def split: if_splits intro!: upd)
qed

lemma cond_mwf [mwf_intros]:
  "mwf m \<Longrightarrow> cond_wait_enter t c x m = Ok m' \<Longrightarrow> mwf m'"
  "mwf m \<Longrightarrow> mwf (cond_spurious_wake t c m)" "mwf m \<Longrightarrow> mwf (cond_broadcast c m)"
proof -
  have w: "mwf (m\<lparr>waiting := f\<rparr>) = mwf m" for f and m :: "('a, 'b) machine" by (simp add: mwf_def view_ok_def)
  assume "mwf m"
  then show "cond_wait_enter t c x m = Ok m' \<Longrightarrow> mwf m'" "mwf (cond_spurious_wake t c m)" "mwf (cond_broadcast c m)"
    by (auto simp: cond_wait_enter_def cond_spurious_wake_def cond_broadcast_def outcome_simps w
        intro: mutex_unlock_mwf)
qed

lemma atomic_load_last:
  assumes "mwf m"
  obtains m' where "atomic_load ord t x (length (hist m x) - 1) m = Ok (value_of m x, m')"
  using atomic_load_enabled [of m x t ord] mwf_hist [OF assms] mwfD(1) [OF assms, of t]
  by (auto simp: view_ok_def Suc_le_eq)

end
