(* ===== verification/Fork_Join.thy ===== *)
theory Fork_Join
  imports C11_Machine
begin

text \<open>
  The shape every exercise shares: \<open>main\<close> creates a number of threads in a loop, joins them in a
  loop, and the threads run interleaved in between. A thread is a program counter with its local
  variables and a step function; \<open>main\<close> is a small machine of its own. Main is thread 0 of the
  machine, worker \<open>i\<close> is thread \<open>Suc i\<close>.

  The interface \<open>fork_join\<close> asks of a program an invariant of the shared machine and the workers'
  local states, and a set of tracked objects; it gives an invariant of the whole program, and that
  after the last join main has seen every access to the tracked objects.
\<close>

section \<open>Programs of the fork-join shape\<close>

record ('p, 'l, 'v) thread_prog =
  nthreads :: nat
  jorder :: "nat list"
  entry :: "nat \<Rightarrow> 'p"
  tstep :: "nat \<Rightarrow> choice \<Rightarrow> 'p \<Rightarrow> ('l, 'v) machine \<Rightarrow> ('p \<times> ('l, 'v) machine) outcome"
  halted :: "'p \<Rightarrow> bool"

datatype mainpc = Creating nat | Joining nat | Joined

record ('p, 'l, 'v) fj_state =
  shared :: "('l, 'v) machine"
  locals :: "nat \<Rightarrow> 'p option"
  mainpc :: mainpc

datatype event = MainStep | ThreadStep nat choice

definition fj_init :: "('l, 'v) machine \<Rightarrow> ('p, 'l, 'v) fj_state" where
  "fj_init m = \<lparr>shared = m, locals = (\<lambda>_. None), mainpc = Creating 0\<rparr>"

text \<open>\<open>for (i < n) pthread_create(...)\<close>, then \<open>pthread_join\<close> in the order of the source.\<close>

definition main_step :: "('p, 'l, 'v) thread_prog \<Rightarrow> ('p, 'l, 'v) fj_state \<Rightarrow>
    ('p, 'l, 'v) fj_state outcome" where
  "main_step P s =
     (case mainpc s of
        Creating i \<Rightarrow>
          if i < nthreads P
          then Ok (s\<lparr>shared := pthread_create 0 (Suc i) (shared s),
                     locals := (locals s)(i \<mapsto> entry P i), mainpc := Creating (Suc i)\<rparr>)
          else Ok (s\<lparr>mainpc := Joining 0\<rparr>)
      | Joining k \<Rightarrow>
          if k < length (jorder P)
          then (case locals s (jorder P ! k) of
                  None \<Rightarrow> Blocked
                | Some p \<Rightarrow>
                    if halted P p
                    then Ok (s\<lparr>shared := pthread_join 0 (Suc (jorder P ! k)) (shared s),
                               mainpc := Joining (Suc k)\<rparr>)
                    else Blocked)
          else Ok (s\<lparr>mainpc := Joined\<rparr>)
      | Joined \<Rightarrow> Blocked)"

fun fj_step :: "('p, 'l, 'v) thread_prog \<Rightarrow> event \<Rightarrow> ('p, 'l, 'v) fj_state \<Rightarrow>
    ('p, 'l, 'v) fj_state outcome" where
  "fj_step P MainStep s = main_step P s"
| "fj_step P (ThreadStep i c) s =
     (case locals s i of
        None \<Rightarrow> Blocked
      | Some p \<Rightarrow>
          if halted P p then Blocked
          else obind (tstep P i c p (shared s))
                 (\<lambda>(p', m'). Ok (s\<lparr>shared := m', locals := (locals s)(i \<mapsto> p')\<rparr>)))"

section \<open>What main knows\<close>

definition is_joined :: "('p, 'l, 'v) thread_prog \<Rightarrow> nat \<Rightarrow> mainpc \<Rightarrow> bool" where
  "is_joined P i pc = (case pc of Creating _ \<Rightarrow> False | Joining k \<Rightarrow> i \<in> set (take k (jorder P))
                       | Joined \<Rightarrow> i \<in> set (jorder P))"

definition fj_wf :: "('p, 'l, 'v) thread_prog \<Rightarrow> ('p, 'l, 'v) fj_state \<Rightarrow> bool" where
  "fj_wf P s \<longleftrightarrow>
     (case mainpc s of Creating k \<Rightarrow> k \<le> nthreads P \<and> dom (locals s) = {..<k}
      | _ \<Rightarrow> dom (locals s) = {..<nthreads P}) \<and>
     (\<forall>i p. is_joined P i (mainpc s) \<longrightarrow> locals s i = Some p \<longrightarrow> halted P p)"

text \<open>
  Main, or a thread that main has still to join, has seen every access counted by the key \<open>k\<close>.
\<close>

definition covered :: "('p, 'l, 'v) thread_prog \<Rightarrow> 'l vkey \<Rightarrow> ('p, 'l, 'v) fj_state \<Rightarrow> bool" where
  "covered P k s \<longleftrightarrow> knows_key (cur (shared s) 0) k (shared s) \<or>
     (\<exists>i\<in>dom (locals s). \<not> is_joined P i (mainpc s) \<and> knows_key (cur (shared s) (Suc i)) k (shared s))"

lemma accesses_create: "accesses (pthread_create t c m) k = accesses m k"
  by (cases k) (simp_all add: frame_simps)

lemma accesses_join: "accesses (pthread_join t c m) k = accesses m k"
  by (cases k) (simp_all add: frame_simps)

lemma main_step_cases:
  assumes "main_step P s = Ok s'"
  obtains (create) i where "mainpc s = Creating i" "i < nthreads P"
      "s' = s\<lparr>shared := pthread_create 0 (Suc i) (shared s),
              locals := (locals s)(i \<mapsto> entry P i), mainpc := Creating (Suc i)\<rparr>"
  | (created) i where "mainpc s = Creating i" "\<not> i < nthreads P" "s' = s\<lparr>mainpc := Joining 0\<rparr>"
  | (join) k p where "mainpc s = Joining k" "k < length (jorder P)"
      "locals s (jorder P ! k) = Some p" "halted P p"
      "s' = s\<lparr>shared := pthread_join 0 (Suc (jorder P ! k)) (shared s), mainpc := Joining (Suc k)\<rparr>"
  | (joined) k where "mainpc s = Joining k" "\<not> k < length (jorder P)" "s' = s\<lparr>mainpc := Joined\<rparr>"
  using assms by (auto simp: main_step_def split: mainpc.splits if_splits option.splits)

lemma main_step_no_ub: "main_step P s \<noteq> UB e"
  by (simp add: main_step_def split: mainpc.splits option.splits)

lemma main_step_mwf:
  assumes "mwf (shared s)" and "main_step P s = Ok s'"
  shows "mwf (shared s')"
  using assms(2) by (cases rule: main_step_cases) (use assms(1) in \<open>auto intro: mwf_intros\<close>)

lemma thread_step_cases:
  assumes "fj_step P (ThreadStep i c) s = Ok s'"
  obtains p p' m' where "locals s i = Some p" "\<not> halted P p"
    "tstep P i c p (shared s) = Ok (p', m')"
    "s' = s\<lparr>shared := m', locals := (locals s)(i \<mapsto> p')\<rparr>"
  using assms by (auto simp: outcome_simps split: option.splits if_splits)

lemma is_joined_Suc:
  "k < length (jorder P) \<Longrightarrow>
   is_joined P i (Joining (Suc k)) \<longleftrightarrow> is_joined P i (Joining k) \<or> i = jorder P ! k"
  by (auto simp: is_joined_def take_Suc_conv_app_nth)

lemma is_joined_all: "length (jorder P) \<le> k \<Longrightarrow> is_joined P i (Joining k) \<longleftrightarrow> i \<in> set (jorder P)"
  by (simp add: is_joined_def)

lemma fj_wf_init: "fj_wf P (fj_init m)"
  by (simp add: fj_wf_def fj_init_def is_joined_def)

lemma fj_wf_main:
  assumes "fj_wf P s" and "main_step P s = Ok s'"
  shows "fj_wf P s'"
  using assms(2)
proof (cases rule: main_step_cases)
  case (create i)
  with assms(1) show ?thesis by (auto simp: fj_wf_def is_joined_def)
next
  case (created i)
  with assms(1) show ?thesis by (auto simp: fj_wf_def is_joined_def)
next
  case (join k p)
  with assms(1) show ?thesis by (auto simp: fj_wf_def is_joined_Suc)
next
  case (joined k)
  with assms(1) show ?thesis by (auto simp: fj_wf_def is_joined_all) (simp_all add: is_joined_def)
qed

lemma fj_wf_thread:
  assumes "fj_wf P s" and "locals s i = Some p" and "\<not> halted P p"
  shows "fj_wf P (s\<lparr>shared := m', locals := (locals s)(i \<mapsto> p')\<rparr>)"
proof -
  have "i \<in> dom (locals s)" using assms(2) by blast
  then have dom: "dom ((locals s)(i \<mapsto> p')) = dom (locals s)" by auto
  have "\<not> is_joined P i (mainpc s)" using assms by (auto simp: fj_wf_def)
  with assms(1) dom show ?thesis
    unfolding fj_wf_def by (auto split: mainpc.splits)
qed

lemma fj_wf_unjoined:
  "fj_wf P s \<Longrightarrow> locals s i = Some p \<Longrightarrow> \<not> halted P p \<Longrightarrow> \<not> is_joined P i (mainpc s)"
  by (auto simp: fj_wf_def)

lemma fj_wf_index:
  assumes "fj_wf P s" and "locals s i = Some p"
  shows "i < nthreads P"
proof -
  have "i \<in> dom (locals s)" using assms(2) by blast
  with assms(1) show ?thesis by (auto simp: fj_wf_def split: mainpc.splits)
qed

lemma fj_wf_fresh: "fj_wf P s \<Longrightarrow> mainpc s = Creating i \<Longrightarrow> locals s i = None"
  by (auto simp: fj_wf_def dom_def)

lemma fj_wf_created: "fj_wf P s \<Longrightarrow> mainpc s = Joined \<Longrightarrow> i < nthreads P \<Longrightarrow> \<exists>p. locals s i = Some p"
  by (auto simp: fj_wf_def dom_def)

lemma fj_wf_halted:
  "fj_wf P s \<Longrightarrow> mainpc s = Joined \<Longrightarrow> i \<in> set (jorder P) \<Longrightarrow> locals s i = Some p \<Longrightarrow> halted P p"
  by (auto simp: fj_wf_def is_joined_def)

lemma covered_main:
  assumes "covered P k s" and "fj_wf P s" and "main_step P s = Ok s'"
  shows "covered P k s'"
  using assms(3)
proof (cases rule: main_step_cases)
  case (create i)
  let ?m' = "pthread_create 0 (Suc i) (shared s)"
  have fresh: "i \<notin> dom (locals s)" using assms(2) create(1) by (auto dest: fj_wf_fresh)
  have same: "cur ?m' u = cur (shared s) u" if "u \<noteq> Suc i" for u
    using that by (simp add: frame_simps)
  have keep: "knows_key (cur ?m' u) k ?m'" if "knows_key (cur (shared s) u) k (shared s)" "u \<noteq> Suc i" for u
    using that(1) by (rule knows_key_mono) (simp_all add: same [OF that(2)] accesses_create)
  from assms(1) consider "knows_key (cur (shared s) 0) k (shared s)"
    | j where "j \<in> dom (locals s)" "knows_key (cur (shared s) (Suc j)) k (shared s)"
    by (auto simp: covered_def)
  then show ?thesis
  proof cases
    case 1
    then show ?thesis using keep [of 0] create(3) by (simp add: covered_def)
  next
    case (2 j)
    then have "j \<noteq> i" using fresh by blast
    then show ?thesis using 2 keep [of "Suc j"] create(3)
      by (auto simp: covered_def is_joined_def)
  qed
next
  case (created i)
  with assms(1) show ?thesis by (auto simp: covered_def is_joined_def)
next
  case (join n p)
  let ?j = "jorder P ! n" and ?m = "shared s"
  have mono: "knows_key v k (pthread_join 0 (Suc ?j) ?m)" if "knows_key u k ?m" "u \<le> v" for u v
    using that by (rule knows_key_mono) (simp add: accesses_join)
  have main: "cur ?m 0 \<le> cur (pthread_join 0 (Suc ?j) ?m) 0"
    "cur ?m (Suc ?j) \<le> cur (pthread_join 0 (Suc ?j) ?m) 0"
    by (simp_all add: frame_simps)
  from assms(1) consider "knows_key (cur ?m 0) k ?m"
    | i where "i \<in> dom (locals s)" "\<not> is_joined P i (mainpc s)" "knows_key (cur ?m (Suc i)) k ?m"
    by (auto simp: covered_def)
  then show ?thesis
  proof cases
    case 1
    then show ?thesis using join mono main(1) by (auto simp: covered_def)
  next
    case (2 i)
    show ?thesis
    proof (cases "i = ?j")
      case True
      then show ?thesis using 2(3) join mono main(2) by (auto simp: covered_def)
    next
      case False
      have "\<not> is_joined P i (mainpc s')"
        using 2(2) False join by (simp add: is_joined_Suc)
      moreover have "knows_key (cur (shared s') (Suc i)) k (shared s')"
        using mono [OF 2(3) order.refl] join by (simp add: frame_simps)
      ultimately show ?thesis using 2(1) join by (auto simp: covered_def)
    qed
  qed
next
  case (joined n)
  with assms(1) show ?thesis
    by (auto simp: covered_def is_joined_all) (auto simp: is_joined_def)
qed

lemma covered_thread:
  assumes "covered P k s" and "locals s i = Some p" and "\<not> is_joined P i (mainpc s)"
    and "grows (Suc i) (shared s) m'"
    and "accesses m' k = accesses (shared s) k \<or> knows_key (cur m' (Suc i)) k m'"
  shows "covered P k (s\<lparr>shared := m', locals := (locals s)(i \<mapsto> p')\<rparr>)"
proof (cases "knows_key (cur m' (Suc i)) k m'")
  case True
  then show ?thesis using assms(3) by (auto simp: covered_def)
next
  case False
  then have un: "accesses m' k = accesses (shared s) k" using assms(5) by blast
  have keep: "knows_key (cur m' u) k m'" if "knows_key (cur (shared s) u) k (shared s)" for u
    by (rule knows_key_mono [OF that grows_le [OF assms(4)] un])
  from assms(1) consider "knows_key (cur (shared s) 0) k (shared s)"
    | j where "j \<in> dom (locals s)" "\<not> is_joined P j (mainpc s)"
        "knows_key (cur (shared s) (Suc j)) k (shared s)"
    by (auto simp: covered_def)
  then show ?thesis
  proof cases
    case 1
    then show ?thesis using keep by (simp add: covered_def)
  next
    case (2 j)
    then have "j \<in> dom ((locals s)(i \<mapsto> p'))" by auto
    then show ?thesis using 2 keep unfolding covered_def by auto
  qed
qed

lemma covered_joined:
  assumes "covered P k s" and "fj_wf P s" and "mainpc s = Joined" and "{..<nthreads P} \<subseteq> set (jorder P)"
  shows "knows_key (cur (shared s) 0) k (shared s)"
  using assms by (auto simp: covered_def fj_wf_def is_joined_def)

section \<open>The interface of a fork-join program\<close>

locale fork_join =
  fixes P :: "('p, 'l, 'v) thread_prog"
    and tracked :: "'l set"
    and ready :: "('l, 'v) machine \<Rightarrow> bool"
    and linv :: "('l, 'v) machine \<Rightarrow> (nat \<Rightarrow> 'p option) \<Rightarrow> bool"
  assumes all_joined: "{..<nthreads P} \<subseteq> set (jorder P)"
    and ready_inv: "ready m \<Longrightarrow> linv m (\<lambda>_. None)"
    and ready_mwf: "ready m \<Longrightarrow> mwf m"
    and ready_knows: "ready m \<Longrightarrow> x \<in> tracked \<Longrightarrow> knows (cur m 0) x m"
    and fork_inv: "linv m L \<Longrightarrow> L i = None \<Longrightarrow> i < nthreads P \<Longrightarrow> dom L = {..<i} \<Longrightarrow>
        linv (pthread_create 0 (Suc i) m) (L(i \<mapsto> entry P i))"
    and join_inv: "linv m L \<Longrightarrow> L i = Some p \<Longrightarrow> linv (pthread_join 0 (Suc i) m) L"
    and step_inv: "linv m L \<Longrightarrow> L i = Some p \<Longrightarrow> i < nthreads P \<Longrightarrow> \<not> halted P p \<Longrightarrow>
        tstep P i c p m = Ok (p', m') \<Longrightarrow> linv m' (L(i \<mapsto> p'))"
    and step_grows: "linv m L \<Longrightarrow> L i = Some p \<Longrightarrow> i < nthreads P \<Longrightarrow> \<not> halted P p \<Longrightarrow>
        tstep P i c p m = Ok (p', m') \<Longrightarrow> grows (Suc i) m m'"
    and step_tracked: "linv m L \<Longrightarrow> L i = Some p \<Longrightarrow> i < nthreads P \<Longrightarrow> \<not> halted P p \<Longrightarrow>
        tstep P i c p m = Ok (p', m') \<Longrightarrow> key_of k \<in> tracked \<Longrightarrow>
        accesses m' k = accesses m k \<or> knows_key (cur m' (Suc i)) k m'"
    and step_no_ub: "linv m L \<Longrightarrow> L i = Some p \<Longrightarrow> i < nthreads P \<Longrightarrow> \<not> halted P p \<Longrightarrow>
        tstep P i c p m \<noteq> UB u"
    and step_mwf: "mwf m \<Longrightarrow> tstep P i c p m = Ok (p', m') \<Longrightarrow> mwf m'"
begin

lemma inv_main:
  assumes "linv (shared s) (locals s)" and "fj_wf P s" and "main_step P s = Ok s'"
  shows "linv (shared s') (locals s')"
  using assms(3)
proof (cases rule: main_step_cases)
  case (create i)
  moreover have "dom (locals s) = {..<i}" using assms(2) create(1) by (simp add: fj_wf_def)
  ultimately show ?thesis using assms(1) fj_wf_fresh [OF assms(2)] by (auto intro: fork_inv)
next
  case (join k p)
  then show ?thesis using assms(1) by (auto intro: join_inv)
qed (use assms(1) in auto)

end

sublocale fork_join \<subseteq> safe_system "fj_step P"
  "\<lambda>s. \<exists>m. ready m \<and> s = fj_init m"
  "\<lambda>s. fj_wf P s \<and> mwf (shared s) \<and> linv (shared s) (locals s) \<and> (\<forall>k. key_of k \<in> tracked \<longrightarrow> covered P k s)"
proof (unfold_locales, goal_cases)
  case (1 s)
  then show ?case using ready_inv ready_mwf ready_knows fj_wf_init
    by (auto simp: covered_def fj_init_def knows_iff_keys)
next
  case (2 s e s')
  show ?case
  proof (cases e)
    case MainStep
    then have main: "main_step P s = Ok s'" using 2 by simp
    show ?thesis
      using 2(1) inv_main [OF _ _ main] fj_wf_main [OF _ main] covered_main [OF _ _ main]
        main_step_mwf [OF _ main] by blast
  next
    case (ThreadStep i c)
    obtain p p' m' where step: "locals s i = Some p" "\<not> halted P p"
      "tstep P i c p (shared s) = Ok (p', m')"
      "s' = s\<lparr>shared := m', locals := (locals s)(i \<mapsto> p')\<rparr>"
      using 2(2) unfolding ThreadStep by (rule thread_step_cases)
    have wf: "fj_wf P s" using 2(1) by blast
    have i: "i < nthreads P" and unj: "\<not> is_joined P i (mainpc s)"
      using fj_wf_index [OF wf step(1)] fj_wf_unjoined [OF wf step(1,2)] .
    have linv: "linv (shared s) (locals s)" using 2(1) by blast
    have "covered P k s'" if "key_of k \<in> tracked" for k
      unfolding step(4) using 2(1) that
      by (intro covered_thread [OF _ step(1) unj step_grows [OF linv step(1) i step(2,3)]
            step_tracked [OF linv step(1) i step(2,3)]]) auto
    moreover have "linv m' ((locals s)(i \<mapsto> p'))"
      by (rule step_inv [OF linv step(1) i step(2,3)])
    ultimately show ?thesis
      using 2(1) fj_wf_thread [OF _ step(1,2)] step_mwf [OF _ step(3)] by (simp add: step(4))
  qed
next
  case (3 s e u)
  show ?case
  proof (cases e)
    case MainStep
    then show ?thesis by (simp add: main_step_no_ub)
  next
    case (ThreadStep i c)
    have wf: "fj_wf P s" and linv: "linv (shared s) (locals s)" using 3 by blast+
    have "tstep P i c p (shared s) \<noteq> UB u" if "locals s i = Some p" "\<not> halted P p" for p
      by (rule step_no_ub [OF linv that(1) fj_wf_index [OF wf that(1)] that(2)])
    then show ?thesis unfolding ThreadStep
      by (cases "locals s i") (auto simp: obind_UB_iff)
  qed
qed

context fork_join
begin

lemma finished:
  assumes "reach (fj_step P) (fj_init m) s" and "ready m" and "mainpc s = Joined"
  shows "linv (shared s) (locals s)"
    and "x \<in> tracked \<Longrightarrow> knows (cur (shared s) 0) x (shared s)"
    and "i < nthreads P \<Longrightarrow> \<exists>p. locals s i = Some p \<and> halted P p"
proof -
  have inv: "fj_wf P s \<and> mwf (shared s) \<and> linv (shared s) (locals s) \<and> (\<forall>k. key_of k \<in> tracked \<longrightarrow> covered P k s)"
    using reach_inv [OF assms(1)] assms(2) by blast
  then show "linv (shared s) (locals s)" by blast
  show "x \<in> tracked \<Longrightarrow> knows (cur (shared s) 0) x (shared s)"
    using inv covered_joined [OF _ _ assms(3) all_joined] by (auto simp: knows_iff_keys)
  show "\<exists>p. locals s i = Some p \<and> halted P p" if lt: "i < nthreads P"
  proof -
    obtain p where p: "locals s i = Some p" using inv fj_wf_created [OF _ assms(3) lt] by blast
    have "i \<in> set (jorder P)" using lt all_joined by blast
    then show ?thesis using p inv fj_wf_halted [OF _ assms(3) _ p] by blast
  qed
qed

lemma thread_safe:
  assumes "reach (fj_step P) (fj_init m) s" and "ready m"
  shows "fj_step P e s \<noteq> UB u"
  using never_ub [OF assms(1)] assms(2) by blast

lemma reach_linv:
  assumes "reach (fj_step P) (fj_init m) s" and "ready m"
  shows "linv (shared s) (locals s)"
  using reach_inv [OF assms(1)] assms(2) by blast

lemma reach_mwf:
  assumes "reach (fj_step P) (fj_init m) s" and "ready m"
  shows "mwf (shared s)"
  using reach_inv [OF assms(1)] assms(2) by blast

lemma reach_wf:
  assumes "reach (fj_step P) (fj_init m) s" and "ready m"
  shows "fj_wf P s"
  using reach_inv [OF assms(1)] assms(2) by blast

end

lemma fj_upd_sel:
  "shared (s\<lparr>shared := m, locals := L\<rparr>) = m" "locals (s\<lparr>shared := m, locals := L\<rparr>) = L"
  "mainpc (s\<lparr>shared := m, locals := L\<rparr>) = mainpc s"
  by simp_all

text \<open>An invariant alone, for programs that are not free of undefined behaviour.\<close>

lemma fj_reach_linv:
  assumes reach: "reach (fj_step P) (fj_init m0) s" and start: "mwf m0" "linv m0 (\<lambda>_. None)"
    and fork: "\<And>m L i. mwf m \<Longrightarrow> linv m L \<Longrightarrow> dom L = {..<i} \<Longrightarrow> i < nthreads P \<Longrightarrow>
        linv (pthread_create 0 (Suc i) m) (L(i \<mapsto> entry P i))"
    and join: "\<And>m L i p. linv m L \<Longrightarrow> L i = Some p \<Longrightarrow> dom L = {..<nthreads P} \<Longrightarrow> linv (pthread_join 0 (Suc i) m) L"
    and step: "\<And>m L i p c p' m'. mwf m \<Longrightarrow> linv m L \<Longrightarrow> L i = Some p \<Longrightarrow> i < nthreads P \<Longrightarrow>
        tstep P i c p m = Ok (p', m') \<Longrightarrow> linv m' (L(i \<mapsto> p')) \<and> mwf m'"
  shows "fj_wf P s \<and> mwf (shared s) \<and> linv (shared s) (locals s)"
  using reach
proof (induction rule: reach.induct)
  case reach_refl
  then show ?case using start fj_wf_init by (auto simp: fj_init_def)
next
  case (reach_step s e s')
  then have IH: "fj_wf P s" "mwf (shared s)" "linv (shared s) (locals s)" by blast+
  show ?case
  proof (cases e)
    case MainStep
    then have main: "main_step P s = Ok s'" using reach_step.hyps(2) by simp
    then have "linv (shared s') (locals s')"
    proof (cases rule: main_step_cases)
      case (create i)
      then show ?thesis using fork [OF IH(2,3)] IH(1) by (simp add: fj_wf_def)
    next
      case (join k p)
      then show ?thesis using assms(5) [OF IH(3)] IH(1) by (simp add: fj_wf_def)
    qed (use IH in auto)
    then show ?thesis using fj_wf_main [OF IH(1) main] main_step_mwf [OF IH(2) main] by blast
  next
    case (ThreadStep i c)
    obtain p p' m' where st: "locals s i = Some p" "\<not> halted P p"
      "tstep P i c p (shared s) = Ok (p', m')"
      "s' = s\<lparr>shared := m', locals := (locals s)(i \<mapsto> p')\<rparr>"
      using reach_step.hyps(2) unfolding ThreadStep by (rule thread_step_cases)
    have "linv m' ((locals s)(i \<mapsto> p'))" and "mwf m'"
      using step [OF IH(2,3) st(1) fj_wf_index [OF IH(1) st(1)] st(3)] by blast+
    then show ?thesis using fj_wf_thread [OF IH(1) st(1,2)] unfolding st(4) by (simp only: fj_upd_sel simp_thms)
  qed
qed

text \<open>Main can create the threads one after the other before any of them moves.\<close>

lemma reach_entry:
  assumes "i < nthreads P"
  shows "\<exists>s. reach (fj_step P) (fj_init m) s \<and> locals s i = Some (entry P i)"
proof -
  have "\<exists>s. reach (fj_step P) (fj_init m) s \<and> mainpc s = Creating k \<and> (\<forall>j<k. locals s j = Some (entry P j))"
    if "k \<le> nthreads P" for k
    using that
  proof (induction k)
    case 0
    have "mainpc (fj_init m :: ('a, 'b, 'c) fj_state) = Creating 0" by (simp add: fj_init_def)
    then show ?case by (blast intro: reach_refl)
  next
    case (Suc k)
    then obtain s where s: "reach (fj_step P) (fj_init m) s" "mainpc s = Creating k"
      "\<forall>j<k. locals s j = Some (entry P j)" by auto
    let ?s = "s\<lparr>shared := pthread_create 0 (Suc k) (shared s), locals := (locals s)(k \<mapsto> entry P k), mainpc := Creating (Suc k)\<rparr>"
    have "fj_step P MainStep s = Ok ?s" using s(2) Suc.prems by (simp add: main_step_def)
    from reach_step [OF s(1) this] show ?case using s(3) by (intro exI [of _ ?s]) (auto simp: less_Suc_eq)
  qed
  from this [of "nthreads P"] show ?thesis using assms by blast
qed

text \<open>A property of the shared machine that neither main nor a step of a thread can break.\<close>

lemma fj_reach_shared:
  assumes "reach (fj_step P) (fj_init m0) s" and "I m0"
    and create: "\<And>m i. I m \<Longrightarrow> I (pthread_create 0 i m)" and join: "\<And>m i. I m \<Longrightarrow> I (pthread_join 0 i m)"
    and step: "\<And>m i c p p' m'. I m \<Longrightarrow> tstep P i c p m = Ok (p', m') \<Longrightarrow> I m'"
  shows "I (shared s)"
  using assms(1)
proof (induction rule: reach.induct)
  case reach_refl
  then show ?case using assms(2) by (simp add: fj_init_def)
next
  case (reach_step s e s')
  show ?case
  proof (cases e)
    case MainStep
    then have "main_step P s = Ok s'" using reach_step.hyps(2) by simp
    then show ?thesis using reach_step.IH create join by (cases rule: main_step_cases) auto
  next
    case (ThreadStep i c)
    then have "fj_step P (ThreadStep i c) s = Ok s'" using reach_step.hyps(2) by simp
    then show ?thesis by (rule thread_step_cases) (auto intro: step [OF reach_step.IH])
  qed
qed

section \<open>Completion\<close>

text \<open>
  A calm schedule has no spurious events: no wakeup that nobody caused and no compare-exchange that
  fails. \<open>solo\<close>: a thread that runs alone, calmly. \<open>can_finish\<close>: some calm schedule takes the program to
  the end of main, so that the program does not depend on spurious events to get there.
\<close>

fun spurious :: "choice \<Rightarrow> bool" where
  "spurious (Fail k) = True"
| "spurious _ = False"

fun calm_step :: "('p, 'l, 'v) thread_prog \<Rightarrow> event \<Rightarrow> ('p, 'l, 'v) fj_state \<Rightarrow> ('p, 'l, 'v) fj_state outcome" where
  "calm_step P MainStep s = fj_step P MainStep s"
| "calm_step P (ThreadStep i c) s = (if spurious c then Blocked else fj_step P (ThreadStep i c) s)"

lemma calm_reach: "reach (calm_step P) s s' \<Longrightarrow> reach (fj_step P) s s'"
proof (induction rule: reach.induct)
  case (reach_step s1 e s2)
  then have "fj_step P e s1 = Ok s2" by (cases e) (auto split: if_splits)
  with reach_step.IH show ?case by (rule reach.reach_step)
qed (rule reach_refl)

inductive solo :: "('p, 'l, 'v) thread_prog \<Rightarrow> nat \<Rightarrow> 'p \<Rightarrow> ('l, 'v) machine \<Rightarrow> 'p \<Rightarrow> ('l, 'v) machine \<Rightarrow> bool"
  for P i where
  solo_refl: "solo P i p m p m"
| solo_step: "\<not> halted P p \<Longrightarrow> tstep P i c p m = Ok (p1, m1) \<Longrightarrow> \<not> spurious c \<Longrightarrow>
    solo P i p1 m1 p2 m2 \<Longrightarrow> solo P i p m p2 m2"

lemma solo_trans: "solo P i p m p1 m1 \<Longrightarrow> solo P i p1 m1 p2 m2 \<Longrightarrow> solo P i p m p2 m2"
  by (induction rule: solo.induct) (auto intro: solo_step)

lemma solo_one: "\<not> halted P p \<Longrightarrow> tstep P i c p m = Ok (p', m') \<Longrightarrow> \<not> spurious c \<Longrightarrow> solo P i p m p' m'"
  by (rule solo_step [OF _ _ _ solo_refl])

definition can_finish :: "('p, 'l, 'v) thread_prog \<Rightarrow> ('p, 'l, 'v) fj_state \<Rightarrow> bool" where
  "can_finish P s \<longleftrightarrow> (\<exists>s'. reach (calm_step P) s s' \<and> mainpc s' = Joined)"

definition unfinished :: "('p, 'l, 'v) thread_prog \<Rightarrow> (nat \<Rightarrow> 'p option) \<Rightarrow> nat set" where
  "unfinished P L = {i. i < nthreads P \<and> (\<forall>p. L i = Some p \<longrightarrow> \<not> halted P p)}"

lemma unfinishedE:
  assumes "unfinished P L \<noteq> {}" and "dom L = {..<nthreads P}"
  obtains i p where "i < nthreads P" and "L i = Some p" and "\<not> halted P p"
proof -
  obtain i where i: "i < nthreads P" "\<And>p. L i = Some p \<Longrightarrow> \<not> halted P p"
    using assms(1) by (auto simp: unfinished_def)
  then have "i \<in> dom L" using assms(2) by simp
  then show thesis using that i by blast
qed

lemma can_finish_reach: "reach (calm_step P) s s' \<Longrightarrow> can_finish P s' \<Longrightarrow> can_finish P s"
  unfolding can_finish_def by (blast intro: reach_trans)

lemma solo_reach:
  "solo P i p m p' m' \<Longrightarrow> locals s i = Some p \<Longrightarrow> shared s = m \<Longrightarrow>
   reach (calm_step P) s (s\<lparr>shared := m', locals := (locals s)(i \<mapsto> p')\<rparr>)"
proof (induction arbitrary: s rule: solo.induct)
  case (solo_refl p m)
  then have "s\<lparr>shared := m, locals := (locals s)(i \<mapsto> p)\<rparr> = s" by (cases s) auto
  then show ?case by (simp only: reach_refl)
next
  case (solo_step p c m p1 m1 p2 m2)
  let ?s1 = "s\<lparr>shared := m1, locals := (locals s)(i \<mapsto> p1)\<rparr>"
  have "calm_step P (ThreadStep i c) s = Ok ?s1"
    using solo_step.hyps solo_step.prems by simp
  then have 1: "reach (calm_step P) s ?s1" by (rule reach_step [OF reach_refl])
  have 2: "reach (calm_step P) ?s1 (?s1\<lparr>shared := m2, locals := (locals ?s1)(i \<mapsto> p2)\<rparr>)"
    by (rule solo_step.IH) simp_all
  have "reach (calm_step P) s (?s1\<lparr>shared := m2, locals := (locals ?s1)(i \<mapsto> p2)\<rparr>)"
    by (rule reach_trans [OF 2 1])
  then show ?case by (simp add: fun_upd_def cong: if_cong)
qed

lemma create_all:
  "mainpc s = Creating k \<Longrightarrow> \<exists>s'. reach (calm_step P) s s' \<and> mainpc s' = Joining 0"
proof (induction "nthreads P - k" arbitrary: s k)
  case 0
  then have "calm_step P MainStep s = Ok (s\<lparr>mainpc := Joining 0\<rparr>)" by (simp add: main_step_def)
  then have "reach (calm_step P) s (s\<lparr>mainpc := Joining 0\<rparr>)" by (rule reach_step [OF reach_refl])
  then show ?case by (intro exI [of _ "s\<lparr>mainpc := Joining 0\<rparr>"]) simp
next
  case (Suc d)
  let ?s1 = "s\<lparr>shared := pthread_create 0 (Suc k) (shared s), locals := (locals s)(k \<mapsto> entry P k),
               mainpc := Creating (Suc k)\<rparr>"
  have "calm_step P MainStep s = Ok ?s1" using Suc.hyps(2) Suc.prems by (simp add: main_step_def)
  then have 1: "reach (calm_step P) s ?s1" by (rule reach_step [OF reach_refl])
  have "d = nthreads P - Suc k" using Suc.hyps(2) by simp
  from Suc.hyps(1) [OF this, of ?s1] obtain s' where "reach (calm_step P) ?s1 s'" "mainpc s' = Joining 0"
    by auto
  then show ?case using reach_trans [OF _ 1] by blast
qed

lemma join_all:
  assumes "mainpc s = Joining k" and "\<And>i. i \<in> set (jorder P) \<Longrightarrow> \<exists>p. locals s i = Some p \<and> halted P p"
  shows "can_finish P s"
  using assms
proof (induction "length (jorder P) - k" arbitrary: s k)
  case 0
  then have "calm_step P MainStep s = Ok (s\<lparr>mainpc := Joined\<rparr>)" by (simp add: main_step_def)
  then have "reach (calm_step P) s (s\<lparr>mainpc := Joined\<rparr>)" by (rule reach_step [OF reach_refl])
  then show ?case unfolding can_finish_def by (intro exI [of _ "s\<lparr>mainpc := Joined\<rparr>"]) simp
next
  case (Suc d)
  let ?s1 = "s\<lparr>shared := pthread_join 0 (Suc (jorder P ! k)) (shared s), mainpc := Joining (Suc k)\<rparr>"
  have k: "k < length (jorder P)" using Suc.hyps(2) by simp
  then obtain p where "locals s (jorder P ! k) = Some p" "halted P p" using Suc.prems(2) by force
  then have "calm_step P MainStep s = Ok ?s1" using Suc.prems(1) k by (simp add: main_step_def)
  then have 1: "reach (calm_step P) s ?s1" by (rule reach_step [OF reach_refl])
  have "can_finish P ?s1"
    by (rule Suc.hyps(1) [of "Suc k"]) (use Suc in auto)
  then show ?case by (rule can_finish_reach [OF 1])
qed

text \<open>
  A fork-join program with a measure of the work left: as long as threads are unfinished, one of them
  can move on its own so that the measure drops. Then main can finish from every reachable state.
\<close>

locale fork_join_progress = fork_join +
  fixes work :: "('l, 'v) machine \<Rightarrow> (nat \<Rightarrow> 'p option) \<Rightarrow> nat"
  assumes indices: "set (jorder P) \<subseteq> {..<nthreads P}"
    and progress: "mwf m \<Longrightarrow> linv m L \<Longrightarrow> dom L = {..<nthreads P} \<Longrightarrow> unfinished P L \<noteq> {} \<Longrightarrow>
      \<exists>i p p' m'. L i = Some p \<and> solo P i p m p' m' \<and> work m' (L(i \<mapsto> p')) < work m L"
begin

lemma finish_workers:
  assumes "reach (fj_step P) (fj_init m) s" and "ready m" and "mainpc s = Joining k"
  shows "can_finish P s"
  using assms(1,3)
proof (induction "work (shared s) (locals s)" arbitrary: s rule: less_induct)
  case less
  have wf: "fj_wf P s" by (rule reach_wf [OF less.prems(1) assms(2)])
  have created: "dom (locals s) = {..<nthreads P}"
    using wf less.prems(2) by (simp add: fj_wf_def)
  show ?case
  proof (cases "unfinished P (locals s) = {}")
    case True
    have "\<exists>p. locals s i = Some p \<and> halted P p" if "i \<in> set (jorder P)" for i
    proof -
      have "i < nthreads P" using that indices by auto
      moreover have "i \<notin> unfinished P (locals s)" using True by simp
      moreover have "i \<in> dom (locals s)" using created calculation(1) by simp
      ultimately show ?thesis by (auto simp: unfinished_def)
    qed
    then show ?thesis by (rule join_all [OF less.prems(2)])
  next
    case False
    from progress [OF reach_mwf [OF less.prems(1) assms(2)] reach_linv [OF less.prems(1) assms(2)] created False]
    obtain i p p' m' where i: "locals s i = Some p" "solo P i p (shared s) p' m'"
      "work m' ((locals s)(i \<mapsto> p')) < work (shared s) (locals s)" by blast
    let ?s1 = "s\<lparr>shared := m', locals := (locals s)(i \<mapsto> p')\<rparr>"
    have 1: "reach (calm_step P) s ?s1" by (rule solo_reach [OF i(2,1) refl])
    have "work (shared ?s1) (locals ?s1) < work (shared s) (locals s)" using i(3) by (simp only: fj_upd_sel)
    moreover have "mainpc ?s1 = Joining k" using less.prems(2) by (simp only: fj_upd_sel)
    ultimately have "can_finish P ?s1"
      by (rule less.hyps [OF _ reach_trans [OF calm_reach [OF 1] less.prems(1)]])
    then show ?thesis by (rule can_finish_reach [OF 1])
  qed
qed

lemma always_can_finish:
  assumes "reach (fj_step P) (fj_init m) s" and "ready m"
  shows "can_finish P s"
proof (cases "mainpc s")
  case (Creating k)
  from create_all [OF this] obtain s' where s': "reach (calm_step P) s s'" "mainpc s' = Joining 0" by blast
  have "can_finish P s'" by (rule finish_workers [OF reach_trans [OF calm_reach [OF s'(1)] assms(1)] assms(2) s'(2)])
  then show ?thesis by (rule can_finish_reach [OF s'(1)])
next
  case (Joining k)
  then show ?thesis by (rule finish_workers [OF assms])
next
  case Joined
  then show ?thesis unfolding can_finish_def by (blast intro: reach_refl)
qed

end

text \<open>
  The special case in which one of the unfinished threads can run to its end on its own: the measure
  is the number of unfinished threads.
\<close>

locale fork_join_live = fork_join +
  assumes live_indices: "set (jorder P) \<subseteq> {..<nthreads P}"
    and pick: "mwf m \<Longrightarrow> linv m L \<Longrightarrow> dom L = {..<nthreads P} \<Longrightarrow> unfinished P L \<noteq> {} \<Longrightarrow>
      \<exists>i\<in>unfinished P L. \<exists>p p' m'. L i = Some p \<and> solo P i p m p' m' \<and> halted P p'"

sublocale fork_join_live \<subseteq> fork_join_progress P tracked ready linv "\<lambda>m L. card (unfinished P L)"
proof (unfold_locales, goal_cases)
  case 1
  then show ?case by (rule live_indices)
next
  case (2 m L)
  then obtain i p p' m' where i: "i \<in> unfinished P L" "L i = Some p" "solo P i p m p' m'" "halted P p'"
    using pick by blast
  have fin: "finite (unfinished P L)" by (simp add: unfinished_def)
  have "unfinished P (L(i \<mapsto> p')) = unfinished P L - {i}"
    using i(4) by (auto simp: unfinished_def split: if_splits)
  then have "card (unfinished P (L(i \<mapsto> p'))) < card (unfinished P L)"
    using card_Diff1_less [OF fin i(1)] by (simp only:)
  then show ?case using i(2,3) by blast
qed

text \<open>A thread that runs alone keeps the invariant.\<close>

context fork_join
begin

lemma solo_keeps:
  assumes "solo P i p m p' m'" and "mwf m" and "linv m L" and "L i = Some p" and "i < nthreads P"
  shows "mwf m' \<and> linv m' (L(i \<mapsto> p'))"
  using assms
proof (induction arbitrary: L rule: solo.induct)
  case (solo_refl p m)
  then have "L(i \<mapsto> p) = L" by auto
  then show ?case using solo_refl by (simp only: simp_thms)
next
  case (solo_step p c m p1 m1 p2 m2)
  have wf1: "mwf m1" by (rule step_mwf [OF solo_step.prems(1) solo_step.hyps(2)])
  have inv1: "linv m1 (L(i \<mapsto> p1))"
    by (rule step_inv [OF solo_step.prems(2,3,4) solo_step.hyps(1,2)])
  have "mwf m2 \<and> linv m2 ((L(i \<mapsto> p1))(i \<mapsto> p2))"
    by (rule solo_step.IH [OF wf1 inv1]) (simp_all add: solo_step.prems(4))
  then show ?case by (simp only: fun_upd_upd)
qed

end

section \<open>Programs that always race\<close>

text \<open>
  A program that has undefined behaviour in every complete execution: a data race can be reached, and
  no execution without one reaches the end of main.
\<close>

definition always_races :: "('p, 'l, 'v) thread_prog \<Rightarrow> ('l, 'v) machine \<Rightarrow> bool" where
  "always_races P m0 \<longleftrightarrow>
     (\<forall>s. reach (fj_step P) (fj_init m0) s \<longrightarrow> mainpc s \<noteq> Joined) \<and>
     (\<exists>es. run (fj_step P) es (fj_init m0) = UB DataRace)"

section \<open>Tests one after the other\<close>

text \<open>
  A test of a main function: main resets the objects of the test, then creates and joins its threads.
  \<open>test_ends\<close> relates the machine before to a machine after the last join; no step on the way is
  undefined. \<open>in_turn\<close> is a main function that runs several tests on the same machine.
\<close>

definition test_ends :: "(('l, 'v) machine \<Rightarrow> ('l, 'v) machine outcome) \<Rightarrow> ('p, 'l, 'v) thread_prog \<Rightarrow>
    ('l, 'v) machine \<Rightarrow> ('l, 'v) machine \<Rightarrow> bool" where
  "test_ends reset P m m' \<longleftrightarrow> (\<exists>m1 s. reset m = Ok m1 \<and> reach (fj_step P) (fj_init m1) s \<and>
     mainpc s = Joined \<and> m' = shared s)"

fun in_turn :: "(('l, 'v) machine \<Rightarrow> ('l, 'v) machine \<Rightarrow> bool) list \<Rightarrow> ('l, 'v) machine \<Rightarrow> ('l, 'v) machine \<Rightarrow> bool" where
  "in_turn [] m m' \<longleftrightarrow> m' = m"
| "in_turn (T # Ts) m m' \<longleftrightarrow> (\<exists>m1. T m m1 \<and> in_turn Ts m1 m')"

lemma test_endsE:
  assumes "test_ends reset P m m'"
  obtains m1 s where "reset m = Ok m1" and "reach (fj_step P) (fj_init m1) s" and "mainpc s = Joined" and "m' = shared s"
  using assms by (auto simp: test_ends_def)

lemma races_never_end: "reset m = Ok m1 \<Longrightarrow> always_races P m1 \<Longrightarrow> \<not> test_ends reset P m m'"
  by (auto simp: test_ends_def always_races_def)

lemma can_finish_ends: "reset m = Ok m1 \<Longrightarrow> can_finish P (fj_init m1) \<Longrightarrow> \<exists>m'. test_ends reset P m m'"
  unfolding test_ends_def can_finish_def by (blast dest: calm_reach)

end
