(* ===== verification/Bounded_Runs.thy ===== *)
theory Bounded_Runs
  imports Fork_Join
begin

text \<open>
  Programs whose threads block but never spin: every step that is not a spurious event uses up work,
  so that every schedule, fair or not, is finite. The interface \<open>fork_join_bounded\<close> asks for the work a
  thread has left, which may depend on the shared machine; its lemmas bound the length of every calm
  schedule from every reachable state. With completion, a calm schedule that cannot be continued has
  reached the end of main.
\<close>

section \<open>Schedules that end\<close>

text \<open>
  From \<open>s\<close> every calm schedule has at most \<open>B\<close> steps, and one that cannot be continued has finished
  main.
\<close>

definition ends_within :: "('p, 'l, 'v) thread_prog \<Rightarrow> nat \<Rightarrow> ('p, 'l, 'v) fj_state \<Rightarrow> bool" where
  "ends_within P B s \<longleftrightarrow> (\<forall>es s'. run (calm_step P) es s = Ok s' \<longrightarrow>
     length es \<le> B \<and> ((\<forall>e s''. calm_step P e s' \<noteq> Ok s'') \<longrightarrow> mainpc s' = Joined))"

lemma ends_within_mono: "ends_within P B s \<Longrightarrow> B \<le> B' \<Longrightarrow> ends_within P B' s"
  unfolding ends_within_def by (meson order.trans)

lemma stuck_finished:
  assumes "can_finish P s" and "\<And>e s'. calm_step P e s \<noteq> Ok s'"
  shows "mainpc s = Joined"
proof -
  obtain s' where s': "reach (calm_step P) s s'" "mainpc s' = Joined" using assms(1) by (auto simp: can_finish_def)
  from reach_run [OF s'(1)] obtain es where "run (calm_step P) es s = Ok s'" ..
  then have "s' = s" using assms(2) by (cases es) (auto simp: outcome_simps)
  then show ?thesis using s'(2) by simp
qed

text \<open>Steps of main still to come, and the point of a thread, its entry point while it is not created.\<close>

fun main_left :: "('p, 'l, 'v) thread_prog \<Rightarrow> mainpc \<Rightarrow> nat" where
  "main_left P (Creating i) = nthreads P - i + length (jorder P) + 2"
| "main_left P (Joining k) = length (jorder P) - k + 1"
| "main_left P Joined = 0"

definition point :: "('p, 'l, 'v) thread_prog \<Rightarrow> (nat \<Rightarrow> 'p option) \<Rightarrow> nat \<Rightarrow> 'p" where
  "point P L j = (case L j of None \<Rightarrow> entry P j | Some p \<Rightarrow> p)"

lemma point_simps [simp]:
  "L j = Some p \<Longrightarrow> point P L j = p" "L j = None \<Longrightarrow> point P L j = entry P j"
  "point P (L(i \<mapsto> p)) j = (if j = i then p else point P L j)"
  by (simp_all add: point_def)

definition all_left :: "('p, 'l, 'v) thread_prog \<Rightarrow> (('l, 'v) machine \<Rightarrow> 'p \<Rightarrow> nat) \<Rightarrow> ('p, 'l, 'v) fj_state \<Rightarrow> nat" where
  "all_left P left s = (\<Sum>j<nthreads P. left (shared s) (point P (locals s) j)) + main_left P (mainpc s)"

section \<open>The interface\<close>

locale fork_join_bounded = fork_join +
  fixes left :: "('l, 'v) machine \<Rightarrow> 'p \<Rightarrow> nat"
  assumes left_less: "linv m L \<Longrightarrow> L i = Some p \<Longrightarrow> i < nthreads P \<Longrightarrow> \<not> halted P p \<Longrightarrow> \<not> spurious c \<Longrightarrow>
        tstep P i c p m = Ok (p', m') \<Longrightarrow> left m' p' < left m p"
    and left_others: "linv m L \<Longrightarrow> L i = Some p \<Longrightarrow> i < nthreads P \<Longrightarrow> \<not> halted P p \<Longrightarrow>
        tstep P i c p m = Ok (p', m') \<Longrightarrow> j < nthreads P \<Longrightarrow> j \<noteq> i \<Longrightarrow> left m' (point P L j) \<le> left m (point P L j)"
    and left_main: "left (pthread_create 0 t m) p = left m p" "left (pthread_join 0 t m) p = left m p"
begin

lemma main_uses_left:
  assumes "fj_wf P s" and "main_step P s = Ok s'"
  shows "all_left P left s' < all_left P left s"
  using assms(2)
proof (cases rule: main_step_cases)
  case (create i)
  have "point P ((locals s)(i \<mapsto> entry P i)) j = point P (locals s) j" for j
    using fj_wf_fresh [OF assms(1) create(1)] by simp
  then show ?thesis using create by (simp add: all_left_def left_main)
qed (simp_all add: all_left_def left_main)

lemma thread_uses_left:
  assumes "fj_wf P s" and "linv (shared s) (locals s)" and "\<not> spurious c" and "fj_step P (ThreadStep i c) s = Ok s'"
  shows "all_left P left s' < all_left P left s"
proof -
  obtain p p' m' where st: "locals s i = Some p" "\<not> halted P p" "tstep P i c p (shared s) = Ok (p', m')"
    "s' = s\<lparr>shared := m', locals := (locals s)(i \<mapsto> p')\<rparr>"
    using assms(4) by (rule thread_step_cases)
  have i: "i < nthreads P" by (rule fj_wf_index [OF assms(1) st(1)])
  note less = left_less [OF assms(2) st(1) i st(2) assms(3) st(3)]
    and others = left_others [OF assms(2) st(1) i st(2,3)]
  have "(\<Sum>j<nthreads P. left m' (point P ((locals s)(i \<mapsto> p')) j)) < (\<Sum>j<nthreads P. left (shared s) (point P (locals s) j))"
  proof (rule sum_strict_mono_ex1)
    show "\<forall>j\<in>{..<nthreads P}. left m' (point P ((locals s)(i \<mapsto> p')) j) \<le> left (shared s) (point P (locals s) j)"
      using less others st(1) by auto
    show "\<exists>j\<in>{..<nthreads P}. left m' (point P ((locals s)(i \<mapsto> p')) j) < left (shared s) (point P (locals s) j)"
      using less st(1) i by (intro bexI [of _ i]) auto
  qed simp
  then show ?thesis by (simp add: all_left_def st(4))
qed

lemma calm_uses_left:
  assumes "fj_wf P s" and "linv (shared s) (locals s)" and "calm_step P e s = Ok s'"
  shows "all_left P left s' < all_left P left s"
  using assms(3) main_uses_left [OF assms(1)] thread_uses_left [OF assms(1,2)]
  by (cases e) (auto split: if_splits simp del: fj_step.simps(2))

lemma calm_bounded:
  assumes "reach (fj_step P) (fj_init m) s" and "ready m" and "run (calm_step P) es s = Ok s'"
  shows "length es + all_left P left s' \<le> all_left P left s"
  using assms(1,3)
proof (induction es arbitrary: s)
  case (Cons e es)
  then obtain s1 where s1: "calm_step P e s = Ok s1" "run (calm_step P) es s1 = Ok s'" by (auto simp: outcome_simps)
  have "reach (calm_step P) s s1" using s1(1) by (rule reach_step [OF reach_refl])
  then have r: "reach (fj_step P) (fj_init m) s1" by (rule reach_trans [OF calm_reach Cons.prems(1)])
  have "all_left P left s1 < all_left P left s"
    by (rule calm_uses_left [OF reach_wf [OF Cons.prems(1) assms(2)] reach_linv [OF Cons.prems(1) assms(2)] s1(1)])
  then show ?case using Cons.IH [OF r s1(2)] by simp
qed simp

lemma bounded_ends:
  assumes "reach (fj_step P) (fj_init m) s" and "ready m"
    and finish: "\<And>s'. reach (fj_step P) (fj_init m) s' \<Longrightarrow> can_finish P s'"
  shows "ends_within P (all_left P left s) s"
  unfolding ends_within_def
proof (intro allI impI conjI)
  fix es s' assume es: "run (calm_step P) es s = Ok s'"
  show "length es \<le> all_left P left s" using calm_bounded [OF assms(1,2) es] by simp
  assume stuck: "\<forall>e s''. calm_step P e s' \<noteq> Ok s''"
  have "reach (fj_step P) (fj_init m) s'" by (rule reach_trans [OF calm_reach [OF run_reach [OF es]] assms(1)])
  from stuck_finished [OF finish [OF this]] show "mainpc s' = Joined" using stuck by blast
qed

text \<open>The bound in terms of one for each thread.\<close>

lemma all_left_le:
  assumes "fj_wf P s" and "\<And>j. j < nthreads P \<Longrightarrow> left (shared s) (point P (locals s) j) \<le> b j"
  shows "all_left P left s \<le> (\<Sum>j<nthreads P. b j) + nthreads P + length (jorder P) + 2"
proof -
  have "(\<Sum>j<nthreads P. left (shared s) (point P (locals s) j)) \<le> (\<Sum>j<nthreads P. b j)"
    by (rule sum_mono) (use assms(2) in simp)
  moreover have "main_left P (mainpc s) \<le> nthreads P + length (jorder P) + 2" by (cases "mainpc s") simp_all
  ultimately show ?thesis by (simp add: all_left_def)
qed

lemma bounded_ends_le:
  assumes "reach (fj_step P) (fj_init m) s" and "ready m"
    and "\<And>s'. reach (fj_step P) (fj_init m) s' \<Longrightarrow> can_finish P s'"
    and "\<And>j. j < nthreads P \<Longrightarrow> left (shared s) (point P (locals s) j) \<le> b j"
    and "(\<Sum>j<nthreads P. b j) + nthreads P + length (jorder P) + 2 \<le> B"
  shows "ends_within P B s"
proof -
  have "all_left P left s \<le> (\<Sum>j<nthreads P. b j) + nthreads P + length (jorder P) + 2"
    by (rule all_left_le [OF reach_wf [OF assms(1,2)] assms(4)])
  also have "\<dots> \<le> B" by (rule assms(5))
  finally have "all_left P left s \<le> B" .
  moreover have "ends_within P (all_left P left s) s" by (rule bounded_ends [OF assms(1,2)]) (rule assms(3))
  ultimately show ?thesis by (rule ends_within_mono [rotated])
qed

end

end
