(* ===== verification/Locked_Counter.thy ===== *)
theory Locked_Counter
  imports Bounded_Runs
begin

text \<open>
  A counter that several threads increment under a lock: the worker
  \<open>for (i = 0; i < ITERATIONS; i++) { lock(); counter++; unlock(); }\<close> of exercises 00 and 05,
  written once over the operations of the lock. \<open>counter++\<close> on a plain object is a load and a
  store of its own, as the sources stress.

  The interface \<open>counter_lock\<close> states what a lock promises; every lock of the workshop (mutex, test
  and set, test and test and set with and without pause, backoff, \<open>pthread_spinlock_t\<close>) is an
  interpretation of it. Its lemmas give, for any number of threads and iterations: mutual
  exclusion, no data race, no overflow, and the exact total after the last join.
\<close>

section \<open>The worker\<close>

text \<open>
  Locking may take many steps, in which the lock keeps a local state (a program point, the
  current backoff); one step ends spinning or with the lock acquired. The loop variable is an \<open>int\<close> that
  runs from 0 to \<open>iters\<close>; where \<open>iters\<close> is an \<open>int\<close>, as the constants of the sources are, it does not overflow.
\<close>

datatype 'k lock_result = Spinning 'k | Acquired

record ('k, 'l, 'v) lock_ops =
  lk_init :: 'k
  lk_acquire :: "tid \<Rightarrow> choice \<Rightarrow> 'k \<Rightarrow> ('l, 'v) machine \<Rightarrow> ('k lock_result \<times> ('l, 'v) machine) outcome"
  lk_release :: "tid \<Rightarrow> ('l, 'v) machine \<Rightarrow> ('l, 'v) machine outcome"

datatype 'k counter_pc =
  Loop nat
| Locking nat 'k
| ReadCtr nat
| WriteCtr nat int
| Unlocking nat
| Returned

fun counter_worker :: "nat \<Rightarrow> nat \<Rightarrow> ('k, 'l, int) lock_ops \<Rightarrow> 'l \<Rightarrow> tid \<Rightarrow> choice \<Rightarrow> 'k counter_pc \<Rightarrow>
    ('l, int) machine \<Rightarrow> ('k counter_pc \<times> ('l, int) machine) outcome" where
  "counter_worker w iters ops ctr t c (Loop i) m =
     Ok (if i < iters then Locking i (lk_init ops) else Returned, m)"
| "counter_worker w iters ops ctr t c (Locking i k) m =
     obind (lk_acquire ops t c k m)
       (\<lambda>(r, m'). Ok (case r of Spinning k' \<Rightarrow> Locking i k' | Acquired \<Rightarrow> ReadCtr i, m'))"
| "counter_worker w iters ops ctr t c (ReadCtr i) m =
     obind (na_load t ctr m) (\<lambda>(v, m'). Ok (WriteCtr i v, m'))"
| "counter_worker w iters ops ctr t c (WriteCtr i v) m =
     obind (signed_add w v 1) (\<lambda>v'. obind (na_store t ctr v' m) (\<lambda>m'. Ok (Unlocking i, m')))"
| "counter_worker w iters ops ctr t c (Unlocking i) m =
     obind (lk_release ops t m) (\<lambda>m'. Ok (Loop (Suc i), m'))"
| "counter_worker w iters ops ctr t c Returned m = Blocked"

definition counter_prog :: "nat \<Rightarrow> nat \<Rightarrow> nat \<Rightarrow> ('k, 'l, int) lock_ops \<Rightarrow> 'l \<Rightarrow>
    ('k counter_pc, 'l, int) thread_prog" where
  "counter_prog w n iters ops ctr =
     \<lparr>nthreads = n, jorder = [0..<n], entry = (\<lambda>_. Loop 0),
      tstep = (\<lambda>i. counter_worker w iters ops ctr (Suc i)), halted = (\<lambda>p. p = Returned)\<rparr>"

text \<open>A thread is in its critical section; how many increments it has done.\<close>

fun critical :: "'k counter_pc \<Rightarrow> bool" where
  "critical (ReadCtr i) = True"
| "critical (WriteCtr i v) = True"
| "critical (Unlocking i) = True"
| "critical _ = False"

fun round_of :: "'k counter_pc \<Rightarrow> nat" where
  "round_of (ReadCtr i) = i"
| "round_of (WriteCtr i v) = i"
| "round_of (Unlocking i) = i"
| "round_of _ = 0"

fun increments :: "nat \<Rightarrow> 'k counter_pc option \<Rightarrow> nat" where
  "increments iters None = 0"
| "increments iters (Some (Loop i)) = i"
| "increments iters (Some (Locking i k)) = i"
| "increments iters (Some (ReadCtr i)) = i"
| "increments iters (Some (WriteCtr i v)) = i"
| "increments iters (Some (Unlocking i)) = Suc i"
| "increments iters (Some Returned) = iters"

fun pc_bounded :: "nat \<Rightarrow> 'k counter_pc \<Rightarrow> bool" where
  "pc_bounded iters (Loop i) = (i \<le> iters)"
| "pc_bounded iters (Locking i k) = (i < iters)"
| "pc_bounded iters (ReadCtr i) = (i < iters)"
| "pc_bounded iters (WriteCtr i v) = (i < iters)"
| "pc_bounded iters (Unlocking i) = (i < iters)"
| "pc_bounded iters Returned = True"

fun total_incs :: "nat \<Rightarrow> nat \<Rightarrow> (nat \<Rightarrow> 'k counter_pc option) \<Rightarrow> nat" where
  "total_incs n iters L = (\<Sum>i<n. increments iters (L i))"

lemma total_upd:
  "i < n \<Longrightarrow> total_incs n iters (L(i := p)) + increments iters (L i) = total_incs n iters L + increments iters p"
  using sum_upd_in [of i n "\<lambda>j. increments iters (L j)" "increments iters p"]
  by (simp add: fun_upd_def if_distrib cong: if_cong)

lemma increments_le: "pc_bounded iters p \<Longrightarrow> increments iters (Some p) \<le> iters"
  by (cases p) auto

declare total_incs.simps [simp del]

section \<open>The invariant\<close>

text \<open>
  The counter is the number of increments done; a thread in its critical section holds the lock,
  alone, and has seen every access to the counter; while the lock is free, whoever takes it next
  will have.
\<close>

definition locked_inv :: "nat \<Rightarrow> nat \<Rightarrow> 'l \<Rightarrow> (('l, int) machine \<Rightarrow> bool) \<Rightarrow>
    (tid \<Rightarrow> ('l, int) machine \<Rightarrow> bool) \<Rightarrow> (('l, int) machine \<Rightarrow> 'l view) \<Rightarrow>
    ('l, int) machine \<Rightarrow> (nat \<Rightarrow> 'k counter_pc option) \<Rightarrow> bool" where
  "locked_inv n iters ctr free held relview m L \<longleftrightarrow>
     (\<forall>i p. L i = Some p \<longrightarrow> pc_bounded iters p) \<and>
     value_of m ctr = int (total_incs n iters L) \<and>
     (\<forall>i p. L i = Some p \<longrightarrow> critical p \<longrightarrow> held (Suc i) m \<and> knows (cur m (Suc i)) ctr m) \<and>
     (\<forall>i j p q. L i = Some p \<longrightarrow> L j = Some q \<longrightarrow> critical p \<longrightarrow> critical q \<longrightarrow> i = j) \<and>
     (free m \<longrightarrow> (\<forall>u. u = 0 \<or> (\<exists>i. u = Suc i \<and> L i \<noteq> None) \<longrightarrow>
                   knows (sup (cur m u) (relview m)) ctr m)) \<and>
     (\<forall>i k v. L i = Some (WriteCtr k v) \<longrightarrow> v = value_of m ctr) \<and>
     (free m \<or> (\<exists>i p. L i = Some p \<and> critical p))"

lemma locked_invI:
  assumes "\<And>i p. L i = Some p \<Longrightarrow> pc_bounded iters p"
    and "value_of m ctr = int (total_incs n iters L)"
    and "\<And>i p. L i = Some p \<Longrightarrow> critical p \<Longrightarrow> held (Suc i) m"
    and "\<And>i p. L i = Some p \<Longrightarrow> critical p \<Longrightarrow> knows (cur m (Suc i)) ctr m"
    and "\<And>i j p q. L i = Some p \<Longrightarrow> L j = Some q \<Longrightarrow> critical p \<Longrightarrow> critical q \<Longrightarrow> i = j"
    and "\<And>u. free m \<Longrightarrow> u = 0 \<or> (\<exists>i. u = Suc i \<and> L i \<noteq> None) \<Longrightarrow> knows (sup (cur m u) (relview m)) ctr m"
    and "\<And>i k v. L i = Some (WriteCtr k v) \<Longrightarrow> v = value_of m ctr"
    and "free m \<or> (\<exists>i p. L i = Some p \<and> critical p)"
  shows "locked_inv n iters ctr free held relview m L"
  using assms unfolding locked_inv_def by blast

lemma locked_invD:
  assumes "locked_inv n iters ctr free held relview m L"
  shows "L i = Some p \<Longrightarrow> pc_bounded iters p"
    and "value_of m ctr = int (total_incs n iters L)"
    and "L i = Some p \<Longrightarrow> critical p \<Longrightarrow> held (Suc i) m"
    and "L i = Some p \<Longrightarrow> critical p \<Longrightarrow> knows (cur m (Suc i)) ctr m"
    and "L i = Some p \<Longrightarrow> L j = Some q \<Longrightarrow> critical p \<Longrightarrow> critical q \<Longrightarrow> i = j"
    and "free m \<Longrightarrow> u = 0 \<or> (\<exists>i. u = Suc i \<and> L i \<noteq> None) \<Longrightarrow> knows (sup (cur m u) (relview m)) ctr m"
    and "L i = Some (WriteCtr k v) \<Longrightarrow> v = value_of m ctr"
    and "free m \<or> (\<exists>i p. L i = Some p \<and> critical p)"
proof -
  note * = assms [unfolded locked_inv_def]
  show "L i = Some p \<Longrightarrow> pc_bounded iters p"
    using conjunct1 [OF *] by blast
  show "value_of m ctr = int (total_incs n iters L)"
    using * by simp
  show "L i = Some p \<Longrightarrow> critical p \<Longrightarrow> held (Suc i) m"
    and "L i = Some p \<Longrightarrow> critical p \<Longrightarrow> knows (cur m (Suc i)) ctr m"
    using * by simp_all
  show "L i = Some p \<Longrightarrow> L j = Some q \<Longrightarrow> critical p \<Longrightarrow> critical q \<Longrightarrow> i = j"
    using * by metis
  show "free m \<Longrightarrow> u = 0 \<or> (\<exists>i. u = Suc i \<and> L i \<noteq> None) \<Longrightarrow> knows (sup (cur m u) (relview m)) ctr m"
    using * by metis
  show "L i = Some (WriteCtr k v) \<Longrightarrow> v = value_of m ctr"
    using * by metis
  show "free m \<or> (\<exists>i p. L i = Some p \<and> critical p)"
    using * by (elim conjE) assumption
qed

section \<open>What a lock promises\<close>

text \<open>
  \<open>free m\<close>: no thread holds the lock; \<open>held t m\<close>: thread \<open>t\<close> may release it; \<open>relview m\<close>:
  the view the next acquisition obtains, published by the last release.
\<close>

text \<open>A thread that acquires the lock while no other thread moves, without spurious failures.\<close>

inductive lock_solo :: "('k, 'l, 'v) lock_ops \<Rightarrow> tid \<Rightarrow> 'k \<Rightarrow> ('l, 'v) machine \<Rightarrow> ('l, 'v) machine \<Rightarrow> bool"
  for ops t where
  lock_now: "lk_acquire ops t c k m = Ok (Acquired, m') \<Longrightarrow> \<not> spurious c \<Longrightarrow> lock_solo ops t k m m'"
| lock_spin: "lk_acquire ops t c k m = Ok (Spinning k1, m1) \<Longrightarrow> \<not> spurious c \<Longrightarrow> lock_solo ops t k1 m1 m' \<Longrightarrow>
    lock_solo ops t k m m'"

locale counter_lock =
  fixes ops :: "('k, 'l, int) lock_ops"
    and ctr :: 'l
    and free :: "('l, int) machine \<Rightarrow> bool"
    and held :: "tid \<Rightarrow> ('l, int) machine \<Rightarrow> bool"
    and relview :: "('l, int) machine \<Rightarrow> 'l view"
  assumes spin: "lk_acquire ops t c k m = Ok (Spinning k', m') \<Longrightarrow>
        grows t m m' \<and> untouched ctr m m' \<and> free m' = free m \<and>
        (free m \<longrightarrow> relview m \<le> relview m') \<and> (\<forall>u. held u m \<longrightarrow> held u m')"
    and acquired: "lk_acquire ops t c k m = Ok (Acquired, m') \<Longrightarrow>
        grows t m m' \<and> untouched ctr m m' \<and> free m \<and> held t m' \<and> relview m \<le> cur m' t"
    and acquire_no_ub: "lk_acquire ops t c k m \<noteq> UB e"
    and release_enabled: "held t m \<Longrightarrow> \<exists>m'. lk_release ops t m = Ok m'"
    and released: "lk_release ops t m = Ok m' \<Longrightarrow> held t m \<Longrightarrow>
        grows t m m' \<and> untouched ctr m m' \<and> free m' \<and> cur m t \<le> relview m'"
    and frame: "(\<And>y. y \<noteq> ctr \<Longrightarrow> hist m' y = hist m y) \<Longrightarrow> mtx m' = mtx m \<Longrightarrow>
        free m' = free m \<and> held t m' = held t m \<and> relview m' = relview m"
    and held_not_free: "held t m \<Longrightarrow> \<not> free m"
    and acquire_mwf: "mwf m \<Longrightarrow> lk_acquire ops t c k m = Ok (r, m') \<Longrightarrow> mwf m'"
    and release_mwf: "mwf m \<Longrightarrow> lk_release ops t m = Ok m' \<Longrightarrow> mwf m'"
    and progress: "mwf m \<Longrightarrow> free m \<Longrightarrow> \<exists>m'. lock_solo ops t k m m'"


context counter_lock
begin

lemma frame_unfold:
  assumes "hist m' = hist m" and "mtx m' = mtx m"
  shows "free m' = free m" and "held t m' = held t m" and "relview m' = relview m"
  using frame [of m' m t] assms by auto

lemma fork_step:
  assumes inv: "locked_inv n iters ctr free held relview m L" and fresh: "L i = None"
    and lt: "i < n"
  shows "locked_inv n iters ctr free held relview (pthread_create 0 (Suc i) m) (L(i \<mapsto> Loop 0))"
proof -
  let ?m = "pthread_create 0 (Suc i) m" and ?L = "L(i \<mapsto> Loop 0)"
  note D = locked_invD [OF inv]
  have same: "free ?m = free m" "held t ?m = held t m" "relview ?m = relview m" for t
    by (rule frame_unfold; simp add: frame_simps)+
  have val: "value_of ?m ctr = value_of m ctr" by (rule untouched_value) simp
  have keep: "knows v ctr ?m" if "knows v ctr m" for v
    using that by (rule knows_mono) simp_all
  have cur: "cur ?m u = cur m (if u = Suc i then 0 else u)" for u
    by (simp add: frame_simps)
  show ?thesis
  proof (rule locked_invI)
    show "value_of ?m ctr = int (total_incs n iters ?L)"
      using D(2) total_upd [OF lt, of iters L "Some (Loop 0)"] fresh
      by (simp add: val)
    show "knows (sup (cur ?m u) (relview ?m)) ctr ?m"
      if "free ?m" "u = 0 \<or> (\<exists>j. u = Suc j \<and> ?L j \<noteq> None)" for u
      unfolding same cur using that same D(6) [of 0] D(6) [of u]
      by (intro keep) (auto split: if_splits)
    show "free ?m \<or> (\<exists>j p. ?L j = Some p \<and> critical p)"
      using D(8) fresh unfolding same by (metis fun_upd_apply option.distinct(1))
  qed (use D(1,3,4,5,7) fresh in \<open>auto simp: same cur keep val split: if_splits\<close>)
qed

lemma join_step:
  assumes inv: "locked_inv n iters ctr free held relview m L"
  shows "locked_inv n iters ctr free held relview (pthread_join 0 (Suc i) m) L"
proof -
  let ?m = "pthread_join 0 (Suc i) m"
  note D = locked_invD [OF inv]
  have same: "free ?m = free m" "held t ?m = held t m" "relview ?m = relview m" for t
    by (rule frame_unfold; simp add: frame_simps)+
  have val: "value_of ?m ctr = value_of m ctr" by (rule untouched_value) simp
  have grow: "cur m u \<le> cur ?m u" for u
    by (rule grows_le [OF pthread_join_grows])
  show ?thesis
  proof (rule locked_invI)
    show "knows (cur ?m (Suc j)) ctr ?m" if "L j = Some p" "critical p" for j p
      using D(4) [OF that] by (rule knows_mono [OF _ grow]) simp
    show "knows (sup (cur ?m u) (relview ?m)) ctr ?m"
      if "free ?m" "u = 0 \<or> (\<exists>j. u = Suc j \<and> L j \<noteq> None)" for u
    proof (rule knows_mono)
      show "knows (sup (cur m u) (relview m)) ctr m"
        using that by (intro D(6)) (simp_all add: same)
      show "sup (cur m u) (relview m) \<le> sup (cur ?m u) (relview ?m)"
        unfolding same by (rule sup_mono [OF grow order.refl])
    qed simp
  qed (use D(1,2,3,5,7,8) in \<open>auto simp: same val\<close>)
qed

text \<open>
  A step that leaves the counter alone and ends outside the critical section: the loop test, a
  spin, a release.
\<close>

lemma quiet_step:
  assumes inv: "locked_inv n iters ctr free held relview m L" and i: "L i = Some p" "i < n"
    and p': "pc_bounded iters p'" "\<not> critical p'" "increments iters (Some p') = increments iters (Some p)"
    and m': "grows (Suc i) m m'" "untouched ctr m m'"
    and held: "\<And>j q. L j = Some q \<Longrightarrow> critical q \<Longrightarrow> j \<noteq> i \<Longrightarrow> held (Suc j) m'"
    and busy: "free m' \<or> (\<exists>j q. j \<noteq> i \<and> L j = Some q \<and> critical q)"
    and free: "\<And>u. free m' \<Longrightarrow> u = 0 \<or> (\<exists>i. u = Suc i \<and> L i \<noteq> None) \<Longrightarrow> knows (sup (cur m' u) (relview m')) ctr m'"
  shows "locked_inv n iters ctr free held relview m' (L(i \<mapsto> p'))"
proof -
  note D = locked_invD [OF inv]
  have val: "value_of m' ctr = value_of m ctr" by (rule untouched_value [OF m'(2)])
  show ?thesis
  proof (rule locked_invI)
    show "value_of m' ctr = int (total_incs n iters (L(i \<mapsto> p')))"
      using D(2) total_upd [OF i(2), of iters L "Some p'"] i(1) p'(3) by (simp add: val)
    show "knows (cur m' (Suc j)) ctr m'" if "(L(i \<mapsto> p')) j = Some q" "critical q" for j q
    proof -
      have "L j = Some q" using that p'(2) by (auto split: if_splits)
      from D(4) [OF this that(2)] show ?thesis by (rule knows_grows [OF _ m'])
    qed
    show "knows (sup (cur m' u) (relview m')) ctr m'"
      if "free m'" "u = 0 \<or> (\<exists>j. u = Suc j \<and> (L(i \<mapsto> p')) j \<noteq> None)" for u
      using that free i(1) by (auto split: if_splits)
    show "j = k" if "(L(i \<mapsto> p')) j = Some q" "(L(i \<mapsto> p')) k = Some r" "critical q" "critical r" for j k q r
      using that p'(2) D(5) by (auto split: if_splits)
    show "free m' \<or> (\<exists>j q. (L(i \<mapsto> p')) j = Some q \<and> critical q)"
      using busy by (metis fun_upd_apply)
  qed (use D(1,3,7) p' held val in \<open>auto split: if_splits\<close>)
qed

lemma spin_step:
  assumes inv: "locked_inv n iters ctr free held relview m L" and i: "L i = Some (Locking k a)" "i < n"
    and step: "lk_acquire ops (Suc i) c a m = Ok (Spinning b, m')"
  shows "locked_inv n iters ctr free held relview m' (L(i \<mapsto> Locking k b))"
proof (rule quiet_step [OF inv i])
  note D = locked_invD [OF inv] and S = spin [OF step]
  show "grows (Suc i) m m'" and "untouched ctr m m'" using S by simp_all
  show "held (Suc j) m'" if "L j = Some q" "critical q" for j q
    using that D(3) S by simp
  show "free m' \<or> (\<exists>j q. j \<noteq> i \<and> L j = Some q \<and> critical q)"
    using D(8) S i(1) by (metis critical.simps(5) option.inject)
  show "knows (sup (cur m' u) (relview m')) ctr m'"
    if "free m'" "u = 0 \<or> (\<exists>i. u = Suc i \<and> L i \<noteq> None)" for u
  proof (rule knows_mono)
    show "knows (sup (cur m u) (relview m)) ctr m"
      using that S by (intro D(6)) simp_all
    show "sup (cur m u) (relview m) \<le> sup (cur m' u) (relview m')"
      using S that(1) by (intro sup_mono grows_le) auto
    show "untouched ctr m m'" using S by simp
  qed
qed (use locked_invD(1) [OF inv i(1)] in auto)

lemma acquire_step:
  assumes inv: "locked_inv n iters ctr free held relview m L" and i: "L i = Some (Locking k a)" "i < n"
    and step: "lk_acquire ops (Suc i) c a m = Ok (Acquired, m')"
  shows "locked_inv n iters ctr free held relview m' (L(i \<mapsto> ReadCtr k))"
proof -
  note D = locked_invD [OF inv] and S = acquired [OF step]
  have val: "value_of m' ctr = value_of m ctr" using S by (simp add: untouched_value)
  have none: "\<not> critical q" if "L j = Some q" for j q
    using that D(3) S held_not_free by blast
  have "knows (sup (cur m (Suc i)) (relview m)) ctr m"
    using i(1) S by (intro D(6)) auto
  then have know: "knows (cur m' (Suc i)) ctr m'"
    by (rule knows_mono) (use S in \<open>auto simp: grows_def\<close>)
  show ?thesis
  proof (rule locked_invI)
    show "value_of m' ctr = int (total_incs n iters (L(i \<mapsto> ReadCtr k)))"
      using D(2) total_upd [OF i(2), of iters L "Some (ReadCtr k)"] i(1) by (simp add: val)
    show "knows (sup (cur m' u) (relview m')) ctr m'" if "free m'" for u
      using that S held_not_free by blast
    show "free m' \<or> (\<exists>j q. (L(i \<mapsto> ReadCtr k)) j = Some q \<and> critical q)"
      by (metis critical.simps(1) fun_upd_same)
  qed (use D(1,7) D(1) [OF i(1)] S i none know val in \<open>auto split: if_splits\<close>)
qed

lemma read_step:
  assumes inv: "locked_inv n iters ctr free held relview m L" and i: "L i = Some (ReadCtr k)" "i < n"
    and step: "na_load (Suc i) ctr m = Ok (v, m')"
  shows "locked_inv n iters ctr free held relview m' (L(i \<mapsto> WriteCtr k v))"
    and "knows (cur m' (Suc i)) ctr m'" and "grows (Suc i) m m'"
proof -
  note D = locked_invD [OF inv] and S = na_load_D [OF step]
  have same: "free m' = free m" "held t m' = held t m" "relview m' = relview m" for t
    by (rule frame_unfold; simp add: S)+
  have val: "value_of m' ctr = value_of m ctr" by (simp add: value_of_def S(3))
  have only: "j = i" if "(L(i \<mapsto> p')) j = Some q" "critical q" for j q p'
    using D(5) [OF _ i(1) that(2), of j] that(1) by (cases "j = i") auto
  have held: "held (Suc i) m" using D(3) [OF i(1)] by simp
  show know: "knows (cur m' (Suc i)) ctr m'" using S(9) D(4) [OF i(1)] by simp
  show "grows (Suc i) m m'" by (fact S)
  show "locked_inv n iters ctr free held relview m' (L(i \<mapsto> WriteCtr k v))"
  proof (rule locked_invI)
    show "value_of m' ctr = int (total_incs n iters (L(i \<mapsto> WriteCtr k v)))"
      using D(2) total_upd [OF i(2), of iters L "Some (WriteCtr k v)"] i(1) by (simp add: val)
    show "knows (sup (cur m' u) (relview m')) ctr m'" if "free m'" for u
      using that held held_not_free same by blast
    show "j = l" if "(L(i \<mapsto> WriteCtr k v)) j = Some q" "(L(i \<mapsto> WriteCtr k v)) l = Some r"
      "critical q" "critical r" for j l q r
      using only [OF that(1,3)] only [OF that(2,4)] by simp
    show "held (Suc j) m'" and "knows (cur m' (Suc j)) ctr m'"
      if "(L(i \<mapsto> WriteCtr k v)) j = Some q" "critical q" for j q
      using only [OF that] held know by (simp_all add: same)
    show "free m' \<or> (\<exists>j q. (L(i \<mapsto> WriteCtr k v)) j = Some q \<and> critical q)"
      by (metis critical.simps(2) fun_upd_same)
  qed (use D(1,7) D(1) [OF i(1)] S(1) in \<open>auto simp: val split: if_splits\<close>)
qed

lemma write_step:
  assumes inv: "locked_inv n iters ctr free held relview m L" and i: "L i = Some (WriteCtr k v)" "i < n"
    and step: "na_store (Suc i) ctr (v + 1) m = Ok m'"
  shows "locked_inv n iters ctr free held relview m' (L(i \<mapsto> Unlocking k))"
    and "knows (cur m' (Suc i)) ctr m'" and "grows (Suc i) m m'"
proof -
  note D = locked_invD [OF inv] and S = na_store_D [OF step]
  have same: "free m' = free m" "held t m' = held t m" "relview m' = relview m" for t
    using frame [of m' m] S by auto
  have val: "value_of m' ctr = v + 1" by (fact S)
  have only: "j = i" if "(L(i \<mapsto> p')) j = Some q" "critical q" for j q p'
    using D(5) [OF _ i(1) that(2), of j] that(1) by (cases "j = i") auto
  have held: "held (Suc i) m" using D(3) [OF i(1)] by simp
  show know: "knows (cur m' (Suc i)) ctr m'" by (fact S)
  show "grows (Suc i) m m'" by (fact S)
  show "locked_inv n iters ctr free held relview m' (L(i \<mapsto> Unlocking k))"
  proof (rule locked_invI)
    show "value_of m' ctr = int (total_incs n iters (L(i \<mapsto> Unlocking k)))"
      using D(2) D(7) [OF i(1)] total_upd [OF i(2), of iters L "Some (Unlocking k)"] i(1)
      by (simp add: val)
    show "knows (sup (cur m' u) (relview m')) ctr m'" if "free m'" for u
      using that held held_not_free same by blast
    show "j = l" if "(L(i \<mapsto> Unlocking k)) j = Some q" "(L(i \<mapsto> Unlocking k)) l = Some r"
      "critical q" "critical r" for j l q r
      using only [OF that(1,3)] only [OF that(2,4)] by simp
    show "held (Suc j) m'" and "knows (cur m' (Suc j)) ctr m'"
      if "(L(i \<mapsto> Unlocking k)) j = Some q" "critical q" for j q
      using only [OF that] held know by (simp_all add: same)
    show "a = value_of m' ctr" if "(L(i \<mapsto> Unlocking k)) j = Some (WriteCtr l a)" for j l a
      using only [OF that] that by simp
    show "free m' \<or> (\<exists>j q. (L(i \<mapsto> Unlocking k)) j = Some q \<and> critical q)"
      by (metis critical.simps(3) fun_upd_same)
  qed (use D(1) D(1) [OF i(1)] in \<open>auto split: if_splits\<close>)
qed

lemma release_step:
  assumes inv: "locked_inv n iters ctr free held relview m L" and i: "L i = Some (Unlocking k)" "i < n"
    and step: "lk_release ops (Suc i) m = Ok m'"
  shows "locked_inv n iters ctr free held relview m' (L(i \<mapsto> Loop (Suc k)))"
proof (rule quiet_step [OF inv i])
  note D = locked_invD [OF inv]
  have S: "grows (Suc i) m m'" "untouched ctr m m'" "free m'" "cur m (Suc i) \<le> relview m'"
    using released [OF step] D(3) [OF i(1)] by simp_all
  show "grows (Suc i) m m'" and "untouched ctr m m'" by (fact S)+
  show "held (Suc j) m'" if "L j = Some q" "critical q" "j \<noteq> i" for j q
    using D(5) [OF that(1) i(1) that(2)] that(3) by simp
  show "free m' \<or> (\<exists>j q. j \<noteq> i \<and> L j = Some q \<and> critical q)" using S(3) by simp
  show "knows (sup (cur m' u) (relview m')) ctr m'" for u
  proof (rule knows_mono)
    show "knows (cur m (Suc i)) ctr m" using D(4) [OF i(1)] by simp
    show "cur m (Suc i) \<le> sup (cur m' u) (relview m')" using S(4) by (rule le_supI2)
  qed (fact S)
qed (use locked_invD(1) [OF inv i(1)] in auto)

end

section \<open>Any number of threads and iterations\<close>

text \<open>
  The state in which main starts the threads: the counter is reset by main, the lock is free.
\<close>

definition counter_ready :: "'l \<Rightarrow> (('l, int) machine \<Rightarrow> bool) \<Rightarrow> ('l, int) machine \<Rightarrow> bool" where
  "counter_ready ctr free m \<longleftrightarrow> mwf m \<and> value_of m ctr = 0 \<and> free m \<and> knows (cur m 0) ctr m"

locale counter_threads = counter_lock +
  fixes w n iters :: nat
  assumes fits: "int (n * iters) < 2 ^ (w - 1)"
begin

lemma worker_cases:
  assumes "counter_worker w iters ops ctr t c p m = Ok (p', m')"
  obtains (loop) i where "p = Loop i" "m' = m"
      "p' = (if i < iters then Locking i (lk_init ops) else Returned)"
  | (spin) i a b where "p = Locking i a" "lk_acquire ops t c a m = Ok (Spinning b, m')" "p' = Locking i b"
  | (acquire) i a where "p = Locking i a" "lk_acquire ops t c a m = Ok (Acquired, m')" "p' = ReadCtr i"
  | (load) i v where "p = ReadCtr i" "na_load t ctr m = Ok (v, m')" "p' = WriteCtr i v"
  | (store) i v where "p = WriteCtr i v" "na_store t ctr (v + 1) m = Ok m'" "p' = Unlocking i"
  | (release) i where "p = Unlocking i" "lk_release ops t m = Ok m'" "p' = Loop (Suc i)"
proof (cases p)
  case (Locking i a)
  with assms obtain r where r: "lk_acquire ops t c a m = Ok (r, m')"
      "p' = (case r of Spinning b \<Rightarrow> Locking i b | Acquired \<Rightarrow> ReadCtr i)"
    by (auto simp: outcome_simps)
  show ?thesis
    using Locking r spin acquire by (cases r) auto
qed (use assms that in \<open>auto simp: outcome_simps signed_add_def split: if_splits\<close>)

lemma no_overflow:
  assumes "locked_inv n iters ctr free held relview m L" and "L i = Some (WriteCtr k v)" and "i < n"
  shows "signed_add w v 1 = Ok (v + 1)"
proof -
  note D = locked_invD [OF assms(1)]
  have "total_incs n iters (L(i \<mapsto> Unlocking k)) \<le> n * iters"
    unfolding total_incs.simps
  proof (rule sum_le_const)
    fix j
    show "increments iters ((L(i \<mapsto> Unlocking k)) j) \<le> iters"
      using D(1) [of j] D(1) [OF assms(2)] increments_le by (cases "L j") auto
  qed
  then have "Suc (total_incs n iters L) \<le> n * iters"
    using total_upd [OF assms(3), of iters L "Some (Unlocking k)"] assms(2) by simp
  then have "v + 1 \<le> int (n * iters)" and "0 \<le> v"
    using D(2) D(7) [OF assms(2)] by linarith+
  then show ?thesis using fits by (simp add: signed_add_def signed_range_def)
qed

end

sublocale counter_threads \<subseteq> fork_join "counter_prog w n iters ops ctr" "{ctr}" "counter_ready ctr free"
  "locked_inv n iters ctr free held relview"
proof (unfold_locales, goal_cases)
  case 1
  then show ?case by (auto simp: counter_prog_def)
next
  case (2 m)
  then have k: "knows (cur m 0) ctr m" by (simp add: counter_ready_def)
  have "knows (sup (cur m 0) (relview m)) ctr m"
    by (rule knows_mono [OF k]) simp_all
  then show ?case using 2
    by (auto simp: counter_ready_def locked_inv_def total_incs.simps)
next
  case (3 m)
  then show ?case by (simp add: counter_ready_def)
next
  case (4 m x)
  then show ?case by (simp add: counter_ready_def)
next
  case (5 m L i)
  then show ?case using fork_step by (simp add: counter_prog_def)
next
  case (6 m L i p)
  then show ?case using join_step by blast
next
  case (7 m L i p c p' m')
  then have i: "L i = Some p" "i < n" and step: "counter_worker w iters ops ctr (Suc i) c p m = Ok (p', m')"
    by (simp_all add: counter_prog_def)
  note inv = 7(1) and B = locked_invD(1) [OF 7(1) i(1)]
  from step show ?case
  proof (cases rule: worker_cases)
    case (loop k)
    have "free m \<or> (\<exists>j q. j \<noteq> i \<and> L j = Some q \<and> critical q)"
      using locked_invD(8) [OF inv] i(1) loop(1) by (metis critical.simps(4) option.inject)
    then show ?thesis using B locked_invD(3,6) [OF inv] loop
      by (intro quiet_step [OF inv i]) auto
  next
    case (spin k a b)
    then show ?thesis using spin_step [OF inv] i by simp
  next
    case (acquire k a)
    then show ?thesis using acquire_step [OF inv] i by simp
  next
    case (load k v)
    then show ?thesis using read_step(1) [OF inv] i by simp
  next
    case (store k v)
    then show ?thesis using write_step(1) [OF inv] i by simp
  next
    case (release k)
    then show ?thesis using release_step [OF inv] i by simp
  qed
next
  case (8 m L i p c p' m')
  then have i: "L i = Some p" "i < n" and step: "counter_worker w iters ops ctr (Suc i) c p m = Ok (p', m')"
    by (simp_all add: counter_prog_def)
  from step show ?case
  proof (cases rule: worker_cases)
    case (release k)
    then show ?thesis using released locked_invD(3) [OF 8(1) i(1)] by simp
  qed (use spin acquired na_load_D(8) na_store_D(8) in auto)
next
  case (9 m L i p c p' m' key)
  then have i: "L i = Some p" "i < n" and key: "key_of key = ctr"
    and step: "counter_worker w iters ops ctr (Suc i) c p m = Ok (p', m')"
    by (simp_all add: counter_prog_def)
  from step have "untouched ctr m m' \<or> knows (cur m' (Suc i)) ctr m'"
  proof (cases rule: worker_cases)
    case (release k)
    then show ?thesis using released locked_invD(3) [OF 9(1) i(1)] by simp
  next
    case (load k v)
    then show ?thesis using read_step(2) [OF 9(1)] i by simp
  next
    case (store k v)
    then show ?thesis using write_step(2) [OF 9(1)] i by simp
  qed (use spin acquired in auto)
  then show ?case using key by (rule tracked_keyI)
next
  case (10 m L i p c u)
  then have i: "L i = Some p" "i < n" by (simp_all add: counter_prog_def)
  note D = locked_invD [OF 10(1)]
  have "counter_worker w iters ops ctr (Suc i) c p m \<noteq> UB u"
  proof (cases p)
    case (ReadCtr k)
    then show ?thesis using D(4) [OF i(1)] by (simp add: obind_UB_iff na_load_UB_iff knows_imp_writes)
  next
    case (WriteCtr k v)
    then show ?thesis using D(4) [OF i(1)] no_overflow [OF 10(1)] i
      by (simp add: obind_UB_iff na_store_UB_iff)
  next
    case (Unlocking k)
    then show ?thesis using D(3) [OF i(1)] release_enabled by (fastforce simp: obind_UB_iff)
  qed (auto simp: obind_UB_iff acquire_no_ub)
  then show ?case by (simp add: counter_prog_def)
next
  case (11 m i c p p' m')
  then have "counter_worker w iters ops ctr (Suc i) c p m = Ok (p', m')" by (simp add: counter_prog_def)
  then show ?case
    by (cases rule: worker_cases) (use 11(1) in \<open>auto intro: mwf_intros acquire_mwf release_mwf\<close>)
qed

context counter_threads
begin

lemma mutual_exclusion:
  assumes "reach (fj_step (counter_prog w n iters ops ctr)) (fj_init m) s" and "counter_ready ctr free m"
    and "locals s i = Some p" and "locals s j = Some q" and "critical p" and "critical q"
  shows "i = j"
  using locked_invD(5) [OF reach_linv [OF assms(1,2)] assms(3,4,5,6)] .

lemma final_count:
  assumes "reach (fj_step (counter_prog w n iters ops ctr)) (fj_init m) s" and "counter_ready ctr free m"
    and "mainpc s = Joined"
  shows "\<exists>m'. na_load 0 ctr (shared s) = Ok (int (n * iters), m')"
proof -
  note F = finished [OF assms]
  have "increments iters (locals s i) = iters" if "i < n" for i
    using F(3) [of i] that by (auto simp: counter_prog_def)
  then have "total_incs n iters (locals s) = n * iters"
    unfolding total_incs.simps by (rule sum_const_eq)
  then have "value_of (shared s) ctr = int (n * iters)"
    using locked_invD(2) [OF F(1)] by simp
  moreover have "knows_writes (cur (shared s) 0) ctr (shared s)"
    using F(2) [of ctr] by (simp add: knows_imp_writes)
  ultimately show ?thesis by (metis na_load_ok)
qed

lemma worker_solo:
  assumes "p \<noteq> Returned" and "counter_worker w iters ops ctr (Suc i) c p m = Ok (p', m')"
    and "\<not> spurious c"
  shows "solo (counter_prog w n iters ops ctr) i p m p' m'"
  by (rule solo_one [where c = c]) (use assms in \<open>simp_all add: counter_prog_def\<close>)

lemma solo_keeps_inv:
  assumes "solo (counter_prog w n iters ops ctr) i p m p' m'" and "mwf m"
    and "locked_inv n iters ctr free held relview m L" and "L i = Some p" and "i < n"
  shows "mwf m' \<and> locked_inv n iters ctr free held relview m' (L(i \<mapsto> p'))"
  using solo_keeps [OF assms(1-4)] assms(5) by (simp add: counter_prog_def)

lemma solo_acquires:
  "lock_solo ops (Suc i) a m m' \<Longrightarrow> solo (counter_prog w n iters ops ctr) i (Locking k a) m (ReadCtr k) m'"
proof (induction rule: lock_solo.induct)
  case (lock_now c a m m')
  then show ?case by (intro worker_solo [where c = c]) simp_all
next
  case (lock_spin c a m b m1 m')
  then have "solo (counter_prog w n iters ops ctr) i (Locking k a) m (Locking k b) m1"
    by (intro worker_solo [where c = c]) simp_all
  then show ?case using lock_spin.IH by (rule solo_trans)
qed

text \<open>A thread in its critical section can leave it; the lock is free then.\<close>

lemma solo_unlocks:
  assumes "locked_inv n iters ctr free held relview m L" and "L i = Some (Unlocking k)" and "i < n"
  shows "\<exists>m'. solo (counter_prog w n iters ops ctr) i (Unlocking k) m (Loop (Suc k)) m' \<and> free m'"
proof -
  have h: "held (Suc i) m" using locked_invD(3) [OF assms(1,2)] by simp
  then obtain m' where m': "lk_release ops (Suc i) m = Ok m'" using release_enabled by blast
  then have "free m'" using released h by blast
  moreover have "solo (counter_prog w n iters ops ctr) i (Unlocking k) m (Loop (Suc k)) m'"
    by (rule worker_solo [where c = Tau]) (simp_all add: m')
  ultimately show ?thesis by blast
qed

lemma solo_stores:
  assumes "locked_inv n iters ctr free held relview m L" and "L i = Some (WriteCtr k v)" and "i < n"
  shows "\<exists>m'. solo (counter_prog w n iters ops ctr) i (WriteCtr k v) m (Unlocking k) m'"
proof -
  have "knows (cur m (Suc i)) ctr m" using locked_invD(4) [OF assms(1,2)] by simp
  then obtain m' where "na_store (Suc i) ctr (v + 1) m = Ok m'" by (rule na_store_ok)
  then have "solo (counter_prog w n iters ops ctr) i (WriteCtr k v) m (Unlocking k) m'"
    using no_overflow [OF assms] by (intro worker_solo [where c = Tau]) simp_all
  then show ?thesis by blast
qed

lemma solo_loads:
  assumes "locked_inv n iters ctr free held relview m L" and "L i = Some (ReadCtr k)"
  shows "\<exists>m' v. solo (counter_prog w n iters ops ctr) i (ReadCtr k) m (WriteCtr k v) m'"
proof -
  have "knows_writes (cur m (Suc i)) ctr m"
    using locked_invD(4) [OF assms] by (simp add: knows_imp_writes)
  then obtain m' where "na_load (Suc i) ctr m = Ok (value_of m ctr, m')" by (rule na_load_ok)
  then have "solo (counter_prog w n iters ops ctr) i (ReadCtr k) m (WriteCtr k (value_of m ctr)) m'"
    by (intro worker_solo [where c = Tau]) simp_all
  then show ?thesis by blast
qed

lemma solo_leaves:
  assumes "mwf m" and "locked_inv n iters ctr free held relview m L" and "L i = Some p" and "i < n"
    and "critical p"
  shows "\<exists>m' k. solo (counter_prog w n iters ops ctr) i p m (Loop k) m' \<and> free m' \<and> round_of p < k"
  using assms
proof (induction "if \<exists>k. p = ReadCtr k then 2 else if \<exists>k v. p = WriteCtr k v then Suc 0 else 0" arbitrary: p m L)
  case 0
  then obtain k where "p = Unlocking k" by (cases p) (auto split: if_splits)
  then show ?case using solo_unlocks [OF 0(3)] 0(4,5) by force
next
  case (Suc d)
  have "\<exists>p1 m1. solo (counter_prog w n iters ops ctr) i p m p1 m1 \<and> critical p1 \<and>
      round_of p1 = round_of p \<and>
      d = (if \<exists>k. p1 = ReadCtr k then 2 else if \<exists>k v. p1 = WriteCtr k v then Suc 0 else 0)"
  proof (cases p)
    case (ReadCtr k)
    then show ?thesis using solo_loads [OF Suc.prems(2)] Suc.prems(3) Suc.hyps(2) by fastforce
  next
    case (WriteCtr k v)
    then show ?thesis using solo_stores [OF Suc.prems(2)] Suc.prems(3,4) Suc.hyps(2) by fastforce
  qed (use Suc in auto)
  then obtain p1 m1 where 1: "solo (counter_prog w n iters ops ctr) i p m p1 m1" "critical p1"
      "round_of p1 = round_of p"
      "d = (if \<exists>k. p1 = ReadCtr k then 2 else if \<exists>k v. p1 = WriteCtr k v then Suc 0 else 0)"
    by blast
  have "mwf m1 \<and> locked_inv n iters ctr free held relview m1 (L(i \<mapsto> p1))"
    by (rule solo_keeps_inv [OF 1(1) Suc.prems(1,2,3,4)])
  then obtain m' k where "solo (counter_prog w n iters ops ctr) i p1 m1 (Loop k) m'" "free m'"
      "round_of p1 < k"
    using Suc.hyps(1) [OF 1(4), of m1 "L(i \<mapsto> p1)"] 1(2) Suc.prems(4) by auto
  then show ?case using solo_trans [OF 1(1)] 1(3) by auto
qed

lemma solo_returns:
  assumes "mwf m" and "locked_inv n iters ctr free held relview m L" and "L i = Some p" and "i < n"
    and "free m" and "p = Loop k"
  shows "\<exists>m'. solo (counter_prog w n iters ops ctr) i p m Returned m'"
  using assms
proof (induction "iters - k" arbitrary: k p m L rule: less_induct)
  case less
  note p = less.prems(6)
  let ?P = "counter_prog w n iters ops ctr"
  show ?case
  proof (cases "k < iters")
    case False
    then have "solo ?P i p m Returned m" by (intro worker_solo [where c = Tau]) (simp_all add: p)
    then show ?thesis by blast
  next
    case True
    then have 1: "solo ?P i p m (Locking k (lk_init ops)) m"
      by (intro worker_solo [where c = Tau]) (simp_all add: p)
    obtain m1 where "lock_solo ops (Suc i) (lk_init ops) m m1" using progress less.prems(1,5) by blast
    then have 2: "solo ?P i p m (ReadCtr k) m1" by (rule solo_trans [OF 1 solo_acquires])
    have inv1: "mwf m1 \<and> locked_inv n iters ctr free held relview m1 (L(i \<mapsto> ReadCtr k))"
      by (rule solo_keeps_inv [OF 2 less.prems(1,2,3,4)])
    then obtain m2 j where 3: "solo ?P i (ReadCtr k) m1 (Loop j) m2" "free m2" "k < j"
      using solo_leaves [of m1 "L(i \<mapsto> ReadCtr k)" i "ReadCtr k"] less.prems(4) by auto
    have 4: "solo ?P i p m (Loop j) m2" by (rule solo_trans [OF 2 3(1)])
    have inv2: "mwf m2 \<and> locked_inv n iters ctr free held relview m2 (L(i \<mapsto> Loop j))"
      by (rule solo_keeps_inv [OF 4 less.prems(1,2,3,4)])
    then have "\<exists>m'. solo ?P i (Loop j) m2 Returned m'"
      using less.hyps [of j m2 "L(i \<mapsto> Loop j)" "Loop j"] 3 True less.prems(4) by auto
    then show ?thesis using solo_trans [OF 4] by blast
  qed
qed

lemma solo_to_end:
  assumes "mwf m" and "locked_inv n iters ctr free held relview m L" and "L i = Some p" and "i < n"
    and "critical p \<or> free m"
  shows "\<exists>m'. solo (counter_prog w n iters ops ctr) i p m Returned m'"
proof -
  let ?P = "counter_prog w n iters ops ctr"
  have leave: "\<exists>m'. solo ?P i q m1 Returned m'"
    if h: "critical q" "mwf m1" "locked_inv n iters ctr free held relview m1 (L(i \<mapsto> q))" for q m1
  proof -
    obtain m2 j where 1: "solo ?P i q m1 (Loop j) m2" "free m2"
      using solo_leaves [OF h(2,3) _ assms(4) h(1)] by auto
    have "mwf m2 \<and> locked_inv n iters ctr free held relview m2 ((L(i \<mapsto> q))(i \<mapsto> Loop j))"
      by (rule solo_keeps_inv [OF 1(1) h(2,3) _ assms(4)]) simp
    then have "\<exists>m'. solo ?P i (Loop j) m2 Returned m'"
      using solo_returns [OF _ _ _ assms(4) 1(2)] by auto
    then show ?thesis using solo_trans [OF 1(1)] by blast
  qed
  show ?thesis
  proof (cases p)
    case (Loop k)
    then show ?thesis using solo_returns [OF assms(1,2) _ assms(4)] assms(3,5) by auto
  next
    case (Locking k a)
    then have "free m" using assms(5) by simp
    then obtain m1 where "lock_solo ops (Suc i) a m m1" using progress [OF assms(1)] by blast
    then have 1: "solo ?P i p m (ReadCtr k) m1" unfolding Locking by (rule solo_acquires)
    have "mwf m1 \<and> locked_inv n iters ctr free held relview m1 (L(i \<mapsto> ReadCtr k))"
      by (rule solo_keeps_inv [OF 1 assms(1,2,3,4)])
    then have "\<exists>m'. solo ?P i (ReadCtr k) m1 Returned m'" by (intro leave) simp_all
    then show ?thesis using solo_trans [OF 1] by blast
  next
    case Returned
    then show ?thesis by (blast intro: solo_refl)
  qed (use leave [of p m] assms(1,2,3) in \<open>auto simp: fun_upd_idem\<close>)
qed

end

sublocale counter_threads \<subseteq> fork_join_live "counter_prog w n iters ops ctr" "{ctr}" "counter_ready ctr free"
  "locked_inv n iters ctr free held relview"
proof (unfold_locales, goal_cases)
  case 1
  then show ?case by (auto simp: counter_prog_def)
next
  case (2 m L)
  let ?P = "counter_prog w n iters ops ctr"
  have P: "nthreads ?P = n" "\<And>p. halted ?P p \<longleftrightarrow> p = Returned" by (simp_all add: counter_prog_def)
  have finish: ?case if "L i = Some p" "i < n" "p \<noteq> Returned" "critical p \<or> free m" for i p
    using solo_to_end [OF 2(1,2) that(1,2,4)] that(1,2,3) P
    by (fastforce simp: unfinished_def)
  show ?case
  proof (cases "free m")
    case True
    obtain i where "i \<in> unfinished ?P L" using 2(4) by blast
    moreover from this have "i \<in> dom L" using 2(3) by (simp add: unfinished_def)
    moreover from this obtain p where "L i = Some p" by blast
    ultimately show ?thesis using True finish P by (auto simp: unfinished_def)
  next
    case False
    then obtain i p where i: "L i = Some p" "critical p" using locked_invD(8) [OF 2(2)] by blast
    show ?thesis
    proof (rule finish [OF i(1)])
      have "i \<in> dom L" using i(1) by blast
      then show "i < n" using 2(3) P by simp
      show "p \<noteq> Returned" using i(2) by auto
    qed (use i in auto)
  qed
qed

text \<open>
  What a lock-protected counter promises, of every state a schedule can reach: no step is undefined
  behaviour, no two threads are inside the critical section, the program can still run to the end
  of main, and when main has joined the threads it reads the exact total without a race.
\<close>

definition counter_correct :: "('k counter_pc, 'l, int) thread_prog \<Rightarrow> 'l \<Rightarrow> nat \<Rightarrow> ('l, int) machine \<Rightarrow> bool" where
  "counter_correct P ctr count m0 \<longleftrightarrow>
     (\<forall>s. reach (fj_step P) (fj_init m0) s \<longrightarrow>
        (\<forall>e u. fj_step P e s \<noteq> UB u) \<and>
        (\<forall>i j p q. locals s i = Some p \<longrightarrow> locals s j = Some q \<longrightarrow> critical p \<longrightarrow> critical q \<longrightarrow> i = j) \<and>
        can_finish P s \<and>
        (mainpc s = Joined \<longrightarrow> (\<exists>m'. na_load 0 ctr (shared s) = Ok (int count, m'))))"

context counter_threads
begin

lemma reach_locked:
  assumes "reach (fj_step (counter_prog w n iters ops ctr)) (fj_init m0) s" and "counter_ready ctr free m0"
  shows "locked_inv n iters ctr free held relview (shared s) (locals s)" and "mwf (shared s)"
  using reach_linv [OF assms] reach_mwf [OF assms] .

lemma correct:
  assumes "counter_ready ctr free m0"
  shows "counter_correct (counter_prog w n iters ops ctr) ctr (n * iters) m0"
  unfolding counter_correct_def
  using thread_safe [OF _ assms] mutual_exclusion [OF _ assms] always_can_finish [OF _ assms]
    final_count [OF _ assms]
  by blast

end

text \<open>
  A property of the local state of the lock that holds at its start and that spinning keeps holds
  in every thread, whatever the other threads do.
\<close>

definition lock_locals :: "('k \<Rightarrow> bool) \<Rightarrow> ('k counter_pc, 'l, 'v) fj_state \<Rightarrow> bool" where
  "lock_locals Q s \<longleftrightarrow> (\<forall>i j k. locals s i = Some (Locking j k) \<longrightarrow> Q k)"

lemma lock_locals_reach:
  assumes "reach (fj_step (counter_prog w n iters ops ctr)) (fj_init m0) s"
    and "Q (lk_init ops)"
    and "\<And>t c k m k' m'. Q k \<Longrightarrow> lk_acquire ops t c k m = Ok (Spinning k', m') \<Longrightarrow> Q k'"
  shows "lock_locals Q s"
  using assms(1)
proof (induction rule: reach.induct)
  case reach_refl
  then show ?case by (simp add: lock_locals_def fj_init_def)
next
  case (reach_step s e s')
  show ?case
  proof (cases e)
    case MainStep
    then have "main_step (counter_prog w n iters ops ctr) s = Ok s'" using reach_step by simp
    then show ?thesis
      using reach_step.IH by (cases rule: main_step_cases) (auto simp: lock_locals_def counter_prog_def)
  next
    case (ThreadStep i c)
    from reach_step.hyps(2) [unfolded ThreadStep] obtain p p' m' where
      step: "locals s i = Some p" "tstep (counter_prog w n iters ops ctr) i c p (shared s) = Ok (p', m')"
        "s' = s\<lparr>shared := m', locals := (locals s)(i \<mapsto> p')\<rparr>"
      by (rule thread_step_cases)
    have "Q k" if "p' = Locking j k" for j k
    proof (cases p)
      case (Locking j' k')
      have "Q k'" using reach_step.IH step(1) Locking by (simp add: lock_locals_def)
      moreover have "lk_acquire ops (Suc i) c k' (shared s) = Ok (Spinning k, m')"
      proof -
        from step(2) Locking obtain r m1 where "lk_acquire ops (Suc i) c k' (shared s) = Ok (r, m1)"
          "(case r of Spinning a \<Rightarrow> Locking j' a | Acquired \<Rightarrow> ReadCtr j') = p'" "m1 = m'"
          by (auto simp: counter_prog_def outcome_simps)
        then show ?thesis using that by (cases r) auto
      qed
      ultimately show ?thesis by (rule assms(3))
    qed (use step(2) that assms(2) in \<open>auto simp: counter_prog_def outcome_simps split: if_splits\<close>)
    then show ?thesis using reach_step.IH step(3) by (auto simp: lock_locals_def)
  qed
qed

section \<open>Locks that do not spin\<close>

text \<open>
  With a lock that blocks its callers instead of letting them spin, every step of a worker brings it
  closer to its end, so that every schedule is finite.
\<close>

fun counter_left :: "nat \<Rightarrow> 'k counter_pc \<Rightarrow> nat" where
  "counter_left iters (Loop i) = 5 * (iters - i) + 1"
| "counter_left iters (Locking i k) = 5 * (iters - i)"
| "counter_left iters (ReadCtr i) = 5 * (iters - i) - 1"
| "counter_left iters (WriteCtr i v) = 5 * (iters - i) - 2"
| "counter_left iters (Unlocking i) = 5 * (iters - i) - 3"
| "counter_left iters Returned = 0"

locale blocking_counter = counter_threads +
  assumes no_spin: "lk_acquire ops t c k m \<noteq> Ok (Spinning k', m')"

sublocale blocking_counter \<subseteq> fork_join_bounded "counter_prog w n iters ops ctr" "{ctr}" "counter_ready ctr free"
  "locked_inv n iters ctr free held relview" "\<lambda>m. counter_left iters"
proof (unfold_locales, goal_cases)
  case (1 m L i p c p' m')
  have "counter_worker w iters ops ctr (Suc i) c p m = Ok (p', m')" using 1(6) by (simp add: counter_prog_def)
  then show ?case using locked_invD(1) [OF 1(1,2)] no_spin by (cases rule: worker_cases) auto
qed simp_all

context blocking_counter
begin

lemma ends:
  assumes "reach (fj_step (counter_prog w n iters ops ctr)) (fj_init m0) s" and "counter_ready ctr free m0"
  shows "ends_within (counter_prog w n iters ops ctr) (n * (5 * iters + 3) + 2) s"
proof (rule bounded_ends_le [OF assms always_can_finish [OF _ assms(2)]])
  show "counter_left iters (point (counter_prog w n iters ops ctr) (locals s) j) \<le> 5 * iters + 1" for j
    by (cases "point (counter_prog w n iters ops ctr) (locals s) j") auto
qed (simp_all add: counter_prog_def algebra_simps)

end

section \<open>Locks of the POSIX library\<close>

text \<open>A POSIX mutex as a lock: it is free when it has no owner, its owner may release it.\<close>

definition mutex_ops :: "'l \<Rightarrow> (unit, 'l, int) lock_ops" where
  "mutex_ops x = \<lparr>lk_init = (), lk_acquire = (\<lambda>t c k m. obind (mutex_lock t x m) (\<lambda>m'. Ok (Acquired, m'))),
     lk_release = (\<lambda>t m. mutex_unlock t x m)\<rparr>"

definition owner_free :: "'l \<Rightarrow> ('l, 'v) machine \<Rightarrow> bool" where
  "owner_free x m \<longleftrightarrow> owner (mtx m x) = None"

definition owner_held :: "'l \<Rightarrow> tid \<Rightarrow> ('l, 'v) machine \<Rightarrow> bool" where
  "owner_held x t m \<longleftrightarrow> owner (mtx m x) = Some t"

definition owner_released :: "'l \<Rightarrow> ('l, 'v) machine \<Rightarrow> 'l view" where
  "owner_released x m = released (mtx m x)"

lemmas owner_lock_defs = owner_free_def owner_held_def owner_released_def

lemma mutex_counter_lock: "counter_lock (mutex_ops x) ctr (owner_free x) (owner_held x) (owner_released x)"
proof (unfold_locales, goal_cases)
  case (2 t c k m m')
  then have "mutex_lock t x m = Ok m'" by (auto simp: mutex_ops_def outcome_simps)
  from mutex_lock_D [OF this] show ?case by (auto simp: owner_lock_defs untouched_def)
next
  case (4 t m)
  then show ?case by (auto simp: mutex_ops_def owner_lock_defs elim: mutex_unlock_ok)
next
  case (5 t m m')
  then have "mutex_unlock t x m = Ok m'" by (simp add: mutex_ops_def)
  from mutex_unlock_D [OF this] show ?case by (auto simp: owner_lock_defs untouched_def grows_def)
next
  case (8 m t c k r m')
  then show ?case by (auto simp: mutex_ops_def outcome_simps intro: mwf_intros)
next
  case (9 m t m')
  then show ?case by (auto simp: mutex_ops_def intro: mwf_intros)
next
  case (10 m t k)
  obtain m' where "mutex_lock t x m = Ok m'"
    using 10(2) mutex_lock_ok [of m x t] by (auto simp: owner_free_def)
  then show ?case using lock_now [of "mutex_ops x" t Tau k m m'] by (auto simp: mutex_ops_def)
qed (auto simp: mutex_ops_def outcome_simps mutex_lock_no_ub owner_lock_defs)

end
