(* ===== verification/Spinlocks.thy ===== *)
theory Spinlocks
  imports Locked_Counter
begin

text \<open>
  Exercise 05 (\<^verbatim>\<open>src/exercises/05_spinlock_internals/05_spinlock_internals.c\<close>): the spinlocks
  written from scratch, as the source has them, and \<open>pthread_spinlock_t\<close>. Each lock is a
  definition per C function, one step per atomic operation; each is shown to keep the contract
  \<open>counter_lock\<close>, which gives the correctness of its worker.
\<close>

section \<open>The objects\<close>

text \<open>The word of the lock, and \<open>long shared_counter\<close>.\<close>

datatype sl_obj = LockWord | SharedCounter

definition NUM_THREADS :: nat where "NUM_THREADS = 4"

definition ITERATIONS :: nat where "ITERATIONS = 100000"

type_synonym sl_machine = "(sl_obj, int) machine"

section \<open>Test and set\<close>

text \<open>\<open>while (atomic_flag_test_and_set_explicit(&lock->lock, memory_order_acquire)) {}\<close>\<close>

definition tas_lock :: "tid \<Rightarrow> choice \<Rightarrow> unit \<Rightarrow> sl_machine \<Rightarrow> (unit lock_result \<times> sl_machine) outcome" where
  "tas_lock t c k m =
     (let (old, m') = atomic_rmw Acquire t LockWord (\<lambda>_. 1) m
      in Ok (if old \<noteq> 0 then Spinning k else Acquired, m'))"

definition tas_unlock :: "tid \<Rightarrow> sl_machine \<Rightarrow> sl_machine outcome" where
  "tas_unlock t m = Ok (atomic_store Release t LockWord 0 m)"

definition tas_spinlock :: "(unit, sl_obj, int) lock_ops" where
  "tas_spinlock = \<lparr>lk_init = (), lk_acquire = tas_lock, lk_release = tas_unlock\<rparr>"

section \<open>Test and test and set\<close>

text \<open>
  The program points of the loop: the relaxed load, the weak compare-exchange, \<open>cpu_relax()\<close>.
\<close>

datatype ttas_pc = Test | Cas | Relax

fun ttas_lock :: "tid \<Rightarrow> choice \<Rightarrow> ttas_pc \<Rightarrow> sl_machine \<Rightarrow> (ttas_pc lock_result \<times> sl_machine) outcome" where
  "ttas_lock t (Pick i) Test m =
     obind (atomic_load Relaxed t LockWord i m)
       (\<lambda>(locked, m'). Ok (Spinning (if locked = 0 then Cas else Relax), m'))"
| "ttas_lock t c Test m = Blocked"
| "ttas_lock t c Cas m =
     obind (atomic_cas_weak Acquire Relaxed t LockWord 0 1 c m)
       (\<lambda>(success, m'). Ok (if success then Acquired else Spinning Relax, m'))"
| "ttas_lock t c Relax m = Ok (Spinning Test, m)"

definition ttas_unlock :: "tid \<Rightarrow> sl_machine \<Rightarrow> sl_machine outcome" where
  "ttas_unlock t m = Ok (atomic_store Release t LockWord 0 m)"

definition ttas_spinlock :: "(ttas_pc, sl_obj, int) lock_ops" where
  "ttas_spinlock = \<lparr>lk_init = Test, lk_acquire = ttas_lock, lk_release = ttas_unlock\<rparr>"

text \<open>The version the source calls TTAS with PAUSE has a lock type and functions of its own.\<close>

fun ttas_pause_lock :: "tid \<Rightarrow> choice \<Rightarrow> ttas_pc \<Rightarrow> sl_machine \<Rightarrow> (ttas_pc lock_result \<times> sl_machine) outcome" where
  "ttas_pause_lock t (Pick i) Test m =
     obind (atomic_load Relaxed t LockWord i m)
       (\<lambda>(locked, m'). Ok (Spinning (if locked = 0 then Cas else Relax), m'))"
| "ttas_pause_lock t c Test m = Blocked"
| "ttas_pause_lock t c Cas m =
     obind (atomic_cas_weak Acquire Relaxed t LockWord 0 1 c m)
       (\<lambda>(success, m'). Ok (if success then Acquired else Spinning Relax, m'))"
| "ttas_pause_lock t c Relax m = Ok (Spinning Test, m)"

definition ttas_pause_unlock :: "tid \<Rightarrow> sl_machine \<Rightarrow> sl_machine outcome" where
  "ttas_pause_unlock t m = Ok (atomic_store Release t LockWord 0 m)"

definition ttas_pause_spinlock :: "(ttas_pc, sl_obj, int) lock_ops" where
  "ttas_pause_spinlock =
     \<lparr>lk_init = Test, lk_acquire = ttas_pause_lock, lk_release = ttas_pause_unlock\<rparr>"

section \<open>Exponential backoff\<close>

definition BACKOFF_MIN :: int where "BACKOFF_MIN = 4"

definition BACKOFF_MAX :: int where "BACKOFF_MAX = 1024"

text \<open>\<open>backoff = (backoff * 2 > BACKOFF_MAX) ? BACKOFF_MAX : backoff * 2;\<close>\<close>

definition next_backoff :: "int \<Rightarrow> int" where
  "next_backoff backoff = (if backoff * 2 > BACKOFF_MAX then BACKOFF_MAX else backoff * 2)"

text \<open>Each program point carries the local \<open>backoff\<close>; the pause loop its counter as well.\<close>

datatype backoff_pc = BTest int | BCas int | BPause int int

fun backoff_lock :: "tid \<Rightarrow> choice \<Rightarrow> backoff_pc \<Rightarrow> sl_machine \<Rightarrow>
    (backoff_pc lock_result \<times> sl_machine) outcome" where
  "backoff_lock t (Pick i) (BTest b) m =
     obind (atomic_load Relaxed t LockWord i m)
       (\<lambda>(locked, m'). Ok (Spinning (if locked = 0 then BCas b else BPause b 0), m'))"
| "backoff_lock t c (BTest b) m = Blocked"
| "backoff_lock t c (BCas b) m =
     obind (atomic_cas_weak Acquire Relaxed t LockWord 0 1 c m)
       (\<lambda>(success, m'). Ok (if success then Acquired else Spinning (BPause b 0), m'))"
| "backoff_lock t c (BPause b i) m =
     Ok (Spinning (if i < b then BPause b (i + 1) else BTest (next_backoff b)), m)"

definition backoff_unlock :: "tid \<Rightarrow> sl_machine \<Rightarrow> sl_machine outcome" where
  "backoff_unlock t m = Ok (atomic_store Release t LockWord 0 m)"

definition backoff_spinlock :: "(backoff_pc, sl_obj, int) lock_ops" where
  "backoff_spinlock =
     \<lparr>lk_init = BTest BACKOFF_MIN, lk_acquire = backoff_lock, lk_release = backoff_unlock\<rparr>"

section \<open>\<open>pthread_spinlock_t\<close>\<close>

text \<open>
  The library's lock, by its POSIX contract: \<open>pthread_spin_lock\<close> returns when the caller has the
  lock, which one thread at a time has; unlocking by another thread is undefined.
\<close>

definition pthread_spin_lock :: "tid \<Rightarrow> choice \<Rightarrow> unit \<Rightarrow> sl_machine \<Rightarrow> (unit lock_result \<times> sl_machine) outcome" where
  "pthread_spin_lock t c k m = obind (mutex_lock t LockWord m) (\<lambda>m'. Ok (Acquired, m'))"

definition pthread_spin_unlock :: "tid \<Rightarrow> sl_machine \<Rightarrow> sl_machine outcome" where
  "pthread_spin_unlock t m = mutex_unlock t LockWord m"

definition pthread_spinlock :: "(unit, sl_obj, int) lock_ops" where
  "pthread_spinlock = \<lparr>lk_init = (), lk_acquire = pthread_spin_lock, lk_release = pthread_spin_unlock\<rparr>"

section \<open>Workers and main\<close>

text \<open>\<open>for (i < ITERATIONS) { lock; shared_counter++; unlock; }\<close> on \<open>long shared_counter\<close>.\<close>

definition tas_worker :: "nat \<Rightarrow> tid \<Rightarrow> choice \<Rightarrow> unit counter_pc \<Rightarrow> sl_machine \<Rightarrow> (unit counter_pc \<times> sl_machine) outcome" where
  "tas_worker iters = counter_worker 64 iters tas_spinlock SharedCounter"

definition ttas_worker :: "nat \<Rightarrow> tid \<Rightarrow> choice \<Rightarrow> ttas_pc counter_pc \<Rightarrow> sl_machine \<Rightarrow> (ttas_pc counter_pc \<times> sl_machine) outcome" where
  "ttas_worker iters = counter_worker 64 iters ttas_spinlock SharedCounter"

definition pthread_spin_worker :: "nat \<Rightarrow> tid \<Rightarrow> choice \<Rightarrow> unit counter_pc \<Rightarrow> sl_machine \<Rightarrow> (unit counter_pc \<times> sl_machine) outcome" where
  "pthread_spin_worker iters = counter_worker 64 iters pthread_spinlock SharedCounter"

definition ttas_pause_worker :: "nat \<Rightarrow> tid \<Rightarrow> choice \<Rightarrow> ttas_pc counter_pc \<Rightarrow> sl_machine \<Rightarrow> (ttas_pc counter_pc \<times> sl_machine) outcome" where
  "ttas_pause_worker iters = counter_worker 64 iters ttas_pause_spinlock SharedCounter"

definition backoff_worker :: "nat \<Rightarrow> tid \<Rightarrow> choice \<Rightarrow> backoff_pc counter_pc \<Rightarrow> sl_machine \<Rightarrow> (backoff_pc counter_pc \<times> sl_machine) outcome" where
  "backoff_worker iters = counter_worker 64 iters backoff_spinlock SharedCounter"

text \<open>
  What main does for one lock: initialise the lock, reset the counter, create the threads, join
  them. The machine at the first \<open>pthread_create\<close>:
\<close>

definition spin_start :: "sl_machine outcome" where
  "spin_start = na_store 0 SharedCounter 0 (init_machine (\<lambda>_. 0))"

text \<open>The threads of each test of main, for any number of threads and iterations.\<close>

definition tas_test :: "nat \<Rightarrow> nat \<Rightarrow> (unit counter_pc, sl_obj, int) thread_prog" where
  "tas_test n iters = \<lparr>nthreads = n, jorder = [0..<n], entry = (\<lambda>_. Loop 0),
     tstep = (\<lambda>i. tas_worker iters (Suc i)), halted = (\<lambda>p. p = Returned)\<rparr>"

definition ttas_test :: "nat \<Rightarrow> nat \<Rightarrow> (ttas_pc counter_pc, sl_obj, int) thread_prog" where
  "ttas_test n iters = \<lparr>nthreads = n, jorder = [0..<n], entry = (\<lambda>_. Loop 0),
     tstep = (\<lambda>i. ttas_worker iters (Suc i)), halted = (\<lambda>p. p = Returned)\<rparr>"

definition ttas_pause_test :: "nat \<Rightarrow> nat \<Rightarrow> (ttas_pc counter_pc, sl_obj, int) thread_prog" where
  "ttas_pause_test n iters = \<lparr>nthreads = n, jorder = [0..<n], entry = (\<lambda>_. Loop 0),
     tstep = (\<lambda>i. ttas_pause_worker iters (Suc i)), halted = (\<lambda>p. p = Returned)\<rparr>"

definition backoff_test :: "nat \<Rightarrow> nat \<Rightarrow> (backoff_pc counter_pc, sl_obj, int) thread_prog" where
  "backoff_test n iters = \<lparr>nthreads = n, jorder = [0..<n], entry = (\<lambda>_. Loop 0),
     tstep = (\<lambda>i. backoff_worker iters (Suc i)), halted = (\<lambda>p. p = Returned)\<rparr>"

definition pthread_spin_test :: "nat \<Rightarrow> nat \<Rightarrow> (unit counter_pc, sl_obj, int) thread_prog" where
  "pthread_spin_test n iters = \<lparr>nthreads = n, jorder = [0..<n], entry = (\<lambda>_. Loop 0),
     tstep = (\<lambda>i. pthread_spin_worker iters (Suc i)), halted = (\<lambda>p. p = Returned)\<rparr>"

section \<open>Every lock keeps the contract\<close>

lemmas spin_test_defs =
  tas_test_def tas_worker_def ttas_test_def ttas_worker_def ttas_pause_test_def ttas_pause_worker_def
  backoff_test_def backoff_worker_def pthread_spin_test_def pthread_spin_worker_def

lemma spin_test_counter_prog:
  "tas_test n iters = counter_prog 64 n iters tas_spinlock SharedCounter"
  "ttas_test n iters = counter_prog 64 n iters ttas_spinlock SharedCounter"
  "ttas_pause_test n iters = counter_prog 64 n iters ttas_pause_spinlock SharedCounter"
  "backoff_test n iters = counter_prog 64 n iters backoff_spinlock SharedCounter"
  "pthread_spin_test n iters = counter_prog 64 n iters pthread_spinlock SharedCounter"
  by (simp_all add: spin_test_defs counter_prog_def)

text \<open>A lock kept in one word: it is free when the last value written to it is 0.\<close>

definition word_free :: "sl_machine \<Rightarrow> bool" where
  "word_free m \<longleftrightarrow> value_of m LockWord = 0"

definition word_held :: "tid \<Rightarrow> sl_machine \<Rightarrow> bool" where
  "word_held t m \<longleftrightarrow> value_of m LockWord \<noteq> 0"

definition word_released :: "sl_machine \<Rightarrow> sl_obj view" where
  "word_released m = mview (last (hist m LockWord))"

lemmas word_lock_defs = word_free_def word_held_def word_released_def

lemma word_release:
  fixes m :: sl_machine
  assumes m'_def: "m' = atomic_store Release t LockWord 0 m"
  shows "grows t m m' \<and> untouched SharedCounter m m' \<and> word_free m' \<and> cur m t \<le> word_released m'"
proof -
  obtain pub where "hist m' LockWord = hist m LockWord @ [Msg 0 pub]" and "pub = cur m' t"
    using atomic_store_hist [of Release t LockWord 0 m] by (auto simp: m'_def)
  moreover have "grows t m m'" by (auto simp: m'_def)
  ultimately show ?thesis
    by (auto simp: word_lock_defs untouched_def m'_def frame_simps grows_def value_of_def)
qed

lemma word_frame:
  fixes m m' :: sl_machine
  assumes "\<And>y. y \<noteq> SharedCounter \<Longrightarrow> hist m' y = hist m y"
  shows "word_free m' = word_free m \<and> word_held t m' = word_held t m \<and> word_released m' = word_released m"
  using assms [of LockWord] by (simp add: word_lock_defs value_of_def)

lemma word_load:
  assumes "atomic_load Relaxed t LockWord i m = Ok (v, m')"
  shows "grows t m m' \<and> untouched SharedCounter m m' \<and> word_free m' = word_free m \<and>
    (word_free m \<longrightarrow> word_released m \<le> word_released m') \<and> (\<forall>u. word_held u m \<longrightarrow> word_held u m')"
  using atomic_load_D [OF assms] by (auto simp: word_lock_defs untouched_def value_of_def)

lemma word_acquire:
  fixes m :: sl_machine
  assumes "word_free m" and m': "m' = snd (atomic_rmw Acquire t LockWord (\<lambda>_. 1) m)"
  shows "grows t m m' \<and> untouched SharedCounter m m' \<and> word_free m \<and> word_held t m' \<and> word_released m \<le> cur m' t"
  using assms atomic_rmw_acquires [of Acquire m LockWord t "\<lambda>_. 1"]
  by (auto simp: word_lock_defs untouched_def m' frame_simps)

lemma word_cas:
  assumes "atomic_cas_weak Acquire Relaxed t LockWord 0 1 c m = Ok (b, m')"
  shows "b \<Longrightarrow> word_free m \<and> m' = snd (atomic_rmw Acquire t LockWord (\<lambda>_. 1) m)"
    and "\<not> b \<Longrightarrow> \<exists>i v. atomic_load Relaxed t LockWord i m = Ok (v, m')"
  using assms by (cases c; auto simp: outcome_simps word_free_def split: if_splits)+

lemma word_cas_no_ub: "atomic_cas_weak Acquire Relaxed t LockWord 0 1 c m \<noteq> UB e"
  by (cases c) (auto simp: outcome_simps atomic_load_no_ub)

lemma word_progress:
  assumes "mwf (m :: sl_machine)" and "word_free m"
  obtains i m' where "atomic_load Relaxed t LockWord i m = Ok (0, m')" "mwf m'" "word_free m'"
proof -
  obtain m' where m': "atomic_load Relaxed t LockWord (length (hist m LockWord) - 1) m = Ok (0, m')"
    using atomic_load_last [OF assms(1), of Relaxed t LockWord] assms(2) by (auto simp: word_free_def)
  then show ?thesis using that word_load [OF m'] atomic_load_mwf [OF assms(1) m'] assms(2) by blast
qed

lemma ttas_solo:
  assumes "mwf m" and "word_free m"
  shows "\<exists>m'. lock_solo ttas_spinlock t k m m'"
proof -
  have cas: "\<exists>m'. lock_solo ttas_spinlock t Cas m m'" if "word_free m" for m
    using that lock_now [of ttas_spinlock t Tau Cas m] by (auto simp: ttas_spinlock_def word_free_def)
  obtain i m1 where "atomic_load Relaxed t LockWord i m = Ok (0, m1)" "word_free m1"
    using word_progress [OF assms] by blast
  then have test: "\<exists>m'. lock_solo ttas_spinlock t Test m m'"
    using cas lock_spin [of ttas_spinlock t "Pick i" Test m Cas m1] by (auto simp: ttas_spinlock_def)
  then have "\<exists>m'. lock_solo ttas_spinlock t Relax m m'"
    using lock_spin [of ttas_spinlock t Tau Relax m Test m] by (auto simp: ttas_spinlock_def)
  then show ?thesis using cas assms(2) test by (cases k) auto
qed

lemma backoff_solo:
  assumes "mwf m" and "word_free m"
  shows "\<exists>m'. lock_solo backoff_spinlock t k m m'"
proof -
  have cas: "\<exists>m'. lock_solo backoff_spinlock t (BCas b) m m'" if "word_free m" for b m
    using that lock_now [of backoff_spinlock t Tau "BCas b" m] by (auto simp: backoff_spinlock_def word_free_def)
  obtain i m1 where "atomic_load Relaxed t LockWord i m = Ok (0, m1)" "word_free m1"
    using word_progress [OF assms] by blast
  then have test: "\<exists>m'. lock_solo backoff_spinlock t (BTest b) m m'" for b
    using cas [of m1 b] lock_spin [of backoff_spinlock t "Pick i" "BTest b" m "BCas b" m1]
    by (auto simp: backoff_spinlock_def)
  have pause: "\<exists>m'. lock_solo backoff_spinlock t (BPause b i) m m'" for b i
  proof (induction "nat (b - i)" arbitrary: i)
    case 0
    then show ?case using test lock_spin [of backoff_spinlock t Tau "BPause b i" m "BTest (next_backoff b)" m]
      by (auto simp: backoff_spinlock_def)
  next
    case (Suc d)
    then have "\<exists>m'. lock_solo backoff_spinlock t (BPause b (i + 1)) m m'" by simp
    moreover have "i < b" using Suc.hyps(2) by simp
    ultimately show ?case using lock_spin [of backoff_spinlock t Tau "BPause b i" m "BPause b (i + 1)" m]
      by (auto simp: backoff_spinlock_def)
  qed
  show ?thesis using cas assms(2) test pause by (cases k) auto
qed

interpretation tas: counter_lock tas_spinlock SharedCounter word_free word_held word_released
proof (unfold_locales, goal_cases)
  case (1 t c k m k' m')
  then have "value_of m LockWord \<noteq> 0" and m': "m' = snd (atomic_rmw Acquire t LockWord (\<lambda>_. 1) m)"
    by (auto simp: tas_spinlock_def tas_lock_def Let_def split_beta frame_simps split: if_splits)
  then show ?case by (auto simp: word_lock_defs untouched_def frame_simps)
next
  case (2 t c k m m')
  then have "word_free m" and "m' = snd (atomic_rmw Acquire t LockWord (\<lambda>_. 1) m)"
    by (auto simp: tas_spinlock_def tas_lock_def Let_def split_beta frame_simps word_free_def split: if_splits)
  then show ?case by (rule word_acquire)
next
  case (5 t m m')
  then show ?case using word_release by (auto simp: tas_spinlock_def tas_unlock_def)
next
  case (6 m' m t)
  then show ?case by (intro word_frame)
next
  case (8 m t c k r m')
  then show ?case by (auto simp: tas_spinlock_def tas_lock_def Let_def split_beta intro: mwf_intros)
next
  case (9 m t m')
  then show ?case by (auto simp: tas_spinlock_def tas_unlock_def intro: mwf_intros)
next
  case (10 m t k)
  then show ?case using lock_now [of tas_spinlock t Tau k m]
    by (auto simp: tas_spinlock_def tas_lock_def Let_def split_beta frame_simps word_free_def)
qed (simp_all add: tas_spinlock_def tas_lock_def tas_unlock_def Let_def split_beta word_lock_defs)

interpretation ttas: counter_lock ttas_spinlock SharedCounter word_free word_held word_released
proof (unfold_locales, goal_cases)
  case (1 t c k m k' m')
  then have "m' = m \<or> (\<exists>i v. atomic_load Relaxed t LockWord i m = Ok (v, m'))"
    by (cases k; cases c) (auto simp: ttas_spinlock_def outcome_simps split: if_splits dest: word_cas(2))
  then show ?case using word_load by auto
next
  case (2 t c k m m')
  then have "atomic_cas_weak Acquire Relaxed t LockWord 0 1 c m = Ok (True, m')"
    by (cases k; cases c) (auto simp: ttas_spinlock_def outcome_simps split: if_splits)
  then show ?case using word_cas(1) word_acquire by blast
next
  case (3 t c k m e)
  then show ?case
    by (cases k; cases c) (auto simp: ttas_spinlock_def outcome_simps atomic_load_no_ub word_cas_no_ub)
next
  case (5 t m m')
  then show ?case using word_release by (auto simp: ttas_spinlock_def ttas_unlock_def)
next
  case (6 m' m t)
  then show ?case by (intro word_frame)
next
  case (8 m t c k r m')
  then show ?case
    by (cases k; cases c) (auto simp: ttas_spinlock_def outcome_simps split: if_splits
        intro: mwf_intros dest: atomic_load_mwf)
next
  case (9 m t m')
  then show ?case by (auto simp: ttas_spinlock_def ttas_unlock_def intro: mwf_intros)
next
  case (10 m t k)
  then show ?case by (rule ttas_solo)
qed (simp_all add: ttas_spinlock_def ttas_unlock_def word_lock_defs)

lemma ttas_pause_lock_eq: "ttas_pause_lock t c k m = ttas_lock t c k m"
  by (cases k; cases c) simp_all

lemma ttas_pause_spinlock_eq: "ttas_pause_spinlock = ttas_spinlock"
  by (simp add: ttas_pause_spinlock_def ttas_spinlock_def fun_eq_iff ttas_pause_lock_eq
      ttas_pause_unlock_def ttas_unlock_def)

interpretation ttas_pause: counter_lock ttas_pause_spinlock SharedCounter word_free word_held word_released
  unfolding ttas_pause_spinlock_eq by (rule ttas.counter_lock_axioms)

interpretation backoff: counter_lock backoff_spinlock SharedCounter word_free word_held word_released
proof (unfold_locales, goal_cases)
  case (1 t c k m k' m')
  then have "m' = m \<or> (\<exists>i v. atomic_load Relaxed t LockWord i m = Ok (v, m'))"
    by (cases k; cases c) (auto simp: backoff_spinlock_def outcome_simps split: if_splits dest: word_cas(2))
  then show ?case using word_load by auto
next
  case (2 t c k m m')
  then have "atomic_cas_weak Acquire Relaxed t LockWord 0 1 c m = Ok (True, m')"
    by (cases k; cases c) (auto simp: backoff_spinlock_def outcome_simps split: if_splits)
  then show ?case using word_cas(1) word_acquire by blast
next
  case (3 t c k m e)
  then show ?case
    by (cases k; cases c) (auto simp: backoff_spinlock_def outcome_simps atomic_load_no_ub word_cas_no_ub)
next
  case (5 t m m')
  then show ?case using word_release by (auto simp: backoff_spinlock_def backoff_unlock_def)
next
  case (6 m' m t)
  then show ?case by (intro word_frame)
next
  case (8 m t c k r m')
  then show ?case
    by (cases k; cases c) (auto simp: backoff_spinlock_def outcome_simps split: if_splits
        intro: mwf_intros dest: atomic_load_mwf)
next
  case (9 m t m')
  then show ?case by (auto simp: backoff_spinlock_def backoff_unlock_def intro: mwf_intros)
next
  case (10 m t k)
  then show ?case by (rule backoff_solo)
qed (simp_all add: backoff_spinlock_def backoff_unlock_def word_lock_defs)

lemma pthread_spinlock_eq: "pthread_spinlock = mutex_ops LockWord"
  by (simp add: pthread_spinlock_def mutex_ops_def fun_eq_iff pthread_spin_lock_def pthread_spin_unlock_def)

interpretation pspin: counter_lock pthread_spinlock SharedCounter "owner_free LockWord" "owner_held LockWord"
  "owner_released LockWord"
  unfolding pthread_spinlock_eq by (rule mutex_counter_lock)

text \<open>The tests of main at the constants of the source.\<close>

lemma source_constants_fit: "int (NUM_THREADS * ITERATIONS) < 2 ^ (64 - 1)"
  by (simp add: NUM_THREADS_def ITERATIONS_def)

interpretation tas_main: counter_threads tas_spinlock SharedCounter word_free word_held word_released 64 NUM_THREADS ITERATIONS
  by unfold_locales (rule source_constants_fit)

interpretation ttas_main: counter_threads ttas_spinlock SharedCounter word_free word_held word_released 64 NUM_THREADS ITERATIONS
  by unfold_locales (rule source_constants_fit)

interpretation ttas_pause_main: counter_threads ttas_pause_spinlock SharedCounter word_free word_held word_released 64 NUM_THREADS ITERATIONS
  by unfold_locales (rule source_constants_fit)

interpretation backoff_main: counter_threads backoff_spinlock SharedCounter word_free word_held word_released 64 NUM_THREADS ITERATIONS
  by unfold_locales (rule source_constants_fit)

interpretation pspin_main: counter_threads pthread_spinlock SharedCounter "owner_free LockWord" "owner_held LockWord" "owner_released LockWord" 64 NUM_THREADS ITERATIONS
  by unfold_locales (rule source_constants_fit)

lemma spin_start_ready:
  assumes "spin_start = Ok m"
  shows "counter_ready SharedCounter word_free m" and "counter_ready SharedCounter (owner_free LockWord) m"
proof -
  note S = na_store_D [OF assms [unfolded spin_start_def]]
  have "value_of m SharedCounter = 0" and "knows (cur m 0) SharedCounter m" by (fact S)+
  moreover have "word_free m" using S(4) [of LockWord] by (simp add: word_free_def value_of_def)
  moreover have "owner_free LockWord m" using S(5) by (simp add: owner_free_def)
  moreover have "mwf m"
    using assms by (auto simp: spin_start_def intro: mwf_intros)
  ultimately show "counter_ready SharedCounter word_free m" and "counter_ready SharedCounter (owner_free LockWord) m"
    by (simp_all add: counter_ready_def)
qed

lemma spin_start_ok: obtains m where "spin_start = Ok m"
  using na_store_ok [of "init_machine (\<lambda>_. 0)" 0 SharedCounter 0] by (auto simp: spin_start_def)

lemma spin_threads:
  assumes "int (n * iters) < 2 ^ 63"
  shows "counter_threads tas_spinlock SharedCounter word_free word_held word_released 64 n iters"
    and "counter_threads ttas_spinlock SharedCounter word_free word_held word_released 64 n iters"
    and "counter_threads ttas_pause_spinlock SharedCounter word_free word_held word_released 64 n iters"
    and "counter_threads backoff_spinlock SharedCounter word_free word_held word_released 64 n iters"
    and "counter_threads pthread_spinlock SharedCounter (owner_free LockWord) (owner_held LockWord)
      (owner_released LockWord) 64 n iters"
  by (unfold_locales; use assms in simp)+

lemma next_backoff_range:
  "BACKOFF_MIN \<le> b \<Longrightarrow> b \<le> BACKOFF_MAX \<Longrightarrow> BACKOFF_MIN \<le> next_backoff b \<and> next_backoff b \<le> BACKOFF_MAX"
  by (simp add: next_backoff_def BACKOFF_MIN_def BACKOFF_MAX_def)

fun backoff_bounded :: "backoff_pc \<Rightarrow> bool" where
  "backoff_bounded (BTest b) = (BACKOFF_MIN \<le> b \<and> b \<le> BACKOFF_MAX)"
| "backoff_bounded (BCas b) = (BACKOFF_MIN \<le> b \<and> b \<le> BACKOFF_MAX)"
| "backoff_bounded (BPause b i) = (BACKOFF_MIN \<le> b \<and> b \<le> BACKOFF_MAX \<and> 0 \<le> i \<and> i \<le> b)"

lemma backoff_bounded_step:
  assumes "backoff_bounded k" and "backoff_lock t c k m = Ok (Spinning k', m')"
  shows "backoff_bounded k'"
  using assms next_backoff_range
  by (cases k; cases c) (auto simp: outcome_simps BACKOFF_MIN_def split: if_splits)

text \<open>The lock word is an \<open>atomic_flag\<close> or an \<open>atomic_bool\<close>: every value ever written to it is 0 or 1.\<close>

definition word_bool :: "sl_machine \<Rightarrow> bool" where
  "word_bool m \<longleftrightarrow> (\<forall>msg\<in>set (hist m LockWord). mval msg = 0 \<or> mval msg = 1)"

definition keeps_bool :: "('k, sl_obj, int) lock_ops \<Rightarrow> bool" where
  "keeps_bool ops \<longleftrightarrow>
     (\<forall>t c k m r m'. word_bool m \<longrightarrow> lk_acquire ops t c k m = Ok (r, m') \<longrightarrow> word_bool m') \<and>
     (\<forall>t m m'. word_bool m \<longrightarrow> lk_release ops t m = Ok m' \<longrightarrow> word_bool m')"

lemma word_bool_store: "word_bool m \<Longrightarrow> word_bool (atomic_store Release t LockWord 0 m)"
  using atomic_store_hist [of Release t LockWord 0 m] by (auto simp: word_bool_def)

lemma word_bool_rmw: "word_bool m \<Longrightarrow> word_bool (snd (atomic_rmw Acquire t LockWord (\<lambda>_. 1) m))"
  using atomic_rmw_hist [of Acquire t LockWord "\<lambda>_. 1" m] by (auto simp: word_bool_def)

lemma word_bool_load: "word_bool m \<Longrightarrow> atomic_load ord t x i m = Ok (v, m') \<Longrightarrow> word_bool m'"
  using atomic_load_D(4) [of ord t x i m v m'] by (simp add: word_bool_def)

lemma word_bool_cas:
  assumes "word_bool m" and "atomic_cas_weak Acquire Relaxed t LockWord 0 1 c m = Ok (b, m')"
  shows "word_bool m'"
  using word_cas [OF assms(2)] word_bool_rmw [OF assms(1)] word_bool_load [OF assms(1)] by (cases b) auto

lemma spinlocks_keep_bool: "keeps_bool tas_spinlock" "keeps_bool ttas_spinlock" "keeps_bool backoff_spinlock"
proof -
  show "keeps_bool tas_spinlock"
    by (auto simp: keeps_bool_def tas_spinlock_def tas_lock_def tas_unlock_def Let_def split_beta
        word_bool_store word_bool_rmw)
  have "word_bool m'" if "word_bool m" "ttas_lock t c k m = Ok (r, m')" for t c k m r m'
    using that by (cases k; cases c) (auto simp: outcome_simps simp del: atomic_cas_weak.simps
        dest: word_bool_load word_bool_cas)
  then show "keeps_bool ttas_spinlock"
    by (auto simp: keeps_bool_def ttas_spinlock_def ttas_unlock_def word_bool_store)
  have "word_bool m'" if "word_bool m" "backoff_lock t c k m = Ok (r, m')" for t c k m r m'
    using that by (cases k; cases c) (auto simp: outcome_simps simp del: atomic_cas_weak.simps
        dest: word_bool_load word_bool_cas)
  then show "keeps_bool backoff_spinlock"
    by (auto simp: keeps_bool_def backoff_spinlock_def backoff_unlock_def word_bool_store)
qed

lemma counter_worker_cases:
  assumes "counter_worker w iters ops x t c p m = Ok (p', m')"
  obtains (loop) "m' = m" | (lock) k r where "lk_acquire ops t c k m = Ok (r, m')"
  | (load) v where "na_load t x m = Ok (v, m')" | (store) v where "na_store t x v m = Ok m'"
  | (unlock) "lk_release ops t m = Ok m'"
  using assms by (cases p) (auto simp: outcome_simps)

lemma word_bool_reach:
  assumes "keeps_bool ops" and "spin_start = Ok m"
    and "reach (fj_step (counter_prog 64 n iters ops SharedCounter)) (fj_init m) s"
  shows "word_bool (shared s)"
  using assms(3)
proof (rule fj_reach_shared)
  have "word_bool (init_machine (\<lambda>_. 0))" by (simp add: word_bool_def)
  moreover have data: "word_bool m'" if "word_bool m" "hist m' LockWord = hist m LockWord" for m m'
    using that by (simp add: word_bool_def)
  moreover have "hist m LockWord = hist (init_machine (\<lambda>_. 0)) LockWord"
    using na_store_D(4) [of 0 SharedCounter 0 "init_machine (\<lambda>_. 0)" m LockWord] assms(2) by (simp add: spin_start_def)
  ultimately show "word_bool m" by blast
  show "word_bool (pthread_create 0 i m)" "word_bool (pthread_join 0 i m)" if "word_bool m" for m i
    using that by (auto simp: word_bool_def frame_simps)
  fix m i c p p' m' assume m: "word_bool m"
    and "tstep (counter_prog 64 n iters ops SharedCounter) i c p m = Ok (p', m')"
  then have "counter_worker 64 iters ops SharedCounter (Suc i) c p m = Ok (p', m')" by (simp add: counter_prog_def)
  then show "word_bool m'"
  proof (cases rule: counter_worker_cases)
    case (load v)
    then show ?thesis using data [OF m] na_load_D(3) by fastforce
  next
    case (store v)
    show ?thesis by (rule data [OF m na_store_D(4) [OF store]]) simp
  next
    case (lock k r)
    then show ?thesis using m assms(1) unfolding keeps_bool_def by blast
  next
    case unlock
    then show ?thesis using m assms(1) unfolding keeps_bool_def by blast
  qed (use m in simp)
qed

text \<open>The lock word and the threads in their critical sections.\<close>

definition word_tracks_owner :: "('k counter_pc, sl_obj, int) fj_state \<Rightarrow> bool" where
  "word_tracks_owner s \<longleftrightarrow>
     value_of (shared s) LockWord = (if \<exists>i p. locals s i = Some p \<and> critical p then 1 else 0)"

lemma word_owner_reach:
  assumes T: "counter_threads ops SharedCounter word_free word_held word_released 64 n iters"
    and "keeps_bool ops" and m: "spin_start = Ok m"
    and s: "reach (fj_step (counter_prog 64 n iters ops SharedCounter)) (fj_init m) s"
  shows "word_tracks_owner s"
proof -
  note r = spin_start_ready(1) [OF m]
  note D = locked_invD [OF counter_threads.reach_locked(1) [OF T s r]]
  have "hist (shared s) LockWord \<noteq> []" by (rule mwf_hist [OF counter_threads.reach_locked(2) [OF T s r]])
  then have "value_of (shared s) LockWord = 0 \<or> value_of (shared s) LockWord = 1"
    using word_bool_reach [OF assms(2) m s] by (simp add: word_bool_def value_of_def)
  then show ?thesis using D(3,8) unfolding word_tracks_owner_def word_lock_defs by (metis zero_neq_one)
qed

section \<open>Properties\<close>

text \<open>
  C6. Test-and-set spinlock (\<open>tas_lock\<close>, \<open>tas_unlock\<close>, \<open>tas_worker\<close>):
  for any number of threads and iterations whose product fits a \<open>long\<close>, every reachable
  state has no undefined step (no data race on \<open>shared_counter\<close>, no signed overflow), at most one
  thread between lock and unlock, and a schedule that finishes main; and once main has joined the
  threads it reads exactly threads times iterations.
\<close>

theorem tas_correct:
  assumes "int (n * iters) < 2 ^ 63" and "spin_start = Ok m"
  shows "counter_correct (tas_test n iters) SharedCounter (n * iters) m"
  using counter_threads.correct [OF spin_threads(1) [OF assms(1)] spin_start_ready(1) [OF assms(2)]]
  by (simp only: spin_test_counter_prog)

theorem tas_correct_witness:
  "\<exists>m. spin_start = Ok m \<and> counter_correct (tas_test NUM_THREADS ITERATIONS) SharedCounter 400000 m"
proof -
  obtain m where "spin_start = Ok m" by (rule spin_start_ok)
  then show ?thesis using tas_correct [of NUM_THREADS ITERATIONS m] by (auto simp: NUM_THREADS_def ITERATIONS_def)
qed

text \<open>
  C1. Test-and-test-and-set spinlock, whose exchange is a weak CAS that may fail spuriously and whose
  test is a relaxed read that may be stale: for any number of threads and iterations whose product fits a \<open>long\<close>, every reachable
  state has no undefined step (no data race on \<open>shared_counter\<close>, no signed overflow), at most one
  thread between lock and unlock, and a schedule that finishes main; and once main has joined the
  threads it reads exactly threads times iterations.
\<close>

theorem ttas_correct:
  assumes "int (n * iters) < 2 ^ 63" and "spin_start = Ok m"
  shows "counter_correct (ttas_test n iters) SharedCounter (n * iters) m"
  using counter_threads.correct [OF spin_threads(2) [OF assms(1)] spin_start_ready(1) [OF assms(2)]]
  by (simp only: spin_test_counter_prog)

theorem ttas_correct_witness:
  "\<exists>m. spin_start = Ok m \<and> counter_correct (ttas_test NUM_THREADS ITERATIONS) SharedCounter 400000 m"
proof -
  obtain m where "spin_start = Ok m" by (rule spin_start_ok)
  then show ?thesis using ttas_correct [of NUM_THREADS ITERATIONS m] by (auto simp: NUM_THREADS_def ITERATIONS_def)
qed

text \<open>
  C7. TTAS with exponential backoff: for any number of threads and iterations whose product fits a \<open>long\<close>, every reachable
  state has no undefined step (no data race on \<open>shared_counter\<close>, no signed overflow), at most one
  thread between lock and unlock, and a schedule that finishes main; and once main has joined the
  threads it reads exactly threads times iterations.
\<close>

theorem backoff_correct:
  assumes "int (n * iters) < 2 ^ 63" and "spin_start = Ok m"
  shows "counter_correct (backoff_test n iters) SharedCounter (n * iters) m"
  using counter_threads.correct [OF spin_threads(4) [OF assms(1)] spin_start_ready(1) [OF assms(2)]]
  by (simp only: spin_test_counter_prog)

theorem backoff_correct_witness:
  "\<exists>m. spin_start = Ok m \<and> counter_correct (backoff_test NUM_THREADS ITERATIONS) SharedCounter 400000 m"
proof -
  obtain m where "spin_start = Ok m" by (rule spin_start_ok)
  then show ?thesis using backoff_correct [of NUM_THREADS ITERATIONS m] by (auto simp: NUM_THREADS_def ITERATIONS_def)
qed

text \<open>
  C8. The test main runs, with the POSIX spinlock: for any number of threads and iterations whose product fits a \<open>long\<close>, every reachable
  state has no undefined step (no data race on \<open>shared_counter\<close>, no signed overflow), at most one
  thread between lock and unlock, and a schedule that finishes main; and once main has joined the
  threads it reads exactly threads times iterations.
\<close>

theorem pthread_spin_correct:
  assumes "int (n * iters) < 2 ^ 63" and "spin_start = Ok m"
  shows "counter_correct (pthread_spin_test n iters) SharedCounter (n * iters) m"
  using counter_threads.correct [OF spin_threads(5) [OF assms(1)] spin_start_ready(2) [OF assms(2)]]
  by (simp only: spin_test_counter_prog)

theorem pthread_spin_correct_witness:
  "\<exists>m. spin_start = Ok m \<and> counter_correct (pthread_spin_test NUM_THREADS ITERATIONS) SharedCounter 400000 m"
proof -
  obtain m where "spin_start = Ok m" by (rule spin_start_ok)
  then show ?thesis using pthread_spin_correct [of NUM_THREADS ITERATIONS m] by (auto simp: NUM_THREADS_def ITERATIONS_def)
qed

text \<open>
  C36. In every reachable state of the backoff test, in every thread, the local \<open>backoff\<close> is between
  BACKOFF_MIN and BACKOFF_MAX and the pause loop counter is between 0 and it, so that neither the
  doubling nor the counting overflows an \<open>int\<close>.
\<close>

theorem backoff_in_range:
  assumes "reach (fj_step (backoff_test n iters)) (fj_init m) s"
    and "locals s i = Some (Locking j k)"
  shows "backoff_bounded k"
proof -
  have "lock_locals backoff_bounded s"
    using assms(1) [unfolded spin_test_counter_prog]
    by (rule lock_locals_reach)
      (auto simp: backoff_spinlock_def BACKOFF_MIN_def BACKOFF_MAX_def dest: backoff_bounded_step)
  then show ?thesis using assms(2) by (simp add: lock_locals_def)
qed

theorem backoff_in_range_witness:
  "\<exists>s. reach (fj_step (backoff_test 1 1)) (fj_init (init_machine (\<lambda>_. 0))) s \<and>
     locals s 0 = Some (Locking 0 (BTest 4)) \<and> backoff_bounded (BTest 4)"
proof -
  let ?es = "[MainStep, ThreadStep 0 Tau]"
  obtain s where s: "run (fj_step (backoff_test 1 1)) ?es (fj_init (init_machine (\<lambda>_. 0))) = Ok s"
    "locals s 0 = Some (Locking 0 (BTest 4))"
    by (simp add: spin_test_counter_prog counter_prog_def fj_init_def main_step_def outcome_simps
        backoff_spinlock_def BACKOFF_MIN_def)
  then show ?thesis using run_reach [OF s(1)] backoff_in_range [OF run_reach [OF s(1)] s(2)] by blast
qed

text \<open>
  The backoff sequence: after \<open>k\<close> rounds of contention the pause is BACKOFF_MIN doubled
  \<open>k\<close> times, cut off at BACKOFF_MAX, and the \<open>int\<close> multiplication of the source does not overflow
  at any round.
\<close>

lemma backoff_sequence:
  "(next_backoff ^^ k) BACKOFF_MIN = min BACKOFF_MAX (BACKOFF_MIN * 2 ^ k) \<and>
   signed_range 32 ((next_backoff ^^ k) BACKOFF_MIN * 2)"
proof -
  have 1: "(next_backoff ^^ k) BACKOFF_MIN = min BACKOFF_MAX (BACKOFF_MIN * 2 ^ k)"
    by (induction k) (auto simp: next_backoff_def BACKOFF_MIN_def BACKOFF_MAX_def)
  moreover have "0 \<le> min BACKOFF_MAX (BACKOFF_MIN * 2 ^ k)" "min BACKOFF_MAX (BACKOFF_MIN * 2 ^ k) \<le> 1024"
    by (simp_all add: BACKOFF_MIN_def BACKOFF_MAX_def)
  ultimately show ?thesis by (simp add: signed_range_def)
qed

text \<open>
  \<open>ttas_pause_lock\<close> takes the same steps as \<open>ttas_lock\<close>, in every thread, state and machine, and
  so the two tests are the same program: \<open>ttas_lock\<close> already calls \<open>cpu_relax\<close>.
\<close>

lemma ttas_pause_same:
  "ttas_pause_lock t c pc m = ttas_lock t c pc m \<and> ttas_pause_test n iters = ttas_test n iters"
  by (simp add: ttas_pause_lock_eq spin_test_counter_prog ttas_pause_spinlock_eq)

text \<open>
  C35. The lock word is the state of the lock: in every reachable state of the test-and-set,
  test-and-test-and-set and backoff tests it is 1 when some thread is between its lock and its unlock,
  and 0 when none is.
\<close>

theorem lock_word_owner:
  assumes "int (n * iters) < 2 ^ 63" and "spin_start = Ok m"
  shows "(reach (fj_step (tas_test n iters)) (fj_init m) s \<longrightarrow> word_tracks_owner s) \<and>
    (reach (fj_step (ttas_test n iters)) (fj_init m) s' \<longrightarrow> word_tracks_owner s') \<and>
    (reach (fj_step (backoff_test n iters)) (fj_init m) s'' \<longrightarrow> word_tracks_owner s'')"
  unfolding spin_test_counter_prog
  using word_owner_reach [OF spin_threads(1) [OF assms(1)] spinlocks_keep_bool(1) assms(2)]
    word_owner_reach [OF spin_threads(2) [OF assms(1)] spinlocks_keep_bool(2) assms(2)]
    word_owner_reach [OF spin_threads(4) [OF assms(1)] spinlocks_keep_bool(3) assms(2)] by blast

theorem lock_word_owner_witness:
  "\<exists>m s. spin_start = Ok m \<and> reach (fj_step (tas_test 2 3)) (fj_init m) s \<and>
     locals s 0 = Some (ReadCtr 0) \<and> value_of (shared s) LockWord = 1"
proof -
  obtain m where m: "spin_start = Ok m" by (rule spin_start_ok)
  let ?es = "[MainStep, ThreadStep 0 Tau, ThreadStep 0 Tau]"
  have "word_free (pthread_create 0 (Suc 0) m)"
    using spin_start_ready(1) [OF m] by (simp add: counter_ready_def word_free_def value_of_def frame_simps)
  then obtain s where s: "run (fj_step (tas_test 2 3)) ?es (fj_init m) = Ok s" "locals s 0 = Some (ReadCtr 0)"
    by (simp add: spin_test_counter_prog counter_prog_def fj_init_def main_step_def outcome_simps
        tas_spinlock_def tas_lock_def atomic_rmw_def word_free_def value_of_def Let_def split_beta)
  note r = run_reach [OF s(1)]
  have "word_tracks_owner s" using lock_word_owner [of 2 3 m s undefined undefined] m r by simp
  moreover have "critical (ReadCtr 0)" by simp
  ultimately have "value_of (shared s) LockWord = 1" using s(2) unfolding word_tracks_owner_def by metis
  then show ?thesis using m r s(2) by blast
qed

end
