(* ===== verification/Message_Passing.thy ===== *)
theory Message_Passing
  imports Fork_Join
begin

text \<open>
  Passing a message through a flag: exercise 00 (part 5), exercise 01 (part 4) and exercise 04. The
  producer writes the data and raises the flag, the consumer polls the flag and reads the data. The
  versions differ in how the two objects are accessed; the interface \<open>mp_channel\<close> says what the
  accesses of a correct version have in common, and its lemmas are proved once.

  Main creates the consumer first, so the consumer is worker 0 and the producer worker 1; it joins
  the producer first.
\<close>

section \<open>Producer and consumer\<close>

text \<open>
  \<open>data\<close> and \<open>flag\<close> of exercise 04, \<open>data\<close> and \<open>ready\<close> of exercise 00, \<open>message_data\<close> and
  \<open>message_ready\<close> of exercise 01; the last two are \<open>data_broken\<close> and \<open>flag_broken\<close> of exercise 04.
\<close>

datatype mp_obj = Data | Flag | DataBroken | FlagBroken

type_synonym mp_machine = "(mp_obj, int) machine"

type_synonym store_op = "tid \<Rightarrow> mp_machine \<Rightarrow> mp_machine outcome"

type_synonym load_op = "tid \<Rightarrow> choice \<Rightarrow> mp_machine \<Rightarrow> (int \<times> mp_machine) outcome"

text \<open>The program points; \<open>ConsRet v\<close> is the consumer's return after it printed \<open>v\<close>.\<close>

datatype mp_pc = StoreData | StoreFlag | ProdRet | PollFlag | ReadData | UseData int | ConsRet int

fun mp_producer :: "store_op \<Rightarrow> store_op \<Rightarrow> tid \<Rightarrow> mp_pc \<Rightarrow> mp_machine \<Rightarrow> (mp_pc \<times> mp_machine) outcome" where
  "mp_producer sd sf t StoreData m = obind (sd t m) (\<lambda>m'. Ok (StoreFlag, m'))"
| "mp_producer sd sf t StoreFlag m = obind (sf t m) (\<lambda>m'. Ok (ProdRet, m'))"
| "mp_producer sd sf t _ m = Blocked"

fun mp_consumer :: "load_op \<Rightarrow> load_op \<Rightarrow> bool \<Rightarrow> tid \<Rightarrow> choice \<Rightarrow> mp_pc \<Rightarrow> mp_machine \<Rightarrow>
    (mp_pc \<times> mp_machine) outcome" where
  "mp_consumer lf ld asserts t c PollFlag m =
     obind (lf t c m) (\<lambda>(v, m'). Ok (if v = 0 then PollFlag else ReadData, m'))"
| "mp_consumer lf ld asserts t c ReadData m = obind (ld t c m) (\<lambda>(v, m'). Ok (UseData v, m'))"
| "mp_consumer lf ld asserts t c (UseData v) m =
     (if asserts \<and> v \<noteq> 42 then UB AssertFail else Ok (ConsRet v, m))"
| "mp_consumer lf ld asserts t c _ m = Blocked"

text \<open>\<open>pthread_create(&cons), pthread_create(&prod), pthread_join(prod), pthread_join(cons)\<close>\<close>

fun mp_halted :: "mp_pc \<Rightarrow> bool" where
  "mp_halted ProdRet = True"
| "mp_halted (ConsRet v) = True"
| "mp_halted _ = False"

definition mp_test :: "(tid \<Rightarrow> mp_pc \<Rightarrow> mp_machine \<Rightarrow> (mp_pc \<times> mp_machine) outcome) \<Rightarrow>
    (tid \<Rightarrow> choice \<Rightarrow> mp_pc \<Rightarrow> mp_machine \<Rightarrow> (mp_pc \<times> mp_machine) outcome) \<Rightarrow>
    (mp_pc, mp_obj, int) thread_prog" where
  "mp_test producer consumer =
     \<lparr>nthreads = 2, jorder = [1, 0], entry = (\<lambda>i. if i = 0 then PollFlag else StoreData),
      tstep = (\<lambda>i c. if i = 0 then consumer (Suc i) c else producer (Suc i)), halted = mp_halted\<rparr>"

text \<open>Loads and stores of the sources; the choice of an atomic load is the message it reads.\<close>

fun load_at :: "memory_order \<Rightarrow> mp_obj \<Rightarrow> load_op" where
  "load_at ord x t (Pick i) m = atomic_load ord t x i m"
| "load_at ord x t _ m = Blocked"

definition store_at :: "memory_order \<Rightarrow> mp_obj \<Rightarrow> int \<Rightarrow> store_op" where
  "store_at ord x v t m = Ok (atomic_store ord t x v m)"

definition load_plain :: "mp_obj \<Rightarrow> load_op" where
  "load_plain x t c m = na_load t x m"

definition store_plain :: "mp_obj \<Rightarrow> int \<Rightarrow> store_op" where
  "store_plain x v t m = na_store t x v m"

section \<open>The versions of the exercises\<close>

text \<open>Exercise 00, part 5.\<close>

definition producer :: "tid \<Rightarrow> mp_pc \<Rightarrow> mp_machine \<Rightarrow> (mp_pc \<times> mp_machine) outcome" where
  "producer = mp_producer (store_at Relaxed Data 42) (store_at Release Flag 1)"

definition consumer :: "tid \<Rightarrow> choice \<Rightarrow> mp_pc \<Rightarrow> mp_machine \<Rightarrow> (mp_pc \<times> mp_machine) outcome" where
  "consumer = mp_consumer (load_at Acquire Flag) (load_at Relaxed Data) False"

definition demo_memory_ordering_reset :: "mp_machine \<Rightarrow> mp_machine outcome" where
  "demo_memory_ordering_reset m = Ok (atomic_store SeqCst 0 Flag 0 (atomic_store SeqCst 0 Data 0 m))"

definition demo_memory_ordering :: "(mp_pc, mp_obj, int) thread_prog" where
  "demo_memory_ordering = mp_test producer consumer"

text \<open>Exercise 01, part 4: the data is a plain \<open>int\<close>.\<close>

definition message_producer_broken :: "tid \<Rightarrow> mp_pc \<Rightarrow> mp_machine \<Rightarrow> (mp_pc \<times> mp_machine) outcome" where
  "message_producer_broken = mp_producer (store_plain Data 42) (store_at Relaxed Flag 1)"

definition message_producer_correct :: "tid \<Rightarrow> mp_pc \<Rightarrow> mp_machine \<Rightarrow> (mp_pc \<times> mp_machine) outcome" where
  "message_producer_correct = mp_producer (store_plain Data 42) (store_at Release Flag 1)"

definition message_consumer_broken :: "tid \<Rightarrow> choice \<Rightarrow> mp_pc \<Rightarrow> mp_machine \<Rightarrow>
    (mp_pc \<times> mp_machine) outcome" where
  "message_consumer_broken = mp_consumer (load_at Relaxed Flag) (load_plain Data) False"

definition message_consumer_correct :: "tid \<Rightarrow> choice \<Rightarrow> mp_pc \<Rightarrow> mp_machine \<Rightarrow>
    (mp_pc \<times> mp_machine) outcome" where
  "message_consumer_correct = mp_consumer (load_at Acquire Flag) (load_plain Data) False"

definition message_reset :: "mp_machine \<Rightarrow> mp_machine outcome" where
  "message_reset m = obind (na_store 0 Data 0 m) (\<lambda>m'. Ok (atomic_store SeqCst 0 Flag 0 m'))"

text \<open>The two loops of main: five rounds of the broken version, then five of the correct one.\<close>

definition message_main :: "(mp_machine \<Rightarrow> mp_machine \<Rightarrow> bool) list" where
  "message_main =
     replicate 5 (test_ends message_reset (mp_test message_producer_broken message_consumer_broken)) @
     replicate 5 (test_ends message_reset (mp_test message_producer_correct message_consumer_correct))"

text \<open>Exercise 04.\<close>

definition producer_broken :: "tid \<Rightarrow> mp_pc \<Rightarrow> mp_machine \<Rightarrow> (mp_pc \<times> mp_machine) outcome" where
  "producer_broken = mp_producer (store_plain DataBroken 42) (store_plain FlagBroken 1)"

definition consumer_broken :: "tid \<Rightarrow> choice \<Rightarrow> mp_pc \<Rightarrow> mp_machine \<Rightarrow> (mp_pc \<times> mp_machine) outcome" where
  "consumer_broken = mp_consumer (load_plain FlagBroken) (load_plain DataBroken) False"

definition producer_seqcst :: "tid \<Rightarrow> mp_pc \<Rightarrow> mp_machine \<Rightarrow> (mp_pc \<times> mp_machine) outcome" where
  "producer_seqcst = mp_producer (store_at SeqCst Data 42) (store_at SeqCst Flag 1)"

definition consumer_seqcst :: "tid \<Rightarrow> choice \<Rightarrow> mp_pc \<Rightarrow> mp_machine \<Rightarrow> (mp_pc \<times> mp_machine) outcome" where
  "consumer_seqcst = mp_consumer (load_at SeqCst Flag) (load_at SeqCst Data) True"

definition producer_acqrel :: "tid \<Rightarrow> mp_pc \<Rightarrow> mp_machine \<Rightarrow> (mp_pc \<times> mp_machine) outcome" where
  "producer_acqrel = mp_producer (store_at Relaxed Data 42) (store_at Release Flag 1)"

definition consumer_acqrel :: "tid \<Rightarrow> choice \<Rightarrow> mp_pc \<Rightarrow> mp_machine \<Rightarrow> (mp_pc \<times> mp_machine) outcome" where
  "consumer_acqrel = mp_consumer (load_at Acquire Flag) (load_at Relaxed Data) True"

definition test_version_reset :: "mp_machine \<Rightarrow> mp_machine outcome" where
  "test_version_reset m =
     obind (na_store 0 DataBroken 0 m) (\<lambda>m1.
     obind (na_store 0 FlagBroken 0 m1) (\<lambda>m2.
     Ok (atomic_store SeqCst 0 Flag 0 (atomic_store SeqCst 0 Data 0 m2))))"

text \<open>The calls of \<open>test_version\<close> in main.\<close>

definition ordering_main :: "(mp_machine \<Rightarrow> mp_machine \<Rightarrow> bool) list" where
  "ordering_main =
     replicate 3 (test_ends test_version_reset (mp_test producer_broken consumer_broken)) @
     [test_ends test_version_reset (mp_test producer_seqcst consumer_seqcst),
      test_ends test_version_reset (mp_test producer_acqrel consumer_acqrel)]"

text \<open>
  The machine after \<open>k\<close> complete rounds of a test, each one the reset of the objects by main and an
  execution to the last join.
\<close>

inductive rounds :: "(mp_machine \<Rightarrow> mp_machine outcome) \<Rightarrow> (mp_pc, mp_obj, int) thread_prog \<Rightarrow>
    nat \<Rightarrow> mp_machine \<Rightarrow> mp_machine \<Rightarrow> bool"
  for reset P where
  rounds_0: "rounds reset P 0 m m"
| rounds_Suc: "rounds reset P k m m1 \<Longrightarrow> reset m1 = Ok m2 \<Longrightarrow>
    reach (fj_step P) (fj_init m2) s \<Longrightarrow> mainpc s = Joined \<Longrightarrow> rounds reset P (Suc k) m (shared s)"

section \<open>The interface of a correct version\<close>

text \<open>Main has reset the objects and has seen every access of earlier rounds.\<close>

definition mp_ready :: "mp_machine \<Rightarrow> bool" where
  "mp_ready m \<longleftrightarrow> mwf m \<and> value_of m Flag = 0 \<and> (\<forall>x. knows (cur m 0) x m)"

text \<open>
  The invariant: what the consumer can still read from the flag, what it knows about the data once
  it has read 1, what the producer knows, which program points each thread can be at.
\<close>

definition flag_inv :: "mp_machine \<Rightarrow> (nat \<Rightarrow> mp_pc option) \<Rightarrow> bool" where
  "flag_inv m L \<longleftrightarrow> (\<forall>i. cur m 1 (W Flag) \<le> i \<longrightarrow> i < length (hist m Flag) \<longrightarrow>
     mval (hist m Flag ! i) \<noteq> 0 \<longrightarrow> L 1 = Some ProdRet \<and> knows (mview (hist m Flag ! i)) Data m)"

definition consumer_inv :: "mp_machine \<Rightarrow> (nat \<Rightarrow> mp_pc option) \<Rightarrow> bool" where
  "consumer_inv m L = (case L 0 of
     None \<Rightarrow> L 1 = None \<and> value_of m Flag = 0
   | Some PollFlag \<Rightarrow> flag_inv m L
   | Some ReadData \<Rightarrow> L 1 = Some ProdRet \<and> knows (cur m 1) Data m
   | Some (UseData v) \<Rightarrow> L 1 = Some ProdRet \<and> v = 42
   | Some (ConsRet v) \<Rightarrow> L 1 = Some ProdRet \<and> v = 42
   | _ \<Rightarrow> False)"

definition producer_inv :: "mp_machine \<Rightarrow> (nat \<Rightarrow> mp_pc option) \<Rightarrow> bool" where
  "producer_inv m L = (case L 1 of
     None \<Rightarrow> knows (cur m 0) Data m \<and> knows (cur m 0) Flag m
   | Some StoreData \<Rightarrow> knows (cur m 2) Data m \<and> knows (cur m 2) Flag m
   | Some StoreFlag \<Rightarrow> knows (cur m 2) Data m \<and> knows (cur m 2) Flag m \<and> value_of m Data = 42
   | Some ProdRet \<Rightarrow> value_of m Data = 42 \<and> value_of m Flag = 1
   | _ \<Rightarrow> False)"

definition mp_inv :: "mp_machine \<Rightarrow> (nat \<Rightarrow> mp_pc option) \<Rightarrow> bool" where
  "mp_inv m L \<longleftrightarrow> consumer_inv m L \<and> producer_inv m L"

lemmas mp_inv_defs = mp_inv_def consumer_inv_def producer_inv_def

lemma flag_inv_mono:
  assumes "flag_inv m L" and "hist m' Flag = hist m Flag" and "cur m 1 \<le> cur m' 1"
    and "L 1 = Some ProdRet \<Longrightarrow> L' 1 = Some ProdRet \<and> untouched Data m m'"
  shows "flag_inv m' L'"
  unfolding flag_inv_def
proof (intro allI impI)
  fix i assume i: "cur m' 1 (W Flag) \<le> i" "i < length (hist m' Flag)" "mval (hist m' Flag ! i) \<noteq> 0"
  have "cur m 1 (W Flag) \<le> i" using i(1) assms(3) by (auto simp: le_fun_def intro: order.trans)
  then have "L 1 = Some ProdRet" and k: "knows (mview (hist m Flag ! i)) Data m"
    using assms(1,2) i by (auto simp: flag_inv_def)
  then have un: "L' 1 = Some ProdRet" "untouched Data m m'" using assms(4) by auto
  have "knows (mview (hist m Flag ! i)) Data m'" by (rule knows_mono [OF k order.refl un(2)])
  then show "L' 1 = Some ProdRet \<and> knows (mview (hist m' Flag ! i)) Data m'"
    using un(1) by (simp add: assms(2))
qed

text \<open>A step that leaves both objects alone and only adds to views keeps the invariant.\<close>

lemma mp_inv_mono:
  assumes "mp_inv m L" and "\<And>x. untouched x m m'" and "\<And>u. cur m u \<le> cur m' u"
  shows "mp_inv m' L"
proof -
  have val: "value_of m' x = value_of m x" for x by (rule untouched_value [OF assms(2)])
  have know: "knows (cur m u) x m \<Longrightarrow> knows (cur m' u) x m'" for u x
    by (rule knows_mono [OF _ assms(3) assms(2)])
  have "flag_inv m L \<Longrightarrow> flag_inv m' L"
    using assms(2) [of Flag] assms(2) [of Data] assms(3) by (auto simp: untouched_def intro: flag_inv_mono)
  then have "consumer_inv m' L" using assms(1) know val
    by (auto simp: mp_inv_def consumer_inv_def split: option.splits mp_pc.splits)
  moreover have "producer_inv m' L" using assms(1) know val
    by (auto simp: mp_inv_def producer_inv_def split: option.splits mp_pc.splits)
  ultimately show ?thesis by (simp add: mp_inv_def)
qed

locale mp_channel =
  fixes sd :: store_op and ld :: load_op and so lo :: memory_order and asserts :: bool
  assumes rel: "releases so" and acq: "acquires lo"
    and sd_ok: "knows (cur m t) Data m \<Longrightarrow> \<exists>m'. sd t m = Ok m'"
    and sd_writes: "sd t m = Ok m' \<Longrightarrow> knows (cur m t) Data m \<Longrightarrow>
      grows t m m' \<and> (\<forall>x. x \<noteq> Data \<longrightarrow> untouched x m m') \<and> value_of m' Data = 42 \<and> knows (cur m' t) Data m'"
    and sd_mwf: "mwf m \<Longrightarrow> sd t m = Ok m' \<Longrightarrow> mwf m'"
    and ld_safe: "knows (cur m t) Data m \<Longrightarrow> ld t c m \<noteq> UB u"
    and ld_enabled: "mwf m \<Longrightarrow> knows (cur m t) Data m \<Longrightarrow> \<exists>c v m'. ld t c m = Ok (v, m') \<and> \<not> spurious c"
    and ld_reads: "ld t c m = Ok (v, m') \<Longrightarrow> knows (cur m t) Data m \<Longrightarrow>
      v = value_of m Data \<and> grows t m m' \<and> hist m' = hist m \<and>
      (\<forall>x. x \<noteq> Data \<longrightarrow> untouched x m m') \<and> knows (cur m' t) Data m'"
    and ld_mwf: "mwf m \<Longrightarrow> ld t c m = Ok (v, m') \<Longrightarrow> mwf m'"
begin

lemma load_flag_step:
  assumes "mp_inv m L" and "L 0 = Some PollFlag" and "load_at lo Flag 1 c m = Ok (v, m')"
  shows "mp_inv m' (L(0 \<mapsto> if v = 0 then PollFlag else ReadData))"
    and "untouched x m m'" and "grows 1 m m'"
proof -
  from assms(3) obtain i where i: "atomic_load lo 1 Flag i m = Ok (v, m')" by (cases c) auto
  note D = atomic_load_D [OF i]
  show un: "untouched x m m'" for x using D by (simp add: untouched_def)
  show g: "grows 1 m m'" by (fact D)
  have cons: "flag_inv m L" and prod: "producer_inv m L" using assms(1,2) by (auto simp: mp_inv_defs)
  have prod': "producer_inv m' (L(0 \<mapsto> p))" for p
    using prod knows_grows [OF _ g un] untouched_value [OF un]
    by (auto simp: producer_inv_def split: option.splits mp_pc.splits)
  show "mp_inv m' (L(0 \<mapsto> if v = 0 then PollFlag else ReadData))"
  proof (cases "v = 0")
    case True
    have "flag_inv m' (L(0 \<mapsto> PollFlag))"
      by (rule flag_inv_mono [OF cons]) (use un D(4) grows_le [OF g] in auto)
    then show ?thesis using True prod' by (simp add: mp_inv_def consumer_inv_def)
  next
    case False
    have "L 1 = Some ProdRet" and k: "knows (mview (hist m Flag ! i)) Data m"
      using cons False D(1,2,3) by (auto simp: flag_inv_def)
    moreover have "knows (cur m' 1) Data m'" by (rule knows_mono [OF k D(11) [OF acq] un])
    ultimately show ?thesis using False prod' by (simp add: mp_inv_def consumer_inv_def)
  qed
qed

lemma load_data_step:
  assumes "mp_inv m L" and "L 0 = Some ReadData" and "ld 1 c m = Ok (v, m')"
  shows "mp_inv m' (L(0 \<mapsto> UseData v))" and "grows 1 m m'"
    and "untouched x m m' \<or> knows (cur m' 1) x m'"
proof -
  have k: "knows (cur m 1) Data m" and prod: "L 1 = Some ProdRet" "value_of m Data = 42" "value_of m Flag = 1"
    using assms(1,2) by (auto simp: mp_inv_defs)
  note D = ld_reads [OF assms(3) k]
  show "grows 1 m m'" using D by blast
  show "untouched x m m' \<or> knows (cur m' 1) x m'" using D by (cases x) auto
  have "value_of m' x = value_of m x" for x using D by (simp add: value_of_def)
  then show "mp_inv m' (L(0 \<mapsto> UseData v))" using prod D by (simp add: mp_inv_defs)
qed

lemma store_data_step:
  assumes "mp_inv m L" and "L 1 = Some StoreData" and "sd 2 m = Ok m'"
  shows "mp_inv m' (L(1 \<mapsto> StoreFlag))" and "grows 2 m m'"
    and "x \<noteq> Data \<Longrightarrow> untouched x m m'" and "knows (cur m' 2) Data m'"
proof -
  have k: "knows (cur m 2) Data m" "knows (cur m 2) Flag m" and cons: "consumer_inv m L"
    using assms(1,2) by (auto simp: mp_inv_defs)
  note D = sd_writes [OF assms(3) k(1)]
  show g: "grows 2 m m'" and "x \<noteq> Data \<Longrightarrow> untouched x m m'" and "knows (cur m' 2) Data m'" using D by blast+
  have un: "untouched Flag m m'" using D by blast
  have "producer_inv m' (L(1 \<mapsto> StoreFlag))"
    using D knows_grows [OF k(2) g un] by (simp add: producer_inv_def)
  moreover have "L 0 = Some PollFlag" and f: "flag_inv m L"
    using cons assms(2) by (auto simp: consumer_inv_def split: option.splits mp_pc.splits)
  moreover have "flag_inv m' (L(1 \<mapsto> StoreFlag))"
    by (rule flag_inv_mono [OF f]) (use un grows_le [OF g] assms(2) in \<open>auto simp: untouched_def\<close>)
  ultimately show "mp_inv m' (L(1 \<mapsto> StoreFlag))" by (simp add: mp_inv_def consumer_inv_def)
qed

lemma store_flag_step:
  assumes "mp_inv m L" and "L 1 = Some StoreFlag" and "m' = atomic_store so 2 Flag 1 m"
  shows "mp_inv m' (L(1 \<mapsto> ProdRet))" and "x \<noteq> Flag \<Longrightarrow> untouched x m m'" and "knows (cur m' 2) Flag m'"
proof -
  have k: "knows (cur m 2) Data m" "knows (cur m 2) Flag m" and v: "value_of m Data = 42"
    and cons: "consumer_inv m L" using assms(1,2) by (auto simp: mp_inv_defs)
  have g: "grows 2 m m'" by (auto simp: assms(3))
  show "x \<noteq> Flag \<Longrightarrow> untouched x m m'" by (simp add: assms(3) untouched_def frame_simps)
  have un: "untouched Data m m'" by (simp add: assms(3) untouched_def frame_simps)
  show "knows (cur m' 2) Flag m'" unfolding assms(3) by (rule atomic_store_knows [OF k(2)])
  obtain pub where h: "hist m' Flag = hist m Flag @ [Msg 1 pub]" "pub = cur m' 2"
    using atomic_store_hist [of so 2 Flag 1 m] rel by (auto simp: assms(3))
  have pub: "knows pub Data m'" unfolding h(2) by (rule knows_grows [OF k(1) g un])
  have f: "flag_inv m L" "L 0 = Some PollFlag"
    using cons assms(2) by (auto simp: consumer_inv_def split: option.splits mp_pc.splits)
  have "flag_inv m' (L(1 \<mapsto> ProdRet))"
    using f(1) pub assms(2) grows_le [OF g, of 1]
    by (auto simp: flag_inv_def h(1) nth_append le_fun_def less_Suc_eq split: if_splits)
      (metis order.trans option.inject mp_pc.distinct(7))
  moreover have "producer_inv m' (L(1 \<mapsto> ProdRet))"
    using v untouched_value [OF un] by (simp add: producer_inv_def) (simp add: assms(3) frame_simps)
  ultimately show "mp_inv m' (L(1 \<mapsto> ProdRet))" using f(2) by (simp add: mp_inv_def consumer_inv_def)
qed

lemma consumer_step:
  assumes "mp_inv m L" and "L 0 = Some p"
    and "mp_consumer (load_at lo Flag) ld asserts 1 c p m = Ok (p', m')"
  shows "mp_inv m' (L(0 \<mapsto> p')) \<and> grows 1 m m' \<and>
    (\<forall>x. untouched x m m' \<or> knows (cur m' 1) x m')"
proof (cases p)
  case PollFlag
  then obtain v where "load_at lo Flag 1 c m = Ok (v, m')" "p' = (if v = 0 then PollFlag else ReadData)"
    using assms(3) by (auto simp: outcome_simps)
  then show ?thesis using load_flag_step [OF assms(1) assms(2) [unfolded PollFlag]] by blast
next
  case ReadData
  then obtain v where "ld 1 c m = Ok (v, m')" "p' = UseData v"
    using assms(3) by (auto simp: outcome_simps)
  then show ?thesis using load_data_step [OF assms(1) assms(2) [unfolded ReadData]] by blast
next
  case (UseData v)
  then show ?thesis using assms by (auto simp: mp_inv_defs split: if_splits option.splits mp_pc.splits)
qed (use assms(3) in auto)

lemma producer_step:
  assumes "mp_inv m L" and "L 1 = Some p"
    and "mp_producer sd (store_at so Flag 1) 2 p m = Ok (p', m')"
  shows "mp_inv m' (L(1 \<mapsto> p')) \<and> grows 2 m m' \<and>
    (\<forall>x. untouched x m m' \<or> knows (cur m' 2) x m')"
proof (cases p)
  case StoreData
  then have "sd 2 m = Ok m'" "p' = StoreFlag" using assms(3) by (auto simp: outcome_simps)
  then show ?thesis using store_data_step [OF assms(1) assms(2) [unfolded StoreData]] by metis
next
  case StoreFlag
  then have "m' = atomic_store so 2 Flag 1 m" "p' = ProdRet"
    using assms(3) by (auto simp: store_at_def outcome_simps)
  then show ?thesis using store_flag_step [OF assms(1) assms(2) [unfolded StoreFlag]]
    by (metis atomic_store_grows)
qed (use assms(3) in auto)

lemma step_safe:
  assumes "mp_inv m L" and "L i = Some p" and "i < 2"
  shows "i = 0 \<Longrightarrow> mp_consumer (load_at lo Flag) ld asserts 1 c p m \<noteq> UB u"
    and "i = 1 \<Longrightarrow> mp_producer sd (store_at so Flag 1) 2 p m \<noteq> UB u"
proof -
  have "load_at lo Flag 1 c m \<noteq> UB u" by (cases c) (auto simp: atomic_load_def Let_def)
  moreover have "ld 1 c m \<noteq> UB u" if "L 0 = Some ReadData"
    using assms(1) that ld_safe by (auto simp: mp_inv_defs)
  moreover have "v = 42" if "L 0 = Some (UseData v)" for v using assms(1) that by (auto simp: mp_inv_defs)
  ultimately show "i = 0 \<Longrightarrow> mp_consumer (load_at lo Flag) ld asserts 1 c p m \<noteq> UB u"
    using assms(2) by (cases p) (auto simp: obind_UB_iff)
  have "sd 2 m \<noteq> UB u" if "L 1 = Some StoreData"
  proof -
    have "knows (cur m 2) Data m" using assms(1) that by (auto simp: mp_inv_defs)
    then obtain m' where "sd 2 m = Ok m'" using sd_ok by blast
    then show ?thesis by simp
  qed
  then show "i = 1 \<Longrightarrow> mp_producer sd (store_at so Flag 1) 2 p m \<noteq> UB u"
    using assms(2) by (cases p) (auto simp: obind_UB_iff store_at_def)
qed

lemma worker_step:
  assumes "mp_inv m L" and "L i = Some p" and "i < 2"
    and "tstep (mp_test (mp_producer sd (store_at so Flag 1)) (mp_consumer (load_at lo Flag) ld asserts)) i c p m
      = Ok (p', m')"
  shows "mp_inv m' (L(i \<mapsto> p')) \<and> grows (Suc i) m m' \<and>
    (\<forall>x. untouched x m m' \<or> knows (cur m' (Suc i)) x m')"
proof (cases "i = 0")
  case True
  then show ?thesis using assms consumer_step [of m L p c p' m'] by (simp add: mp_test_def)
next
  case False
  then have "i = 1" using assms(3) by simp
  then show ?thesis using assms producer_step [of m L p p' m'] by (simp add: mp_test_def numeral_2_eq_2)
qed

lemma worker_mwf:
  assumes "mwf m"
    and "tstep (mp_test (mp_producer sd (store_at so Flag 1)) (mp_consumer (load_at lo Flag) ld asserts)) i c p m
      = Ok (p', m')"
  shows "mwf m'"
proof (cases "i = 0")
  case True
  then have *: "mp_consumer (load_at lo Flag) ld asserts 1 c p m = Ok (p', m')"
    using assms(2) by (simp add: mp_test_def)
  have "load_at lo Flag 1 c m = Ok (v, m') \<Longrightarrow> mwf m'" for v
    using assms(1) by (cases c) (auto intro: mwf_intros)
  with * show ?thesis using assms(1) ld_mwf by (cases p) (auto simp: outcome_simps split: if_splits)
next
  case False
  then have "mp_producer sd (store_at so Flag 1) (Suc i) p m = Ok (p', m')"
    using assms(2) by (simp add: mp_test_def)
  then show ?thesis using assms(1) sd_mwf
    by (cases p) (auto simp: outcome_simps store_at_def intro: mwf_intros)
qed

lemma fork_keeps:
  assumes "mp_inv m L" and "L i = None" and "i < 2" and "dom L = {..<i}"
  shows "mp_inv (pthread_create 0 (Suc i) m) (L(i \<mapsto> if i = 0 then PollFlag else StoreData))"
proof (cases "i = 0")
  case True
  then have none: "L 1 = None" "value_of m Flag = 0" and k: "knows (cur m 0) Data m" "knows (cur m 0) Flag m"
    using assms(1,2) by (auto simp: mp_inv_defs)
  have last: "Suc i = length (hist m Flag)" if "cur m 0 (W Flag) \<le> i" "i < length (hist m Flag)" for i
    using k(2) that by (auto simp: knows_def knows_writes_def)
  have "flag_inv (pthread_create 0 (Suc 0) m) (L(0 \<mapsto> PollFlag))"
    using none(2) last unfolding flag_inv_def value_of_def
    by (auto simp: frame_simps) (metis diff_Suc_1 last_conv_nth length_greater_0_conv zero_less_Suc)+
  then show ?thesis using True none k by (simp add: mp_inv_defs knows_def knows_writes_def frame_simps)
next
  case False
  with assms(3) have i: "i = 1" by simp
  have k: "knows (cur m 0) Data m" "knows (cur m 0) Flag m"
    using assms(1,2) i by (auto simp: mp_inv_defs)
  have "producer_inv (pthread_create 0 2 m) (L(1 \<mapsto> StoreData))"
    using k by (simp add: producer_inv_def knows_def knows_writes_def frame_simps)
  moreover have "consumer_inv (pthread_create 0 2 m) (L(1 \<mapsto> StoreData))"
  proof -
    have "L 0 \<noteq> None" using assms(4) i by auto
    then have p: "L 0 = Some PollFlag" and f: "flag_inv m L"
      using assms(1,2) i by (auto simp: mp_inv_defs split: option.splits mp_pc.splits)
    have "flag_inv (pthread_create 0 2 m) (L(1 \<mapsto> StoreData))"
      by (rule flag_inv_mono [OF f]) (use assms(2) i in \<open>simp_all add: frame_simps\<close>)
    then show ?thesis using p by (simp add: consumer_inv_def)
  qed
  ultimately show ?thesis using i by (simp add: mp_inv_def numeral_2_eq_2)
qed

end

sublocale mp_channel \<subseteq> fork_join
  "mp_test (mp_producer sd (store_at so Flag 1)) (mp_consumer (load_at lo Flag) ld asserts)"
  UNIV mp_ready mp_inv
proof (unfold_locales, goal_cases)
  case 1
  then show ?case by (auto simp: mp_test_def)
next
  case (2 m)
  then show ?case by (simp add: mp_ready_def mp_inv_defs)
next
  case (3 m)
  then show ?case by (simp add: mp_ready_def)
next
  case (4 m x)
  then show ?case by (auto simp: mp_ready_def)
next
  case (5 m L i)
  then show ?case using fork_keeps [OF 5(1,2)] by (simp add: mp_test_def)
next
  case (6 m L i p)
  show ?case by (rule mp_inv_mono [OF 6(1)]) (auto intro: grows_le [OF pthread_join_grows])
next
  case (7 m L i p c p' m')
  then show ?case using worker_step [OF 7(1,2) _ 7(5)] by (auto simp: mp_test_def)
next
  case (8 m L i p c p' m')
  then show ?case using worker_step [OF 8(1,2) _ 8(5)] by (auto simp: mp_test_def)
next
  case (9 m L i p c p' m' k)
  have "untouched (key_of k) m m' \<or> knows (cur m' (Suc i)) (key_of k) m'"
    using worker_step [OF 9(1,2) _ 9(5)] 9(3) by (auto simp: mp_test_def)
  then show ?case by (rule tracked_keyI) simp
next
  case (10 m L i p c u)
  then show ?case using step_safe [OF 10(1,2)]
    by (cases "i = 0") (auto simp: mp_test_def numeral_2_eq_2 less_Suc_eq)
next
  case (11 m i c p p' m')
  then show ?case by (rule worker_mwf)
qed

context mp_channel
begin

lemma producer_ends:
  assumes "mp_inv m L" and "L 1 = Some p"
  shows "\<exists>m'. solo (mp_test (mp_producer sd (store_at so Flag 1)) (mp_consumer (load_at lo Flag) ld asserts))
    1 p m ProdRet m'"
proof -
  let ?P = "mp_test (mp_producer sd (store_at so Flag 1)) (mp_consumer (load_at lo Flag) ld asserts)"
  have publish: "solo ?P 1 StoreFlag m1 ProdRet (atomic_store so 2 Flag 1 m1)" for m1
    by (rule solo_one [where c = Tau]) (simp_all add: mp_test_def store_at_def numeral_2_eq_2)
  consider "p = StoreData" | "p = StoreFlag" | "p = ProdRet"
    using assms by (auto simp: mp_inv_defs split: mp_pc.splits)
  then show ?thesis
  proof cases
    case 1
    then obtain m1 where "sd 2 m = Ok m1" using assms sd_ok by (auto simp: mp_inv_defs)
    then have "solo ?P 1 p m StoreFlag m1" unfolding 1
      by (intro solo_one [where c = Tau]) (simp_all add: mp_test_def numeral_2_eq_2)
    from solo_trans [OF this publish] show ?thesis ..
  next
    case 2
    then show ?thesis using publish by blast
  next
    case 3
    then show ?thesis by (blast intro: solo_refl)
  qed
qed

lemma consumer_ends:
  assumes "mwf m" and "mp_inv m L" and "L 0 = Some p" and "L 1 = Some ProdRet"
  shows "\<exists>v m'. solo (mp_test (mp_producer sd (store_at so Flag 1)) (mp_consumer (load_at lo Flag) ld asserts))
    0 p m (ConsRet v) m'"
proof -
  let ?P = "mp_test (mp_producer sd (store_at so Flag 1)) (mp_consumer (load_at lo Flag) ld asserts)"
  have ret: "solo ?P 0 (UseData 42) m1 (ConsRet 42) m1" for m1
    by (rule solo_one [where c = Tau]) (simp_all add: mp_test_def)
  have read: "\<exists>m2. solo ?P 0 ReadData m1 (ConsRet 42) m2"
    if h: "mwf m1" "mp_inv m1 L1" "L1 0 = Some ReadData" for m1 L1
  proof -
    have k: "knows (cur m1 1) Data m1" "value_of m1 Data = 42"
      using h(2,3) by (auto simp: mp_inv_defs)
    obtain c v m2 where ld: "ld 1 c m1 = Ok (v, m2)" and c: "\<not> spurious c" using ld_enabled [OF h(1) k(1)] by blast
    then have "v = 42" using ld_reads [OF ld k(1)] k(2) by simp
    with ld c have "solo ?P 0 ReadData m1 (UseData 42) m2"
      by (intro solo_one [where c = c]) (simp_all add: mp_test_def)
    from solo_trans [OF this ret] show ?thesis ..
  qed
  consider "p = PollFlag" | "p = ReadData" | "p = UseData 42" | "p = ConsRet 42"
    using assms(2,3) by (auto simp: mp_inv_defs split: mp_pc.splits)
  then show ?thesis
  proof cases
    case 1
    have "value_of m Flag = 1" using assms(2,4) by (auto simp: mp_inv_defs)
    moreover obtain m1 where "atomic_load lo 1 Flag (length (hist m Flag) - 1) m = Ok (value_of m Flag, m1)"
      by (rule atomic_load_last [OF assms(1)])
    ultimately have ld: "load_at lo Flag 1 (Pick (length (hist m Flag) - 1)) m = Ok (1, m1)" by simp
    have "mp_inv m1 (L(0 \<mapsto> ReadData))" using load_flag_step(1) [OF assms(2) _ ld] assms(3) 1 by simp
    moreover have "mwf m1" using ld assms(1) by (auto intro: mwf_intros)
    moreover have "solo ?P 0 p m ReadData m1" unfolding 1
      by (rule solo_one [where c = "Pick (length (hist m Flag) - 1)"]) (use ld in \<open>simp_all add: mp_test_def\<close>)
    ultimately show ?thesis using solo_trans read [of m1 "L(0 \<mapsto> ReadData)"] by fastforce
  qed (use read [OF assms(1,2)] assms(3) ret in \<open>auto intro: solo_refl\<close>)
qed

end

sublocale mp_channel \<subseteq> fork_join_live
  "mp_test (mp_producer sd (store_at so Flag 1)) (mp_consumer (load_at lo Flag) ld asserts)"
  UNIV mp_ready mp_inv
proof (unfold_locales, goal_cases)
  case 1
  then show ?case by (auto simp: mp_test_def)
next
  case (2 m L)
  have d: "\<exists>p. L i = Some p" if "i < 2" for i
    using 2(3) that by (auto simp: mp_test_def dom_def set_eq_iff)
  obtain p q where L: "L 0 = Some p" "L 1 = Some q" using d [of 0] d [of 1] by auto
  show ?case
  proof (cases "q = ProdRet")
    case False
    then have "\<not> mp_halted q" using 2(2) L(2) by (auto simp: mp_inv_defs split: mp_pc.splits)
    then have "1 \<in> unfinished (mp_test (mp_producer sd (store_at so Flag 1)) (mp_consumer (load_at lo Flag) ld asserts)) L"
      using L(2) by (simp add: unfinished_def mp_test_def)
    then show ?thesis using producer_ends [OF 2(2) L(2)] L(2)
      by (intro bexI [of _ 1]) (fastforce simp: mp_test_def)+
  next
    case True
    then have "0 \<in> unfinished (mp_test (mp_producer sd (store_at so Flag 1)) (mp_consumer (load_at lo Flag) ld asserts)) L"
      using 2(4) L by (fastforce simp: unfinished_def mp_test_def numeral_2_eq_2 less_Suc_eq)
    then show ?thesis using consumer_ends [OF 2(1,2) L(1)] L True
      by (intro bexI [of _ 0]) (fastforce simp: mp_test_def)+
  qed
qed

text \<open>
  What a correct version promises, of every state a schedule can reach: no undefined behaviour and
  no failed assertion, the consumer has read nothing but 42, and the program can still run to the
  end of main.
\<close>

definition mp_correct :: "(mp_pc, mp_obj, int) thread_prog \<Rightarrow> mp_machine \<Rightarrow> bool" where
  "mp_correct P m0 \<longleftrightarrow>
     (\<forall>s. reach (fj_step P) (fj_init m0) s \<longrightarrow>
        (\<forall>e u. fj_step P e s \<noteq> UB u) \<and>
        (\<forall>v. locals s 0 = Some (UseData v) \<or> locals s 0 = Some (ConsRet v) \<longrightarrow> v = 42) \<and>
        can_finish P s)"

text \<open>Between two rounds: no thread but main, which has seen every access.\<close>

definition mp_quiet :: "mp_machine \<Rightarrow> bool" where
  "mp_quiet m \<longleftrightarrow> mwf m \<and> (\<forall>x. knows (cur m 0) x m)"

context mp_channel
begin

lemma correct:
  assumes "mp_ready m0"
  shows "mp_correct (mp_test (mp_producer sd (store_at so Flag 1)) (mp_consumer (load_at lo Flag) ld asserts)) m0"
  unfolding mp_correct_def
proof (intro allI impI conjI)
  fix s assume s: "reach (fj_step (mp_test (mp_producer sd (store_at so Flag 1))
    (mp_consumer (load_at lo Flag) ld asserts))) (fj_init m0) s"
  show "v = 42" if "locals s 0 = Some (UseData v) \<or> locals s 0 = Some (ConsRet v)" for v
    using reach_linv [OF s assms] that by (auto simp: mp_inv_defs)
qed (use thread_safe always_can_finish assms in blast)+

lemma rounds_quiet:
  assumes "rounds reset (mp_test (mp_producer sd (store_at so Flag 1)) (mp_consumer (load_at lo Flag) ld asserts)) k m m'"
    and "mp_quiet m" and "\<And>m m1. mp_quiet m \<Longrightarrow> reset m = Ok m1 \<Longrightarrow> mp_ready m1"
  shows "mp_quiet m'"
  using assms(1,2)
proof (induction rule: rounds.induct)
  case (rounds_Suc k m m1 m2 s)
  then have "mp_ready m2" using assms(3) by blast
  then show ?case using finished(2) [OF rounds_Suc.hyps(3) _ rounds_Suc.hyps(4)] reach_mwf [OF rounds_Suc.hyps(3)]
    by (auto simp: mp_quiet_def)
qed

lemma rounds_exist:
  assumes "mp_quiet m" and ok: "\<And>m. mp_quiet m \<Longrightarrow> \<exists>m1. reset m = Ok m1 \<and> mp_ready m1"
  shows "\<exists>m'. rounds reset (mp_test (mp_producer sd (store_at so Flag 1))
    (mp_consumer (load_at lo Flag) ld asserts)) k m m'"
proof (induction k)
  case 0
  then show ?case by (blast intro: rounds_0)
next
  case (Suc k)
  let ?P = "mp_test (mp_producer sd (store_at so Flag 1)) (mp_consumer (load_at lo Flag) ld asserts)"
  obtain m1 where m1: "rounds reset ?P k m m1" using Suc by blast
  have "mp_quiet m1" by (rule rounds_quiet [OF m1 assms(1)]) (use ok in fastforce)
  then obtain m2 where m2: "reset m1 = Ok m2" "mp_ready m2" using ok by blast
  have "can_finish ?P (fj_init m2)" by (rule always_can_finish [OF reach_refl m2(2)])
  then obtain s where "reach (fj_step ?P) (fj_init m2) s" "mainpc s = Joined"
    by (auto simp: can_finish_def dest: calm_reach)
  then show ?case using rounds_Suc [OF m1 m2(1)] by blast
qed

lemma quiet_test_ends:
  assumes "mp_quiet m" and ok: "\<And>m. mp_quiet m \<Longrightarrow> \<exists>m1. reset m = Ok m1 \<and> mp_ready m1"
  shows "\<exists>m'. test_ends reset (mp_test (mp_producer sd (store_at so Flag 1))
    (mp_consumer (load_at lo Flag) ld asserts)) m m' \<and> mp_quiet m'"
proof -
  let ?P = "mp_test (mp_producer sd (store_at so Flag 1)) (mp_consumer (load_at lo Flag) ld asserts)"
  obtain m1 where m1: "reset m = Ok m1" "mp_ready m1" using ok [OF assms(1)] by blast
  have "can_finish ?P (fj_init m1)" by (rule always_can_finish [OF reach_refl m1(2)])
  from can_finish_ends [where reset = reset, OF m1(1) this]
  obtain m' where m': "test_ends reset ?P m m'" by blast
  then obtain s where s: "reach (fj_step ?P) (fj_init m1) s" "mainpc s = Joined" "m' = shared s"
    using m1(1) by (auto simp: test_ends_def)
  have "mp_quiet m'" using finished(2) [OF s(1) m1(2) s(2)] reach_mwf [OF s(1) m1(2)] by (simp add: mp_quiet_def s(3))
  then show ?thesis using m' by blast
qed

lemma quiet_tests_end:
  assumes "mp_quiet m" and "\<And>m. mp_quiet m \<Longrightarrow> \<exists>m1. reset m = Ok m1 \<and> mp_ready m1"
  shows "\<exists>m'. in_turn (replicate k (test_ends reset (mp_test (mp_producer sd (store_at so Flag 1))
    (mp_consumer (load_at lo Flag) ld asserts)))) m m' \<and> mp_quiet m'"
  using assms(1)
proof (induction k arbitrary: m)
  case (Suc k)
  from quiet_test_ends [where reset = reset, OF Suc.prems assms(2)] obtain m1
    where m1: "test_ends reset (mp_test (mp_producer sd (store_at so Flag 1)) (mp_consumer (load_at lo Flag) ld asserts)) m m1"
      "mp_quiet m1" by blast
  then show ?case using Suc.IH [OF m1(2)] by auto
qed auto

lemma rounds_correct:
  assumes "rounds reset (mp_test (mp_producer sd (store_at so Flag 1)) (mp_consumer (load_at lo Flag) ld asserts)) k m m'"
    and "mp_quiet m" and "\<And>m. mp_quiet m \<Longrightarrow> \<exists>m1. reset m = Ok m1 \<and> mp_ready m1"
  shows "\<exists>m1. reset m' = Ok m1 \<and>
    mp_correct (mp_test (mp_producer sd (store_at so Flag 1)) (mp_consumer (load_at lo Flag) ld asserts)) m1"
proof -
  have "mp_quiet m'" by (rule rounds_quiet [OF assms(1,2)]) (use assms(3) in fastforce)
  then show ?thesis using assms(3) correct by blast
qed

end

section \<open>The accesses of the exercises satisfy the interface\<close>

lemma atomic_data_channel:
  assumes "releases so" and "acquires lo"
  shows "mp_channel (store_at ord Data 42) (load_at ord' Data) so lo"
proof (unfold_locales, goal_cases)
  case (4 t m m')
  then show ?case
    using atomic_store_knows [of m t Data ord 42]
    by (auto simp: store_at_def untouched_def frame_simps)
next
  case (6 m t c u)
  then show ?case by (cases c) (auto simp: atomic_load_def Let_def)
next
  case (7 m t)
  obtain m' where "load_at ord' Data t (Pick (length (hist m Data) - 1)) m = Ok (value_of m Data, m')"
    using atomic_load_last [OF 7(1)] by (metis load_at.simps(1))
  then show ?case by (metis spurious.simps(3))
next
  case (8 t c m v m')
  then obtain i where i: "atomic_load ord' t Data i m = Ok (v, m')" by (cases c) auto
  have un: "untouched x m m'" for x using atomic_load_D(4,5) [OF i] by (simp add: untouched_def)
  have "v = value_of m Data" by (rule atomic_load_latest [OF knows_imp_writes [OF 8(2)] i])
  moreover have "knows (cur m' t) Data m'" by (rule knows_grows [OF 8(2) atomic_load_D(9) [OF i] un])
  ultimately show ?case using un atomic_load_D(4,9) [OF i] by blast
next
  case (9 m t c v m')
  then show ?case by (cases c) (auto intro: mwf_intros)
qed (use assms in \<open>auto simp: store_at_def intro: mwf_intros\<close>)

lemma plain_data_channel:
  assumes "releases so" and "acquires lo"
  shows "mp_channel (store_plain Data 42) (load_plain Data) so lo"
proof (unfold_locales, goal_cases)
  case (3 m t)
  then show ?case unfolding store_plain_def by (blast elim: na_store_ok)
next
  case (4 t m m')
  then show ?case using na_store_D [OF 4(1) [unfolded store_plain_def]] by (auto simp: untouched_def)
next
  case (6 m t c u)
  then show ?case by (auto simp: load_plain_def na_load_UB_iff knows_def)
next
  case (7 m t)
  then show ?case unfolding load_plain_def by (metis na_load_ok knows_imp_writes spurious.simps(2))
next
  case (8 t c m v m')
  then show ?case using na_load_D [OF 8(1) [unfolded load_plain_def]] by (auto simp: untouched_def)
qed (use assms in \<open>auto simp: store_plain_def load_plain_def intro: mwf_intros\<close>)

interpretation acqrel: mp_channel "store_at Relaxed Data 42" "load_at Relaxed Data" Release Acquire asserts
  for asserts by (rule atomic_data_channel) simp_all

interpretation seqcst: mp_channel "store_at SeqCst Data 42" "load_at SeqCst Data" SeqCst SeqCst True
  by (rule atomic_data_channel) simp_all

interpretation message: mp_channel "store_plain Data 42" "load_plain Data" Release Acquire False
  by (rule plain_data_channel) simp_all

lemma mp_quiet_init: "mp_quiet (init_machine (\<lambda>_. 0))"
  by (simp add: mp_quiet_def mwf_init)

text \<open>Each reset succeeds when main has seen every access, and leaves the test ready to start.\<close>

lemma knows_after_store:
  assumes "\<And>x. knows (cur m 0) x m"
  shows "knows (cur (atomic_store ord 0 y v m) 0) x (atomic_store ord 0 y v m)"
proof (cases "x = y")
  case True
  then show ?thesis using atomic_store_knows [OF assms] by simp
next
  case False
  then have "untouched x m (atomic_store ord 0 y v m)" by (simp add: untouched_def frame_simps)
  then show ?thesis using knows_grows [OF assms atomic_store_grows] by blast
qed

lemma knows_after_na_store:
  assumes "\<And>x. knows (cur m 0) x m" and "na_store 0 y v m = Ok m'"
  shows "knows (cur m' 0) x m'"
proof (cases "x = y")
  case True
  then show ?thesis using na_store_D(9) [OF assms(2)] by simp
next
  case False
  then have "untouched x m m'" using na_store_D(3,4) [OF assms(2)] by (simp add: untouched_def)
  then show ?thesis using knows_grows [OF assms(1) na_store_D(8) [OF assms(2)]] by blast
qed

lemma atomic_resets:
  assumes "mp_quiet m"
  shows "mp_ready (atomic_store SeqCst 0 Flag 0 m)"
    and "mp_ready (atomic_store SeqCst 0 Flag 0 (atomic_store SeqCst 0 Data 0 m))"
  using assms unfolding mp_quiet_def mp_ready_def
  by (auto simp: frame_simps intro!: knows_after_store mwf_intros)

lemma na_store_quiet:
  assumes "mp_quiet m"
  obtains m' where "na_store 0 x v m = Ok m'" and "mp_quiet m'"
proof -
  obtain m' where m': "na_store 0 x v m = Ok m'" using na_store_ok assms by (metis mp_quiet_def)
  then have "mp_quiet m'" using assms knows_after_na_store [OF _ m'] by (auto simp: mp_quiet_def intro: mwf_intros)
  with m' show ?thesis by (rule that)
qed

lemma resets_ready:
  assumes "mp_quiet m"
  shows "\<exists>m'. demo_memory_ordering_reset m = Ok m' \<and> mp_ready m'"
    and "\<exists>m'. message_reset m = Ok m' \<and> mp_ready m'"
    and "\<exists>m'. test_version_reset m = Ok m' \<and> mp_ready m'"
proof -
  show "\<exists>m'. demo_memory_ordering_reset m = Ok m' \<and> mp_ready m'"
    using atomic_resets(2) [OF assms] by (simp add: demo_memory_ordering_reset_def)
  obtain m1 where "na_store 0 Data 0 m = Ok m1" "mp_quiet m1" by (rule na_store_quiet [OF assms])
  then show "\<exists>m'. message_reset m = Ok m' \<and> mp_ready m'"
    using atomic_resets(1) by (simp add: message_reset_def)
  obtain m2 where 2: "na_store 0 DataBroken 0 m = Ok m2" "mp_quiet m2" by (rule na_store_quiet [OF assms])
  obtain m3 where "na_store 0 FlagBroken 0 m2 = Ok m3" "mp_quiet m3" by (rule na_store_quiet [OF 2(2)])
  then show "\<exists>m'. test_version_reset m = Ok m' \<and> mp_ready m'"
    using 2(1) atomic_resets(2) by (simp add: test_version_reset_def)
qed

section \<open>The broken versions\<close>

text \<open>
  Exercise 01: the relaxed store publishes nothing about the data, so the consumer stays without the
  producer's write and its plain read of the data is a race whenever it is reached.
\<close>

definition message_broken_inv :: "mp_machine \<Rightarrow> (nat \<Rightarrow> mp_pc option) \<Rightarrow> bool" where
  "message_broken_inv m L \<longleftrightarrow>
     L 0 \<in> {None, Some PollFlag, Some ReadData} \<and>
     L 1 \<in> {None, Some StoreData, Some StoreFlag, Some ProdRet} \<and>
     (L 0 = None \<longrightarrow> L 1 = None \<and> value_of m Flag = 0 \<and> knows_writes (cur m 0) Flag m) \<and>
     (L 0 = Some PollFlag \<longrightarrow> (\<forall>i. cur m 1 (W Flag) \<le> i \<longrightarrow> i < length (hist m Flag) \<longrightarrow>
        mval (hist m Flag ! i) \<noteq> 0 \<longrightarrow> L 1 = Some ProdRet)) \<and>
     (L 0 = Some ReadData \<longrightarrow> L 1 = Some ProdRet) \<and>
     (L 1 \<in> {Some StoreFlag, Some ProdRet} \<longrightarrow> \<not> knows_writes (cur m 1) Data m)"

lemma message_broken_fork:
  assumes "mwf m" and "message_broken_inv m L" and "dom L = {..<i}" and "i < 2"
  shows "message_broken_inv (pthread_create 0 (Suc i) m) (L(i \<mapsto> if i = 0 then PollFlag else StoreData))"
proof (cases "i = 0")
  case True
  then have none: "L 0 = None" "L 1 = None" using assms(3) by auto
  then have k: "knows_writes (cur m 0) Flag m" "value_of m Flag = 0"
    using assms(2) by (auto simp: message_broken_inv_def)
  have "mval (hist m Flag ! j) = 0" if "cur m 0 (W Flag) \<le> j" "j < length (hist m Flag)" for j
  proof -
    have "j = length (hist m Flag) - 1" using k(1) that by (simp add: knows_writes_def)
    then show ?thesis using k(2) that mwf_hist [OF assms(1)] by (simp add: value_of_def last_conv_nth)
  qed
  then show ?thesis using none True by (auto simp: message_broken_inv_def frame_simps)
next
  case False
  then have i: "i = 1" using assms(4) by simp
  then have "L 1 = None" "L 0 \<noteq> None" using assms(3) by auto
  then show ?thesis using i assms(2)
    by (auto simp: message_broken_inv_def frame_simps knows_writes_def numeral_2_eq_2)
qed

lemma message_broken_step:
  assumes "mwf m" and "message_broken_inv m L" and "L i = Some p" and "i < 2"
    and "tstep (mp_test message_producer_broken message_consumer_broken) i c p m = Ok (p', m')"
  shows "message_broken_inv m' (L(i \<mapsto> p'))"
proof (cases "i = 0")
  case True
  have st: "mp_consumer (load_at Relaxed Flag) (load_plain Data) False 1 c p m = Ok (p', m')"
    using assms(5) True by (simp add: mp_test_def message_consumer_broken_def)
  have "\<not> knows_writes (cur m 1) Data m" if "p = ReadData"
    using assms(2,3) True that by (auto simp: message_broken_inv_def)
  then have p: "p = PollFlag"
    using st assms(2,3) True by (auto simp: message_broken_inv_def load_plain_def na_load_def outcome_simps)
  obtain j v where v: "atomic_load Relaxed 1 Flag j m = Ok (v, m')" "p' = (if v = 0 then PollFlag else ReadData)"
    using st p by (cases c) (auto simp: outcome_simps)
  note D = atomic_load_D [OF v(1)]
  have "cur m' 1 (W Data) = cur m 1 (W Data)"
    using v(1) by (auto simp: atomic_load_def Let_def see_def view_simps split: if_splits)
  then have "knows_writes (cur m' 1) Data m' = knows_writes (cur m 1) Data m"
    using D(4) by (simp add: knows_writes_def)
  moreover have "cur m 1 (W Flag) \<le> cur m' 1 (W Flag)" using grows_le [OF D(9)] by (simp add: le_fun_def)
  ultimately show ?thesis using assms(2,3) True p v(2) D(1,2,3,4)
    by (auto simp: message_broken_inv_def)
next
  case False
  then have i: "i = 1" using assms(4) by simp
  have st: "mp_producer (store_plain Data 42) (store_at Relaxed Flag 1) 2 p m = Ok (p', m')"
    using assms(5) i by (simp add: mp_test_def message_producer_broken_def numeral_2_eq_2)
  have L0: "L 0 = Some PollFlag" if "p \<noteq> ProdRet"
    using assms(2,3) i that by (auto simp: message_broken_inv_def)
  consider "p = StoreData" "na_store 2 Data 42 m = Ok m'" "p' = StoreFlag"
    | "p = StoreFlag" "m' = atomic_store Relaxed 2 Flag 1 m" "p' = ProdRet"
    using st by (cases p) (auto simp: outcome_simps store_plain_def store_at_def)
  then show ?thesis
  proof cases
    case 1
    note D = na_store_D [OF 1(2)]
    have "cur m' 1 = cur m 1" using D(8) by (simp add: grows_def)
    moreover have "cur m 1 (W Data) < length (hist m Data)" using mwfD(1) [OF assms(1)] by (simp add: view_ok_def)
    ultimately show ?thesis using assms(2,3) i 1 L0 D(4,10)
      by (auto simp: message_broken_inv_def knows_writes_def)
  next
    case 2
    have "cur m' 1 = cur m 1" using atomic_store_grows [of 2 m Relaxed Flag 1] 2 by (simp add: grows_def)
    moreover obtain pub where "hist m' Flag = hist m Flag @ [Msg 1 pub]"
      using atomic_store_hist [of Relaxed 2 Flag 1 m] 2 by auto
    moreover have "hist m' Data = hist m Data" by (simp add: 2 frame_simps)
    ultimately show ?thesis using assms(2,3) i 2(1,3) L0
      by (auto simp: message_broken_inv_def knows_writes_def)
  qed
qed

lemma mp_ops_mwf [mwf_intros]:
  "mwf m \<Longrightarrow> load_at ord x t c m = Ok (v, m') \<Longrightarrow> mwf m'"
  "mwf m \<Longrightarrow> load_plain x t c m = Ok (v, m') \<Longrightarrow> mwf m'"
  "mwf m \<Longrightarrow> store_at ord x w t m = Ok m' \<Longrightarrow> mwf m'"
  "mwf m \<Longrightarrow> store_plain x w t m = Ok m' \<Longrightarrow> mwf m'"
  by (cases c) (auto simp: load_plain_def store_at_def store_plain_def intro: mwf_intros)

lemma broken_mwf:
  assumes "mwf m"
  shows "tstep (mp_test message_producer_broken message_consumer_broken) i c p m = Ok (p', m') \<Longrightarrow> mwf m'"
    and "tstep (mp_test producer_broken consumer_broken) i c p m = Ok (p', m') \<Longrightarrow> mwf m'"
  using assms
  by (cases p; auto simp: mp_test_def message_producer_broken_def message_consumer_broken_def
      producer_broken_def consumer_broken_def outcome_simps intro: mwf_intros split: if_splits)+

text \<open>A worker that never halts keeps main from its last join.\<close>

lemma mp_not_joined:
  assumes "fj_wf (mp_test pr co) s" and "\<And>p. locals s 0 = Some p \<Longrightarrow> \<not> mp_halted p"
  shows "mainpc s \<noteq> Joined"
proof
  assume j: "mainpc s = Joined"
  then obtain p where "locals s 0 = Some p"
    using fj_wf_created [OF assms(1) j, of 0] by (auto simp: mp_test_def)
  then show False
    using assms fj_wf_halted [OF assms(1) j, of 0 p] by (auto simp: mp_test_def)
qed

lemma message_broken_never_joins:
  assumes "mp_ready m0"
    and s: "reach (fj_step (mp_test message_producer_broken message_consumer_broken)) (fj_init m0) s"
  shows "mainpc s \<noteq> Joined"
proof -
  have "fj_wf (mp_test message_producer_broken message_consumer_broken) s \<and> mwf (shared s) \<and>
      message_broken_inv (shared s) (locals s)"
  proof (rule fj_reach_linv [where linv = message_broken_inv, OF s], goal_cases)
    case 2
    then show ?case using assms(1) by (auto simp: mp_ready_def message_broken_inv_def knows_def)
  next
    case (3 m L i)
    then show ?case using message_broken_fork [OF 3(1,2,3)] by (simp add: mp_test_def split del: if_split)
  next
    case (4 m L i p)
    then show ?case by (auto simp: message_broken_inv_def frame_simps knows_writes_def value_of_def sup_nat_def)
  next
    case (5 m L i p c p' m')
    then show ?case using message_broken_step [OF 5(1,2,3) _ 5(5)] broken_mwf(1) [OF 5(1,5)]
      by (simp add: mp_test_def)
  qed (use assms(1) in \<open>simp add: mp_ready_def\<close>)
  then show ?thesis
    by (intro mp_not_joined) (auto simp: message_broken_inv_def)
qed

text \<open>
  Exercise 04: with plain flags the consumer's polls and the producer's store of the flag race.
\<close>

definition broken_inv :: "mp_machine \<Rightarrow> (nat \<Rightarrow> mp_pc option) \<Rightarrow> bool" where
  "broken_inv m L \<longleftrightarrow>
     L 0 \<in> {None, Some PollFlag} \<and> (L 0 = None \<longrightarrow> L 1 = None) \<and>
     (if L 1 = Some ProdRet then \<not> knows_writes (cur m 1) FlagBroken m else value_of m FlagBroken = 0)"

lemma broken_step:
  assumes "mwf m" and "broken_inv m L" and "L i = Some p" and "i < 2"
    and "tstep (mp_test producer_broken consumer_broken) i c p m = Ok (p', m')"
  shows "broken_inv m' (L(i \<mapsto> p'))"
proof (cases "i = 0")
  case True
  then have p: "p = PollFlag" using assms(2,3) by (simp add: broken_inv_def)
  then obtain v where v: "na_load 1 FlagBroken m = Ok (v, m')" "p' = (if v = 0 then PollFlag else ReadData)"
    using assms(5) True by (auto simp: mp_test_def consumer_broken_def load_plain_def outcome_simps)
  note D = na_load_D [OF v(1)]
  have "value_of m' FlagBroken = value_of m FlagBroken" using D(3) by (simp add: value_of_def)
  then show ?thesis using assms(2) D(1,2) v(2) True by (auto simp: broken_inv_def)
next
  case False
  then have i: "i = 1" using assms(4) by simp
  then have st: "mp_producer (store_plain DataBroken 42) (store_plain FlagBroken 1) 2 p m = Ok (p', m')"
    using assms(5) by (simp add: mp_test_def producer_broken_def numeral_2_eq_2)
  then consider "p = StoreData" "na_store 2 DataBroken 42 m = Ok m'" "p' = StoreFlag"
    | "p = StoreFlag" "na_store 2 FlagBroken 1 m = Ok m'" "p' = ProdRet"
    by (cases p) (auto simp: outcome_simps store_plain_def)
  then show ?thesis
  proof cases
    case 1
    have "value_of m' FlagBroken = value_of m FlagBroken"
      using na_store_D(4) [OF 1(2), of FlagBroken] by (simp add: value_of_def)
    then show ?thesis using assms(2,3) i 1 by (auto simp: broken_inv_def)
  next
    case 2
    have "cur m' 1 = cur m 1" using na_store_D(8) [OF 2(2)] by (simp add: grows_def)
    moreover have "cur m 1 (W FlagBroken) < length (hist m FlagBroken)"
      using mwfD(1) [OF assms(1)] by (simp add: view_ok_def)
    ultimately have "\<not> knows_writes (cur m' 1) FlagBroken m'"
      using na_store_D(10) [OF 2(2)] by (simp add: knows_writes_def)
    then show ?thesis using assms(2,3) i 2(1,3) by (auto simp: broken_inv_def)
  qed
qed

lemma broken_never_joins:
  assumes "mwf m0" and "value_of m0 FlagBroken = 0"
    and s: "reach (fj_step (mp_test producer_broken consumer_broken)) (fj_init m0) s"
  shows "mainpc s \<noteq> Joined"
proof -
  have "fj_wf (mp_test producer_broken consumer_broken) s \<and> mwf (shared s) \<and>
      broken_inv (shared s) (locals s)"
  proof (rule fj_reach_linv [where linv = broken_inv, OF s], goal_cases)
    case 2
    then show ?case using assms(2) by (auto simp: broken_inv_def)
  next
    case (3 m L i)
    then have "L i = None" by auto
    with 3 show ?case
      by (cases "i = 0") (auto simp: broken_inv_def mp_test_def value_of_def frame_simps
          less_Suc_eq numeral_2_eq_2)
  next
    case (4 m L i p)
    then show ?case by (auto simp: broken_inv_def frame_simps knows_writes_def value_of_def)
  next
    case (5 m L i p c p' m')
    then show ?case using broken_step [OF 5(1,2,3) _ 5(5)] broken_mwf(2) [OF 5(1,5)]
      by (simp add: mp_test_def)
  qed (use assms(1) in simp)
  then show ?thesis
    by (intro mp_not_joined) (auto simp: broken_inv_def)
qed

lemmas mp_eval = mp_test_def fj_init_def main_step_def na_store_def na_load_def atomic_store_def
  atomic_load_def knows_def knows_writes_def see_def view_simps pthread_create_def Let_def value_of_def
  store_plain_def load_plain_def store_at_def init_machine_def numeral_2_eq_2

lemma broken_race:
  assumes "mwf m" and "\<And>x. knows (cur m 0) x m"
  shows "run (fj_step (mp_test producer_broken consumer_broken))
    [MainStep, MainStep, ThreadStep 1 Tau, ThreadStep 1 Tau, ThreadStep 0 Tau] (fj_init m) = UB DataRace"
proof -
  have "cur m 0 (W FlagBroken) < length (hist m FlagBroken)" using mwfD(1) [OF assms(1)] by (simp add: view_ok_def)
  then show ?thesis using assms(2) [of DataBroken] assms(2) [of FlagBroken]
    by (simp add: mp_eval producer_broken_def consumer_broken_def)
qed

lemma message_broken_race:
  assumes "mwf m" and "\<And>x. knows (cur m 0) x m"
  shows "run (fj_step (mp_test message_producer_broken message_consumer_broken))
    [MainStep, MainStep, ThreadStep 1 Tau, ThreadStep 1 Tau, ThreadStep 0 (Pick (length (hist m Flag))), ThreadStep 0 Tau]
    (fj_init m) = UB DataRace"
proof -
  have "cur m 0 (W Data) < length (hist m Data)" "cur m 0 (W Flag) < length (hist m Flag)"
    using mwfD(1) [OF assms(1)] by (simp_all add: view_ok_def)
  then show ?thesis using assms(2) [of Data]
    by (simp add: mp_eval message_producer_broken_def message_consumer_broken_def)
qed

section \<open>Properties\<close>

lemma message_rounds:
  assumes "rounds message_reset (mp_test message_producer_correct message_consumer_correct) k
    (init_machine (\<lambda>_. 0)) m"
  shows "\<exists>m'. message_reset m = Ok m' \<and> mp_correct (mp_test message_producer_correct message_consumer_correct) m'"
  using assms mp_quiet_init resets_ready(2)
  unfolding message_producer_correct_def message_consumer_correct_def by (rule message.rounds_correct)

text \<open>
  C4. Exercise 01, acquire/release: after any number of complete rounds from the start of the program
  the next reset of the plain \<open>message_data\<close> is race-free, and in the round that follows no step is
  undefined, the consumer reads nothing but 42, and the round can run to its end from every state.
\<close>

theorem message_passing_correct:
  assumes "rounds message_reset (mp_test message_producer_correct message_consumer_correct) k
    (init_machine (\<lambda>_. 0)) m"
  shows "\<exists>m'. message_reset m = Ok m' \<and> mp_correct (mp_test message_producer_correct message_consumer_correct) m'"
  by (rule message_rounds [OF assms])

theorem message_passing_correct_witness:
  "\<exists>m m'. rounds message_reset (mp_test message_producer_correct message_consumer_correct) 5
      (init_machine (\<lambda>_. 0)) m \<and>
     message_reset m = Ok m' \<and> mp_correct (mp_test message_producer_correct message_consumer_correct) m'"
proof -
  obtain m where m: "rounds message_reset (mp_test message_producer_correct message_consumer_correct) 5
      (init_machine (\<lambda>_. 0)) m"
    using message.rounds_exist [where reset = message_reset, OF mp_quiet_init resets_ready(2)]
    unfolding message_producer_correct_def message_consumer_correct_def by blast
  then show ?thesis using message_passing_correct [OF m] by blast
qed

text \<open>
  Exercise 04, seq_cst: after any number of complete rounds no step of the next round is undefined,
  the assertion \<open>value == 42\<close> does not fail, and the round can run to its end from every state.
\<close>

lemma seqcst_version_correct:
  assumes "rounds test_version_reset (mp_test producer_seqcst consumer_seqcst) k (init_machine (\<lambda>_. 0)) m"
  shows "\<exists>m'. test_version_reset m = Ok m' \<and> mp_correct (mp_test producer_seqcst consumer_seqcst) m'"
  using assms mp_quiet_init resets_ready(3)
  unfolding producer_seqcst_def consumer_seqcst_def by (rule seqcst.rounds_correct)

lemma seqcst_version_correct_witness:
  "\<exists>m m'. rounds test_version_reset (mp_test producer_seqcst consumer_seqcst) 1 (init_machine (\<lambda>_. 0)) m \<and>
     test_version_reset m = Ok m' \<and> mp_correct (mp_test producer_seqcst consumer_seqcst) m'"
proof -
  obtain m where m: "rounds test_version_reset (mp_test producer_seqcst consumer_seqcst) 1
      (init_machine (\<lambda>_. 0)) m"
    using seqcst.rounds_exist [where reset = test_version_reset, OF mp_quiet_init resets_ready(3)]
    unfolding producer_seqcst_def consumer_seqcst_def by blast
  then show ?thesis using seqcst_version_correct [OF m] by blast
qed

text \<open>
  C14. Exercise 04, acquire/release, which main runs after the seq_cst test: whatever the rounds before,
  no step is undefined, the assertion \<open>value == 42\<close> does not fail although the data is stored and
  loaded with relaxed operations, and the round can run to its end from every state.
\<close>

theorem acqrel_version_correct:
  assumes "rounds test_version_reset (mp_test producer_seqcst consumer_seqcst) j (init_machine (\<lambda>_. 0)) m0"
    and "rounds test_version_reset (mp_test producer_acqrel consumer_acqrel) k m0 m"
  shows "\<exists>m'. test_version_reset m = Ok m' \<and> mp_correct (mp_test producer_acqrel consumer_acqrel) m'"
proof -
  have "mp_quiet m0"
    by (rule seqcst.rounds_quiet [OF assms(1) [unfolded producer_seqcst_def consumer_seqcst_def] mp_quiet_init])
      (use resets_ready(3) in fastforce)
  then show ?thesis using assms(2) resets_ready(3)
    unfolding producer_acqrel_def consumer_acqrel_def by (intro acqrel.rounds_correct)
qed

theorem acqrel_version_correct_witness:
  "\<exists>m0 m m'. rounds test_version_reset (mp_test producer_seqcst consumer_seqcst) 1 (init_machine (\<lambda>_. 0)) m0 \<and>
     rounds test_version_reset (mp_test producer_acqrel consumer_acqrel) 1 m0 m \<and>
     test_version_reset m = Ok m' \<and> mp_correct (mp_test producer_acqrel consumer_acqrel) m'"
proof -
  obtain m0 where m0: "rounds test_version_reset (mp_test producer_seqcst consumer_seqcst) 1
      (init_machine (\<lambda>_. 0)) m0"
    using seqcst.rounds_exist [where reset = test_version_reset, OF mp_quiet_init resets_ready(3)]
    unfolding producer_seqcst_def consumer_seqcst_def by blast
  have "mp_quiet m0"
    by (rule seqcst.rounds_quiet [OF m0 [unfolded producer_seqcst_def consumer_seqcst_def] mp_quiet_init])
      (use resets_ready(3) in fastforce)
  then obtain m where m: "rounds test_version_reset (mp_test producer_acqrel consumer_acqrel) 1 m0 m"
    using acqrel.rounds_exist [where reset = test_version_reset, OF _ resets_ready(3)]
    unfolding producer_acqrel_def consumer_acqrel_def by blast
  then show ?thesis using m0 acqrel_version_correct [OF m0 m] by blast
qed

text \<open>
  Exercise 00, part 5: the demo resets its objects, its threads never reach an undefined step,
  the consumer prints nothing but 42, and the demo can run to its end from every state.
\<close>

lemma demo_memory_ordering_correct:
  "\<exists>m. demo_memory_ordering_reset (init_machine (\<lambda>_. 0)) = Ok m \<and> mp_correct demo_memory_ordering m"
proof -
  obtain m where m: "demo_memory_ordering_reset (init_machine (\<lambda>_. 0)) = Ok m" "mp_ready m"
    using resets_ready(1) [OF mp_quiet_init] by blast
  then show ?thesis using acqrel.correct [OF m(2)] by (auto simp: demo_memory_ordering_def producer_def consumer_def)
qed

text \<open>
  Exercise 01, relaxed: the version marked as broken is undefined in every complete execution. A
  data race on \<open>message_data\<close> can be reached, and no execution without one reaches the end of the round.
\<close>

lemma message_broken_always_races:
  assumes "message_reset (init_machine (\<lambda>_. 0)) = Ok m"
  shows "always_races (mp_test message_producer_broken message_consumer_broken) m"
proof -
  have "mp_ready m" using resets_ready(2) [OF mp_quiet_init] assms by auto
  then show ?thesis
    using message_broken_never_joins message_broken_race [of m] unfolding always_races_def mp_ready_def by blast
qed

lemma message_main_runs:
  "(\<nexists>m. in_turn message_main (init_machine (\<lambda>_. 0)) m) \<and>
   (\<exists>m. message_reset (init_machine (\<lambda>_. 0)) = Ok m \<and>
      always_races (mp_test message_producer_broken message_consumer_broken) m) \<and>
   (\<exists>m. in_turn (drop 5 message_main) (init_machine (\<lambda>_. 0)) m)"
proof (intro conjI)
  obtain m where m: "message_reset (init_machine (\<lambda>_. 0)) = Ok m" using resets_ready(2) [OF mp_quiet_init] by blast
  note race = message_broken_always_races [OF m]
  have "message_main = test_ends message_reset (mp_test message_producer_broken message_consumer_broken) # tl message_main"
    by (simp add: message_main_def eval_nat_numeral)
  then show "\<nexists>m. in_turn message_main (init_machine (\<lambda>_. 0)) m"
    using races_never_end [where reset = message_reset, OF m race] in_turn.simps(2) by metis
  show "\<exists>m. message_reset (init_machine (\<lambda>_. 0)) = Ok m \<and>
      always_races (mp_test message_producer_broken message_consumer_broken) m" using m race by blast
  show "\<exists>m. in_turn (drop 5 message_main) (init_machine (\<lambda>_. 0)) m"
    using message.quiet_tests_end [where reset = message_reset and k = 5, OF mp_quiet_init resets_ready(2)]
    by (auto simp: message_main_def message_producer_correct_def message_consumer_correct_def)
qed

text \<open>
  C22. Part 4 of exercise 01 as a whole: main is undefined in every complete execution, as a data race on
  \<open>message_data\<close> can be reached in the first round of the broken version and no execution without one
  gets past that round. Without the loop of the broken version, the five rounds of the correct one run
  to their end.
\<close>

theorem message_main_verdict:
  "(\<nexists>m. in_turn message_main (init_machine (\<lambda>_. 0)) m) \<and>
   (\<exists>m. message_reset (init_machine (\<lambda>_. 0)) = Ok m \<and>
      always_races (mp_test message_producer_broken message_consumer_broken) m) \<and>
   (\<exists>m. in_turn (drop 5 message_main) (init_machine (\<lambda>_. 0)) m)"
  by (rule message_main_runs)

text \<open>
  Exercise 04, plain objects: the version marked as broken is undefined in every complete
  execution. The consumer's polls of \<open>flag_broken\<close> race with the producer's store.
\<close>

lemma broken_always_races:
  assumes "test_version_reset (init_machine (\<lambda>_. 0)) = Ok m"
  shows "always_races (mp_test producer_broken consumer_broken) m"
proof -
  have "mwf m" and "\<And>x. knows (cur m 0) x m"
    using resets_ready(3) [OF mp_quiet_init] assms by (auto simp: mp_ready_def)
  moreover have "value_of m FlagBroken = 0"
    using assms by (auto simp: test_version_reset_def outcome_simps value_of_def frame_simps dest: na_store_D(2))
  ultimately show ?thesis
    using broken_never_joins broken_race [of m] unfolding always_races_def by blast
qed

text \<open>
  C23. Exercise 04 as a whole: main is undefined in every complete execution, as a data race can be
  reached in its first test and no execution without one gets past the test. Without the three tests of
  the broken version the rest of main, the seq_cst and then the acquire/release test on the same
  objects, runs to its end.
\<close>

theorem ordering_main_verdict:
  "(\<nexists>m. in_turn ordering_main (init_machine (\<lambda>_. 0)) m) \<and>
   (\<exists>m. test_version_reset (init_machine (\<lambda>_. 0)) = Ok m \<and> always_races (mp_test producer_broken consumer_broken) m) \<and>
   (\<exists>m. in_turn (drop 3 ordering_main) (init_machine (\<lambda>_. 0)) m)"
proof (intro conjI)
  obtain m where m: "test_version_reset (init_machine (\<lambda>_. 0)) = Ok m"
    using resets_ready(3) [OF mp_quiet_init] by blast
  note race = broken_always_races [OF m]
  show "\<nexists>m. in_turn ordering_main (init_machine (\<lambda>_. 0)) m"
    using races_never_end [where reset = test_version_reset, OF m race] by (simp add: ordering_main_def numeral_3_eq_3)
  show "\<exists>m. test_version_reset (init_machine (\<lambda>_. 0)) = Ok m \<and> always_races (mp_test producer_broken consumer_broken) m"
    using m race by blast
  obtain m1 where m1: "test_ends test_version_reset (mp_test producer_seqcst consumer_seqcst) (init_machine (\<lambda>_. 0)) m1"
    "mp_quiet m1"
    using seqcst.quiet_test_ends [where reset = test_version_reset, OF mp_quiet_init resets_ready(3)]
    unfolding producer_seqcst_def consumer_seqcst_def by blast
  obtain m2 where "test_ends test_version_reset (mp_test producer_acqrel consumer_acqrel) m1 m2"
    using acqrel.quiet_test_ends [where reset = test_version_reset, OF m1(2) resets_ready(3)]
    unfolding producer_acqrel_def consumer_acqrel_def by blast
  then show "\<exists>m. in_turn (drop 3 ordering_main) (init_machine (\<lambda>_. 0)) m"
    using m1(1) by (auto simp: ordering_main_def)
qed

end
