(* ===== verification/Atomic_Counters.thy ===== *)
theory Atomic_Counters
  imports Bounded_Runs
begin

text \<open>
  Counters without a lock: the atomic counters of exercises 00, 01 and 03, whose threads increment
  with \<open>atomic_fetch_add\<close>, and the plain counters of exercises 00 and 01, whose increments race.

  A thread increments the object \<open>obj i\<close>: one counter for all of them, or, in exercise 03, one
  element of an array for each. The invariant says that each counter holds the number of
  increments done so far, wrapped to its width.
\<close>

section \<open>Threads that increment with \<open>atomic_fetch_add\<close>\<close>

datatype add_pc = AddLoop nat | AddRet

text \<open>
  \<open>for (int i = 0; i < iters; i++) atomic_fetch_add_explicit(&counter, 1, ord);\<close> where \<open>i\<close> runs from 0 to
  \<open>iters\<close> and does not overflow when \<open>iters\<close> is an \<open>int\<close>, as the constants of the sources are.
\<close>

fun fetch_add_worker :: "nat \<Rightarrow> memory_order \<Rightarrow> nat \<Rightarrow> 'l \<Rightarrow> tid \<Rightarrow> add_pc \<Rightarrow> ('l, int) machine \<Rightarrow>
    (add_pc \<times> ('l, int) machine) outcome" where
  "fetch_add_worker w ord iters x t (AddLoop k) m =
     (if k < iters then Ok (AddLoop (Suc k), snd (atomic_fetch_add w ord t x 1 m)) else Ok (AddRet, m))"
| "fetch_add_worker w ord iters x t AddRet m = Blocked"

definition fetch_add_prog :: "nat \<Rightarrow> memory_order \<Rightarrow> nat \<Rightarrow> nat \<Rightarrow> (nat \<Rightarrow> 'l) \<Rightarrow>
    (add_pc, 'l, int) thread_prog" where
  "fetch_add_prog w ord n iters obj =
     \<lparr>nthreads = n, jorder = [0..<n], entry = (\<lambda>_. AddLoop 0),
      tstep = (\<lambda>i c. fetch_add_worker w ord iters (obj i) (Suc i)), halted = (\<lambda>p. p = AddRet)\<rparr>"

fun added :: "nat \<Rightarrow> add_pc option \<Rightarrow> nat" where
  "added iters None = 0"
| "added iters (Some (AddLoop k)) = k"
| "added iters (Some AddRet) = iters"

definition total_added :: "nat \<Rightarrow> nat \<Rightarrow> (nat \<Rightarrow> 'l) \<Rightarrow> 'l \<Rightarrow> (nat \<Rightarrow> add_pc option) \<Rightarrow> nat" where
  "total_added n iters obj x L = (\<Sum>j<n. if obj j = x then added iters (L j) else 0)"

definition add_inv :: "nat \<Rightarrow> nat \<Rightarrow> nat \<Rightarrow> (nat \<Rightarrow> 'l) \<Rightarrow> ('l, int) machine \<Rightarrow> (nat \<Rightarrow> add_pc option) \<Rightarrow> bool" where
  "add_inv w n iters obj m L \<longleftrightarrow>
     (\<forall>i<n. value_of m (obj i) = signed_wrap w (int (total_added n iters obj (obj i) L)) \<and> rds m (obj i) = []) \<and>
     (\<forall>i k. L i = Some (AddLoop k) \<longrightarrow> k \<le> iters)"

definition add_ready :: "nat \<Rightarrow> nat \<Rightarrow> (nat \<Rightarrow> 'l) \<Rightarrow> ('l, int) machine \<Rightarrow> bool" where
  "add_ready w n obj m \<longleftrightarrow> mwf m \<and>
     (\<forall>i<n. value_of m (obj i) = signed_wrap w 0 \<and> rds m (obj i) = [] \<and> knows (cur m 0) (obj i) m)"

lemma total_added_upd:
  assumes "i < n"
  shows "total_added n iters obj x (L(i := p)) + (if obj i = x then added iters (L i) else 0) =
    total_added n iters obj x L + (if obj i = x then added iters p else 0)"
proof -
  let ?f = "\<lambda>j. if obj j = x then added iters (L j) else 0"
  have "(\<lambda>j. if obj j = x then added iters ((L(i := p)) j) else 0) =
      ?f(i := if obj i = x then added iters p else 0)" by auto
  then show ?thesis unfolding total_added_def
    using sum_upd_in [OF assms, of ?f "if obj i = x then added iters p else 0"] by (simp only:)
qed

lemma total_added_none [simp]: "total_added n iters obj x (\<lambda>_. None) = 0"
  by (simp add: total_added_def)

lemma add_inv_step:
  assumes inv: "add_inv w n iters obj m L" and L: "L i = Some (AddLoop k)" and lt: "i < n" "k < iters"
  shows "add_inv w n iters obj (snd (atomic_fetch_add w ord (Suc i) (obj i) 1 m)) (L(i \<mapsto> AddLoop (Suc k)))"
proof -
  let ?m = "snd (atomic_fetch_add w ord (Suc i) (obj i) 1 m)" and ?L = "L(i \<mapsto> AddLoop (Suc k))"
  have tot: "total_added n iters obj x ?L = total_added n iters obj x L + (if obj i = x then 1 else 0)" for x
    using total_added_upd [OF lt(1), of iters obj x L "Some (AddLoop (Suc k))"] L
    by (auto split: if_splits)
  have val: "value_of m (obj j) = signed_wrap w (int (total_added n iters obj (obj j) L))" if "j < n" for j
    using inv that by (simp add: add_inv_def)
  have "value_of ?m (obj j) = signed_wrap w (int (total_added n iters obj (obj j) ?L))" if "j < n" for j
  proof (cases "obj j = obj i")
    case True
    then show ?thesis using val [OF lt(1)]
      by (simp add: atomic_fetch_add_def frame_simps tot signed_wrap_add) (simp add: add.commute)
  next
    case False
    then have "value_of ?m (obj j) = value_of m (obj j)"
      by (simp add: atomic_fetch_add_def value_of_def frame_simps)
    then show ?thesis using val [OF that] False by (simp add: tot)
  qed
  then show ?thesis using inv lt(2)
    by (auto simp: add_inv_def atomic_fetch_add_def frame_simps)
qed

lemma add_inv_ret:
  assumes inv: "add_inv w n iters obj m L" and L: "L i = Some (AddLoop k)" and lt: "i < n" "\<not> k < iters"
  shows "add_inv w n iters obj m (L(i \<mapsto> AddRet))"
proof -
  have "k = iters" using inv L lt(2) by (fastforce simp: add_inv_def)
  then have "total_added n iters obj x (L(i \<mapsto> AddRet)) = total_added n iters obj x L" for x
    using total_added_upd [OF lt(1), of iters obj x L "Some AddRet"] L by (auto split: if_splits)
  then show ?thesis using inv by (simp add: add_inv_def)
qed

interpretation adds: fork_join "fetch_add_prog w ord n iters obj" "obj ` {..<n}" "add_ready w n obj"
  "add_inv w n iters obj" for w ord n iters and obj :: "nat \<Rightarrow> 'l"
proof (unfold_locales, goal_cases)
  case 1
  then show ?case by (auto simp: fetch_add_prog_def)
next
  case (2 m)
  then show ?case by (simp add: add_ready_def add_inv_def)
next
  case (3 m)
  then show ?case by (simp add: add_ready_def)
next
  case (4 m x)
  then show ?case by (auto simp: add_ready_def)
next
  case (5 m L i)
  then have "total_added n iters obj x (L(i \<mapsto> AddLoop 0)) = total_added n iters obj x L" for x
    using total_added_upd [of i n iters obj x L "Some (AddLoop 0)"]
    by (auto simp: fetch_add_prog_def split: if_splits)
  then show ?case using 5 by (auto simp: add_inv_def fetch_add_prog_def value_of_def frame_simps)
next
  case (6 m L i p)
  then show ?case by (auto simp: add_inv_def value_of_def frame_simps)
next
  case (7 m L i p c p' m')
  then show ?case using add_inv_step [OF 7(1)] add_inv_ret [OF 7(1)]
    by (cases p) (auto simp: fetch_add_prog_def split: if_splits)
next
  case (8 m L i p c p' m')
  then show ?case by (cases p) (auto simp: fetch_add_prog_def atomic_fetch_add_def split: if_splits)
next
  case (9 m L i p c p' m' key)
  then obtain x j where j: "key_of key = x" "j < n" "x = obj j" by auto
  have "untouched x m m' \<or> knows (cur m' (Suc i)) x m'"
  proof (cases p)
    case (AddLoop k)
    have "knows (cur (snd (atomic_rmw ord (Suc i) x f m)) (Suc i)) x (snd (atomic_rmw ord (Suc i) x f m))" for f
      using 9(1) j atomic_rmw_knows_writes by (simp add: knows_def add_inv_def frame_simps)
    moreover have "untouched x m (snd (atomic_rmw ord (Suc i) y f m))" if "y \<noteq> x" for y f
      using that by (simp add: untouched_def frame_simps)
    ultimately show ?thesis using 9(5) AddLoop
      by (cases "obj i = x") (auto simp: fetch_add_prog_def atomic_fetch_add_def split: if_splits)
  qed (use 9(5) in \<open>simp add: fetch_add_prog_def\<close>)
  then show ?case using j(1) by (rule tracked_keyI)
next
  case (10 m L i p c u)
  then show ?case by (cases p) (auto simp: fetch_add_prog_def)
next
  case (11 m i c p p' m')
  then show ?case
    by (cases p) (auto simp: fetch_add_prog_def atomic_fetch_add_def intro: mwf_intros split: if_splits)
qed

lemma add_solo:
  "k \<le> iters \<Longrightarrow> \<exists>m'. solo (fetch_add_prog w ord n iters obj) i (AddLoop k) m AddRet m'"
proof (induction "iters - k" arbitrary: k m)
  case 0
  then have "solo (fetch_add_prog w ord n iters obj) i (AddLoop k) m AddRet m"
    by (intro solo_one [where c = Tau]) (auto simp: fetch_add_prog_def)
  then show ?case by blast
next
  case (Suc d)
  let ?m = "snd (atomic_fetch_add w ord (Suc i) (obj i) 1 m)"
  have 1: "solo (fetch_add_prog w ord n iters obj) i (AddLoop k) m (AddLoop (Suc k)) ?m"
    using Suc.hyps(2) by (intro solo_one [where c = Tau]) (auto simp: fetch_add_prog_def)
  obtain m' where "solo (fetch_add_prog w ord n iters obj) i (AddLoop (Suc k)) ?m AddRet m'"
    using Suc.hyps(1) [of "Suc k"] Suc.hyps(2) by fastforce
  from solo_trans [OF 1 this] show ?case ..
qed

interpretation adds: fork_join_live "fetch_add_prog w ord n iters obj" "obj ` {..<n}" "add_ready w n obj"
  "add_inv w n iters obj" for w ord n iters and obj :: "nat \<Rightarrow> 'l"
proof (unfold_locales, goal_cases)
  case 1
  then show ?case by (auto simp: fetch_add_prog_def)
next
  case (2 m L)
  then obtain i where i: "i \<in> unfinished (fetch_add_prog w ord n iters obj) L" by blast
  then have "i \<in> dom L" using 2(3) by (simp add: unfinished_def)
  then obtain p where p: "L i = Some p" by blast
  then obtain k where k: "p = AddLoop k" using i by (cases p) (auto simp: unfinished_def fetch_add_prog_def)
  have "k \<le> iters" using 2(2) p k by (simp add: add_inv_def)
  then obtain m' where "solo (fetch_add_prog w ord n iters obj) i p m AddRet m'" using add_solo k by blast
  then show ?case using i p by (intro bexI [OF _ i]) (fastforce simp: fetch_add_prog_def)
qed

fun add_left :: "nat \<Rightarrow> add_pc \<Rightarrow> nat" where
  "add_left iters (AddLoop k) = iters - k + 1"
| "add_left iters AddRet = 0"

interpretation adds: fork_join_bounded "fetch_add_prog w ord n iters obj" "obj ` {..<n}" "add_ready w n obj"
  "add_inv w n iters obj" "\<lambda>m. add_left iters" for w ord n iters and obj :: "nat \<Rightarrow> 'l"
proof (unfold_locales, goal_cases)
  case (1 m L i p c p' m')
  then show ?case by (cases p) (auto simp: fetch_add_prog_def split: if_splits)
qed simp_all

lemma adds_end:
  assumes "reach (fj_step (fetch_add_prog w ord n iters obj)) (fj_init m) s" and "add_ready w n obj m"
  shows "ends_within (fetch_add_prog w ord n iters obj) (n * (iters + 3) + 2) s"
proof (rule adds.bounded_ends_le [OF assms adds.always_can_finish [OF _ assms(2)]])
  show "add_left iters (point (fetch_add_prog w ord n iters obj) (locals s) j) \<le> iters + 1" for j
    by (cases "point (fetch_add_prog w ord n iters obj) (locals s) j") auto
qed (simp_all add: fetch_add_prog_def algebra_simps)

text \<open>
  What an atomic counter promises, of every state a schedule can reach: no step is undefined, the
  program can still run to the end of main and every schedule gets there within a number of steps, and
  when main has joined the threads every value a load by main can return is the number of increments,
  wrapped to the width, and such a load succeeds.
\<close>

definition reads_only :: "('l, int) machine \<Rightarrow> 'l \<Rightarrow> int \<Rightarrow> bool" where
  "reads_only m x v \<longleftrightarrow>
     (\<forall>i a m'. atomic_load SeqCst 0 x i m = Ok (a, m') \<longrightarrow> a = v) \<and>
     (\<exists>i m'. atomic_load SeqCst 0 x i m = Ok (v, m'))"

definition adds_correct :: "nat \<Rightarrow> (nat \<Rightarrow> 'l) \<Rightarrow> (nat \<Rightarrow> int) \<Rightarrow> nat \<Rightarrow> (add_pc, 'l, int) thread_prog \<Rightarrow>
    ('l, int) machine \<Rightarrow> bool" where
  "adds_correct n obj count bound P m0 \<longleftrightarrow>
     (\<forall>s. reach (fj_step P) (fj_init m0) s \<longrightarrow>
        (\<forall>e u. fj_step P e s \<noteq> UB u) \<and> can_finish P s \<and> ends_within P bound s \<and>
        (mainpc s = Joined \<longrightarrow> (\<forall>i<n. reads_only (shared s) (obj i) (count i))))"

lemma knows_reads_only:
  assumes "mwf m" and "knows (cur m 0) x m"
  shows "reads_only m x (value_of m x)"
  using atomic_load_latest [OF knows_imp_writes [OF assms(2)]] atomic_load_last [OF assms(1)]
  unfolding reads_only_def by metis

lemma adds_final:
  assumes "reach (fj_step (fetch_add_prog w ord n iters obj)) (fj_init m0) s" and "add_ready w n obj m0"
    and "mainpc s = Joined" and i: "i < n"
  shows "value_of (shared s) (obj i) = signed_wrap w (int (card {j. j < n \<and> obj j = obj i} * iters))"
    and "knows (cur (shared s) 0) (obj i) (shared s)"
proof -
  note F = adds.finished [OF assms(1-3)]
  have "added iters (locals s j) = iters" if "j < n" for j
    using F(3) [of j] that by (auto simp: fetch_add_prog_def)
  then have "total_added n iters obj (obj i) (locals s) = (\<Sum>j<n. if obj j = obj i then iters else 0)"
    unfolding total_added_def by (intro sum.cong) auto
  also have "\<dots> = card {j. j < n \<and> obj j = obj i} * iters"
    by (simp add: sum.If_cases Int_def)
  finally show "value_of (shared s) (obj i) = signed_wrap w (int (card {j. j < n \<and> obj j = obj i} * iters))"
    using F(1) i by (simp add: add_inv_def)
  show "knows (cur (shared s) 0) (obj i) (shared s)" using F(2) i by simp
qed

lemma adds_correctI:
  assumes "add_ready w n obj m0"
  shows "adds_correct n obj (\<lambda>i. signed_wrap w (int (card {j. j < n \<and> obj j = obj i} * iters)))
    (n * (iters + 3) + 2) (fetch_add_prog w ord n iters obj) m0"
proof -
  let ?P = "fetch_add_prog w ord n iters obj"
  have "reads_only (shared s) (obj i) (signed_wrap w (int (card {j. j < n \<and> obj j = obj i} * iters)))"
    if s: "reach (fj_step ?P) (fj_init m0) s" and j: "mainpc s = Joined" and i: "i < n" for s i
    using knows_reads_only [OF adds.reach_mwf [OF s assms] adds_final(2) [OF s assms j i]]
      adds_final(1) [OF s assms j i] by simp
  then show ?thesis unfolding adds_correct_def
    using adds.thread_safe [OF _ assms] adds.always_can_finish [OF _ assms] adds_end [OF _ assms] by blast
qed

text \<open>The threads leave every other object alone, and main forgets nothing.\<close>

lemma adds_keep:
  assumes "reach (fj_step (fetch_add_prog w ord n iters obj)) (fj_init m0) s" and "y \<notin> range obj"
  shows "untouched y m0 (shared s) \<and> cur m0 0 \<le> cur (shared s) 0"
proof (rule fj_reach_shared [OF assms(1)])
  fix m i c p p' m' assume I: "untouched y m0 m \<and> cur m0 0 \<le> cur m 0"
  show "untouched y m0 (pthread_create 0 i m) \<and> cur m0 0 \<le> cur (pthread_create 0 i m) 0"
    using I by (cases "i = 0") (simp_all add: untouched_def frame_simps)
  show "untouched y m0 (pthread_join 0 i m) \<and> cur m0 0 \<le> cur (pthread_join 0 i m) 0"
    using I by (simp add: untouched_def frame_simps le_supI1)
  assume "tstep (fetch_add_prog w ord n iters obj) i c p m = Ok (p', m')"
  then have "m' = m \<or> m' = snd (atomic_rmw ord (Suc i) (obj i) (\<lambda>v. signed_wrap w (v + 1)) m)"
    by (cases p) (auto simp: fetch_add_prog_def atomic_fetch_add_def split: if_splits)
  moreover have "y \<noteq> obj i" using assms(2) by blast
  ultimately show "untouched y m0 m' \<and> cur m0 0 \<le> cur m' 0"
    using I grows_le [OF atomic_rmw_grows, of m 0] by (auto simp: untouched_def frame_simps intro: order.trans)
qed (simp add: untouched_def)

lemma add_ready_store:
  assumes "0 < w" and "mwf m" and "rds m x = []"
  shows "add_ready w n (\<lambda>_. x) (atomic_store ord 0 x 0 m)"
proof -
  have "signed_wrap w 0 = 0" using assms(1) by (intro signed_wrap_id) (simp_all add: signed_range_def)
  then show ?thesis using atomic_store_knows_writes [of ord 0 x 0 m] atomic_store_mwf [OF assms(2)] assms(3)
    by (simp add: add_ready_def frame_simps knows_def)
qed

text \<open>One counter for all threads, reset by main with an atomic store.\<close>

lemma shared_adds_correct:
  assumes "0 < w" and "mwf m" and "rds m x = []"
  shows "adds_correct n (\<lambda>_. x) (\<lambda>_. signed_wrap w (int (n * iters))) (n * (iters + 3) + 2)
    (fetch_add_prog w ord n iters (\<lambda>_. x)) (atomic_store SeqCst 0 x 0 m)"
  using adds_correctI [OF add_ready_store [OF assms], of n iters ord SeqCst] by simp

text \<open>
  The same as a test of main: it can end, and at the end main knows the counter, which holds the
  total, and has lost nothing it knew of the other objects.
\<close>

lemma shared_adds_test:
  fixes ord :: memory_order and iters :: nat
  assumes "0 < w" and "mwf m" and "rds m x = []" and "0 < n"
  defines "T \<equiv> test_ends (\<lambda>m. Ok (atomic_store SeqCst 0 x 0 m)) (fetch_add_prog w ord n iters (\<lambda>_. x))"
  shows "\<exists>m'. T m m'"
    and "T m m' \<Longrightarrow> mwf m' \<and> knows (cur m' 0) x m' \<and> value_of m' x = signed_wrap w (int (n * iters))"
    and "T m m' \<Longrightarrow> y \<noteq> x \<Longrightarrow> untouched y m m' \<and> cur m 0 \<le> cur m' 0"
proof -
  let ?m = "atomic_store SeqCst 0 x 0 m" and ?P = "fetch_add_prog w ord n iters (\<lambda>_. x)"
  have r: "add_ready w n (\<lambda>_. x) ?m" by (rule add_ready_store [OF assms(1-3)])
  show "\<exists>m'. T m m'" unfolding T_def
    by (rule can_finish_ends [where reset = "\<lambda>m. Ok (atomic_store SeqCst 0 x 0 m)", OF refl adds.always_can_finish [OF reach_refl r]])
  assume "T m m'"
  then obtain s where s: "reach (fj_step ?P) (fj_init ?m) s" "mainpc s = Joined" "m' = shared s"
    by (auto simp: T_def test_ends_def)
  show "mwf m' \<and> knows (cur m' 0) x m' \<and> value_of m' x = signed_wrap w (int (n * iters))"
    using adds_final [OF s(1) r s(2) assms(4)] adds.reach_mwf [OF s(1) r] by (simp add: s(3))
  show "untouched y m m' \<and> cur m 0 \<le> cur m' 0" if "y \<noteq> x"
    using adds_keep [OF s(1), of y] that grows_le [OF atomic_store_grows [of 0 m SeqCst x 0], of 0]
    by (auto simp: s(3) untouched_def frame_simps intro: order.trans)
qed

section \<open>Threads that increment a plain object\<close>

text \<open>\<open>counter++\<close> is a plain read, an addition and a plain write.\<close>

datatype plain_pc = PlainLoop nat | PlainWrite nat int | PlainRet

fun plain_worker :: "nat \<Rightarrow> nat \<Rightarrow> 'l \<Rightarrow> tid \<Rightarrow> plain_pc \<Rightarrow> ('l, int) machine \<Rightarrow>
    (plain_pc \<times> ('l, int) machine) outcome" where
  "plain_worker w iters x t (PlainLoop k) m =
     (if k < iters then obind (na_load t x m) (\<lambda>(v, m'). Ok (PlainWrite k v, m')) else Ok (PlainRet, m))"
| "plain_worker w iters x t (PlainWrite k v) m =
     obind (signed_add w v 1) (\<lambda>v'. obind (na_store t x v' m) (\<lambda>m'. Ok (PlainLoop (Suc k), m')))"
| "plain_worker w iters x t PlainRet m = Blocked"

definition plain_prog :: "nat \<Rightarrow> nat \<Rightarrow> nat \<Rightarrow> 'l \<Rightarrow> (plain_pc, 'l, int) thread_prog" where
  "plain_prog w n iters x =
     \<lparr>nthreads = n, jorder = [0..<n], entry = (\<lambda>_. PlainLoop 0),
      tstep = (\<lambda>i c. plain_worker w iters x (Suc i)), halted = (\<lambda>p. p = PlainRet)\<rparr>"

text \<open>A thread that has written the counter, or has left its loop after at least one round.\<close>

fun has_written :: "plain_pc \<Rightarrow> bool" where
  "has_written (PlainLoop k) = (0 < k)"
| "has_written (PlainWrite k v) = (0 < k)"
| "has_written PlainRet = True"

text \<open>
  Once a thread has written the counter, no other thread has seen the write, and neither has main as
  long as it is creating threads.
\<close>

definition plain_inv :: "nat \<Rightarrow> 'l \<Rightarrow> ('l, int) machine \<Rightarrow> (nat \<Rightarrow> plain_pc option) \<Rightarrow> bool" where
  "plain_inv n x m L \<longleftrightarrow> (\<forall>i p. L i = Some p \<longrightarrow> has_written p \<longrightarrow>
     (\<forall>j q. L j = Some q \<longrightarrow> j \<noteq> i \<longrightarrow> \<not> has_written q \<and> \<not> knows_writes (cur m (Suc j)) x m) \<and>
     (dom L \<noteq> {..<n} \<longrightarrow> \<not> knows_writes (cur m 0) x m))"

lemma plain_write_hides:
  assumes "mwf m" and "na_store t x v m = Ok m'" and "u \<noteq> t"
  shows "\<not> knows_writes (cur m' u) x m'"
proof -
  have "cur m' u = cur m u" using na_store_D(8) [OF assms(2)] assms(3) by (simp add: grows_def)
  moreover have "cur m u (W x) < length (hist m x)" using mwfD(1) [OF assms(1)] by (simp add: view_ok_def)
  ultimately show ?thesis using na_store_D(10) [OF assms(2)] by (simp add: knows_writes_def)
qed

lemma plain_inv_local:
  assumes inv: "plain_inv n x m L" and L: "L i = Some p" and same: "has_written p' = has_written p"
    and view: "\<And>u. knows_writes (cur m' u) x m' = knows_writes (cur m u) x m"
  shows "plain_inv n x m' (L(i \<mapsto> p'))"
proof -
  have "dom (L(i \<mapsto> p')) = dom L" using L by auto
  then show ?thesis using inv L same unfolding plain_inv_def view
    by (metis fun_upd_apply option.inject)
qed

lemma plain_fork:
  assumes inv: "plain_inv n x m L" and none: "L i = None" and dom: "dom L \<noteq> {..<n}"
  shows "plain_inv n x (pthread_create 0 (Suc i) m) (L(i \<mapsto> PlainLoop 0))"
  unfolding plain_inv_def
proof (intro allI impI)
  let ?m = "pthread_create 0 (Suc i) m"
  fix a p assume a: "(L(i \<mapsto> PlainLoop 0)) a = Some p" "has_written p"
  then have a': "L a = Some p" "a \<noteq> i" by (auto split: if_splits)
  note I = inv [unfolded plain_inv_def, rule_format, OF a'(1) a(2)]
  have kw: "knows_writes (cur ?m u) x ?m = knows_writes (cur m (if u = Suc i then 0 else u)) x m" for u
    by (simp add: knows_writes_def frame_simps)
  have "\<not> has_written q \<and> \<not> knows_writes (cur ?m (Suc j)) x ?m"
    if "(L(i \<mapsto> PlainLoop 0)) j = Some q" "j \<noteq> a" for j q
    using that I dom by (cases "j = i") (auto simp: kw)
  then show "(\<forall>j q. (L(i \<mapsto> PlainLoop 0)) j = Some q \<longrightarrow> j \<noteq> a \<longrightarrow>
        \<not> has_written q \<and> \<not> knows_writes (cur ?m (Suc j)) x ?m) \<and>
      (dom (L(i \<mapsto> PlainLoop 0)) \<noteq> {..<n} \<longrightarrow> \<not> knows_writes (cur ?m 0) x ?m)"
    using I dom by (simp add: kw)
qed

lemma plain_step:
  assumes "mwf m" and inv: "plain_inv n x m L" and L: "L i = Some p" and "1 \<le> iters"
    and st: "plain_worker w iters x (Suc i) p m = Ok (p', m')"
  shows "plain_inv n x m' (L(i \<mapsto> p'))"
proof (cases p)
  case (PlainLoop k)
  show ?thesis
  proof (cases "k < iters")
    case True
    then obtain v where v: "na_load (Suc i) x m = Ok (v, m')" "p' = PlainWrite k v"
      using st PlainLoop by (auto simp: outcome_simps)
    have "cur m' u (W x) = cur m u (W x)" for u
      using v(1) by (auto simp: na_load_def see_def view_simps split: if_splits)
    then have "knows_writes (cur m' u) x m' = knows_writes (cur m u) x m" for u
      using na_load_D(3) [OF v(1)] by (simp add: knows_writes_def)
    then show ?thesis using v(2) PlainLoop by (intro plain_inv_local [OF inv L]) simp_all
  next
    case False
    then show ?thesis using st PlainLoop assms(4) by (intro plain_inv_local [OF inv L]) auto
  qed
next
  case (PlainWrite k v)
  then obtain v' where st': "na_store (Suc i) x v' m = Ok m'" "p' = PlainLoop (Suc k)"
    using st by (auto simp: outcome_simps)
  note hide = plain_write_hides [OF assms(1) st'(1)]
  have "\<not> has_written q" if "L j = Some q" "j \<noteq> i" for j q
    using inv L that na_store_D(1) [OF st'(1)] unfolding plain_inv_def knows_def by blast
  then show ?thesis using st'(2) hide by (auto simp: plain_inv_def split: if_splits)
qed (use st in simp)

lemma plain_never_joins:
  assumes "mwf m0" and "2 \<le> n" and "1 \<le> iters"
    and s: "reach (fj_step (plain_prog w n iters x)) (fj_init m0) s"
  shows "mainpc s \<noteq> Joined"
proof
  let ?P = "plain_prog w n iters x"
  assume j: "mainpc s = Joined"
  have P: "nthreads ?P = n" "halted ?P = (\<lambda>p. p = PlainRet)" "jorder ?P = [0..<n]"
    by (simp_all add: plain_prog_def)
  have "fj_wf ?P s \<and> mwf (shared s) \<and> plain_inv n x (shared s) (locals s)"
  proof (rule fj_reach_linv [where linv = "plain_inv n x", OF s assms(1)], goal_cases)
    case 1
    then show ?case by (simp add: plain_inv_def)
  next
    case (2 m L i)
    have none: "L i = None" "dom L \<noteq> {..<n}" using 2(3,4) by (auto simp: P)
    have entry: "entry ?P i = PlainLoop 0" by (simp add: plain_prog_def)
    show ?case unfolding entry by (rule plain_fork [OF 2(2) none])
  next
    case (3 m L i p)
    have kw: "knows_writes (cur (pthread_join 0 (Suc i) m) (Suc j)) x (pthread_join 0 (Suc i) m) =
        knows_writes (cur m (Suc j)) x m" for j
      by (simp add: knows_writes_def frame_simps)
    show ?case using 3(1,3) unfolding plain_inv_def P kw by blast
  next
    case (4 m L i p c p' m')
    have "plain_worker w iters x (Suc i) p m = Ok (p', m')" using 4(5) by (simp add: plain_prog_def)
    moreover from this have "mwf m'"
      using 4(1) by (cases p) (auto simp: outcome_simps intro: mwf_intros split: if_splits)
    ultimately show ?case using plain_step [OF 4(1,2,3) assms(3)] by blast
  qed
  then have wf: "fj_wf ?P s" and inv: "plain_inv n x (shared s) (locals s)" by blast+
  have "locals s i = Some PlainRet" if "i < n" for i
    using fj_wf_created [OF wf j, of i] fj_wf_halted [OF wf j, of i] that by (auto simp: P)
  then have "locals s 0 = Some PlainRet" "locals s 1 = Some PlainRet" using assms(2) by auto
  then show False using inv unfolding plain_inv_def by (metis has_written.simps(3) zero_neq_one)
qed

lemma plain_race:
  assumes "mwf m0" and "knows (cur m0 0) x m0" and "value_of m0 x = 0" and "2 \<le> n" and "1 \<le> iters" and "2 \<le> w"
  shows "run (fj_step (plain_prog w n iters x))
    [MainStep, MainStep, ThreadStep 0 Tau, ThreadStep 0 Tau, ThreadStep 1 Tau] (fj_init m0) = UB DataRace"
proof -
  have "(1::int) < 2 ^ (w - 1)" using assms(6) by (intro one_less_power) auto
  moreover have "0 \<le> (2::int) ^ (w - 1)" by simp
  ultimately have "signed_add w 0 1 = Ok 1" by (simp add: signed_add_def signed_range_def)
  moreover have "knows_writes (cur m0 0) x m0" using assms(2) by (simp add: knows_def)
  moreover have "cur m0 0 (W x) < length (hist m0 x)" using mwfD(1) [OF assms(1)] by (simp add: view_ok_def)
  ultimately show ?thesis
    using assms(2-5)
    by (simp add: fj_init_def main_step_def plain_prog_def pthread_create_def na_load_def na_store_def
        knows_def knows_writes_def see_def view_simps value_of_def)
qed

lemma plain_always_races:
  assumes "2 \<le> n" and "1 \<le> iters" and "na_store 0 x 0 m0 = Ok m" and "2 \<le> w" and "mwf m0"
  shows "always_races (plain_prog w n iters x) m"
proof -
  note S = na_store_D [OF assms(3)]
  have m: "mwf m" by (rule na_store_mwf [OF assms(5,3)])
  show ?thesis unfolding always_races_def
    using plain_race [OF m S(9,2) assms(1,2,4)] plain_never_joins [OF m assms(1,2)] by blast
qed

end
