(* ===== verification/Quick_Review.thy ===== *)
theory Quick_Review
  imports Locked_Counter Atomic_Counters
begin

text \<open>
  Exercise 00, parts 1 to 4: results of joined threads, the racy counter, the counter under a mutex
  and the atomic counter, all of them \<open>int\<close> objects of 32 bits. Part 5, the message, is in
  \<open>Message_Passing\<close>.
\<close>

section \<open>Objects and constants\<close>

text \<open>\<open>shared_counter\<close>, \<open>mutex_counter\<close>, \<open>mutex\<close> and \<open>atomic_counter\<close>.\<close>

datatype qr_obj = QRShared | QRMutexCounter | QRMutex | QRAtomic

type_synonym qr_machine = "(qr_obj, int) machine"

definition THREADS :: nat where "THREADS = 4"

definition QR_ITERATIONS :: nat where "QR_ITERATIONS = 100000"

section \<open>Part 1: thread creation\<close>

text \<open>A thread is given its index and returns twice the index as its result; \<open>long\<close> has 64 bits.\<close>

datatype simple_pc = SimpleRun int | SimpleRet int

definition signed_mult :: "nat \<Rightarrow> int \<Rightarrow> int \<Rightarrow> int outcome" where
  "signed_mult w a b = (if signed_range w (a * b) then Ok (a * b) else UB SignedOverflow)"

fun simple_thread :: "simple_pc \<Rightarrow> qr_machine \<Rightarrow> (simple_pc \<times> qr_machine) outcome" where
  "simple_thread (SimpleRun tid) m = obind (signed_mult 64 tid 2) (\<lambda>r. Ok (SimpleRet r, m))"
| "simple_thread (SimpleRet r) m = Blocked"

definition demo_thread_creation :: "nat \<Rightarrow> (simple_pc, qr_obj, int) thread_prog" where
  "demo_thread_creation n =
     \<lparr>nthreads = n, jorder = [0..<n], entry = (\<lambda>i. SimpleRun (int i)),
      tstep = (\<lambda>i c. simple_thread), halted = (\<lambda>p. case p of SimpleRet r \<Rightarrow> True | _ \<Rightarrow> False)\<rparr>"

text \<open>The results main prints, in the order of the joins.\<close>

definition join_results :: "nat \<Rightarrow> (simple_pc, qr_obj, int) fj_state \<Rightarrow> simple_pc option list" where
  "join_results n s = map (locals s) [0..<n]"

section \<open>Parts 2 to 4: the counters\<close>

definition race_increment :: "nat \<Rightarrow> tid \<Rightarrow> plain_pc \<Rightarrow> qr_machine \<Rightarrow> (plain_pc \<times> qr_machine) outcome" where
  "race_increment iters = plain_worker 32 iters QRShared"

definition demo_race_reset :: "qr_machine \<Rightarrow> qr_machine outcome" where
  "demo_race_reset m = na_store 0 QRShared 0 m"

definition demo_race :: "nat \<Rightarrow> nat \<Rightarrow> (plain_pc, qr_obj, int) thread_prog" where
  "demo_race n iters =
     \<lparr>nthreads = n, jorder = [0..<n], entry = (\<lambda>_. PlainLoop 0),
      tstep = (\<lambda>i c. race_increment iters (Suc i)), halted = (\<lambda>p. p = PlainRet)\<rparr>"

definition mutex_increment :: "nat \<Rightarrow> tid \<Rightarrow> choice \<Rightarrow> unit counter_pc \<Rightarrow> qr_machine \<Rightarrow>
    (unit counter_pc \<times> qr_machine) outcome" where
  "mutex_increment iters = counter_worker 32 iters (mutex_ops QRMutex) QRMutexCounter"

definition demo_mutex_reset :: "qr_machine \<Rightarrow> qr_machine outcome" where
  "demo_mutex_reset m = na_store 0 QRMutexCounter 0 m"

definition demo_mutex :: "nat \<Rightarrow> nat \<Rightarrow> (unit counter_pc, qr_obj, int) thread_prog" where
  "demo_mutex n iters =
     \<lparr>nthreads = n, jorder = [0..<n], entry = (\<lambda>_. Loop 0),
      tstep = (\<lambda>i. mutex_increment iters (Suc i)), halted = (\<lambda>p. p = Returned)\<rparr>"

definition atomic_increment :: "nat \<Rightarrow> tid \<Rightarrow> add_pc \<Rightarrow> qr_machine \<Rightarrow> (add_pc \<times> qr_machine) outcome" where
  "atomic_increment iters = fetch_add_worker 32 SeqCst iters QRAtomic"

definition demo_atomic_reset :: "qr_machine \<Rightarrow> qr_machine" where
  "demo_atomic_reset m = atomic_store SeqCst 0 QRAtomic 0 m"

definition demo_atomic :: "nat \<Rightarrow> nat \<Rightarrow> (add_pc, qr_obj, int) thread_prog" where
  "demo_atomic n iters =
     \<lparr>nthreads = n, jorder = [0..<n], entry = (\<lambda>_. AddLoop 0),
      tstep = (\<lambda>i c. atomic_increment iters (Suc i)), halted = (\<lambda>p. p = AddRet)\<rparr>"

lemma demo_progs:
  "demo_race n iters = plain_prog 32 n iters QRShared"
  "demo_mutex n iters = counter_prog 32 n iters (mutex_ops QRMutex) QRMutexCounter"
  "demo_atomic n iters = fetch_add_prog 32 SeqCst n iters (\<lambda>_. QRAtomic)"
  by (simp_all add: demo_race_def plain_prog_def race_increment_def demo_mutex_def counter_prog_def
      mutex_increment_def demo_atomic_def fetch_add_prog_def atomic_increment_def)

section \<open>The demos satisfy the interfaces\<close>

interpretation qr_mutex: counter_lock "mutex_ops QRMutex" QRMutexCounter "owner_free QRMutex"
  "owner_held QRMutex" "owner_released QRMutex"
  by (rule mutex_counter_lock)

interpretation qr_mutex_main: counter_threads "mutex_ops QRMutex" QRMutexCounter "owner_free QRMutex"
  "owner_held QRMutex" "owner_released QRMutex" 32 THREADS QR_ITERATIONS
  by unfold_locales (simp add: THREADS_def QR_ITERATIONS_def)

lemma demo_mutex_threads:
  "int (n * iters) < 2 ^ 31 \<Longrightarrow> counter_threads (mutex_ops QRMutex) QRMutexCounter (owner_free QRMutex)
    (owner_held QRMutex) (owner_released QRMutex) 32 n iters"
  by unfold_locales simp

interpretation qr_mutex_main: blocking_counter "mutex_ops QRMutex" QRMutexCounter "owner_free QRMutex"
  "owner_held QRMutex" "owner_released QRMutex" 32 THREADS QR_ITERATIONS
  by unfold_locales (auto simp: mutex_ops_def outcome_simps)

lemma demo_mutex_blocking:
  assumes "int (n * iters) < 2 ^ 31"
  shows "blocking_counter (mutex_ops QRMutex) QRMutexCounter (owner_free QRMutex)
    (owner_held QRMutex) (owner_released QRMutex) 32 n iters"
  by (intro blocking_counter.intro demo_mutex_threads [OF assms] blocking_counter_axioms.intro)
    (auto simp: mutex_ops_def outcome_simps)

lemma demo_mutex_ready:
  assumes "demo_mutex_reset (init_machine (\<lambda>_. 0)) = Ok m"
  shows "counter_ready QRMutexCounter (owner_free QRMutex) m"
proof -
  note S = na_store_D [OF assms [unfolded demo_mutex_reset_def]]
  have "mwf m" using assms by (auto simp: demo_mutex_reset_def intro: mwf_intros)
  then show ?thesis using S(2,5,9) by (simp add: counter_ready_def owner_free_def)
qed

lemma demo_resets_ok:
  obtains m where "demo_mutex_reset (init_machine (\<lambda>_. 0)) = Ok m"
  using na_store_ok [of "init_machine (\<lambda>_. 0)" 0 QRMutexCounter 0] by (auto simp: demo_mutex_reset_def)

text \<open>The invariant of part 1: a thread that has returned has doubled its index, without overflow.\<close>

definition simple_inv :: "nat \<Rightarrow> (nat \<Rightarrow> simple_pc option) \<Rightarrow> bool" where
  "simple_inv n L \<longleftrightarrow> n < 2 ^ 62 \<and>
     (\<forall>i p. L i = Some p \<longrightarrow> i < n \<and> p \<in> {SimpleRun (int i), SimpleRet (2 * int i)})"

definition simple_ready :: "nat \<Rightarrow> qr_machine \<Rightarrow> bool" where
  "simple_ready n m \<longleftrightarrow> n < 2 ^ 62 \<and> mwf m \<and> (\<forall>x. knows (cur m 0) x m)"

lemma simple_step:
  assumes "simple_inv n L" and "L i = Some p" and "\<not> halted (demo_thread_creation n) p"
  shows "p = SimpleRun (int i)" and "tstep (demo_thread_creation n) i c p m = Ok (SimpleRet (2 * int i), m)"
proof -
  have i: "i < n" "n < 2 ^ 62" using assms(1,2) by (auto simp: simple_inv_def)
  have "p = SimpleRun (int i) \<or> p = SimpleRet (2 * int i)" using assms(1,2) by (simp add: simple_inv_def)
  then show p: "p = SimpleRun (int i)" using assms(3) by (auto simp: demo_thread_creation_def)
  have "int i < 2 ^ 62" using i by (simp add: less_imp_of_nat_less order.strict_trans)
  then show "tstep (demo_thread_creation n) i c p m = Ok (SimpleRet (2 * int i), m)"
    by (simp add: p demo_thread_creation_def signed_mult_def signed_range_def)
qed

interpretation simple: fork_join "demo_thread_creation n" UNIV "simple_ready n" "\<lambda>m. simple_inv n" for n
proof (unfold_locales, goal_cases)
  case (7 m L i p c p' m')
  then show ?case using simple_step(2) [OF 7(1,2,4), of c m] by (auto simp: simple_inv_def)
next
  case (8 m L i p c p' m')
  then show ?case using simple_step(2) [OF 8(1,2,4), of c m] by (simp add: grows_def)
next
  case (9 m L i p c p' m' k)
  then show ?case using simple_step(2) [OF 9(1,2,4), of c m] by simp
next
  case (10 m L i p c u)
  then show ?case using simple_step(2) [OF 10(1,2,4), of c m] by simp
next
  case (11 m i c p p' m')
  then show ?case by (cases p) (auto simp: demo_thread_creation_def outcome_simps)
qed (auto simp: simple_inv_def simple_ready_def demo_thread_creation_def)

interpretation simple: fork_join_live "demo_thread_creation n" UNIV "simple_ready n" "\<lambda>m. simple_inv n" for n
proof (unfold_locales, goal_cases)
  case (2 m L)
  obtain i p where i: "i < n" "L i = Some p" "\<not> halted (demo_thread_creation n) p"
    using 2(4,3) by (rule unfinishedE) (simp add: demo_thread_creation_def)
  have "solo (demo_thread_creation n) i p m (SimpleRet (2 * int i)) m"
    by (rule solo_one [OF i(3) simple_step(2) [OF 2(2) i(2,3), of Tau]]) simp
  moreover have "i \<in> unfinished (demo_thread_creation n) L"
    using i by (simp add: unfinished_def demo_thread_creation_def)
  ultimately show ?case using i(2) by (fastforce simp: demo_thread_creation_def)
qed (auto simp: demo_thread_creation_def)

fun simple_left :: "simple_pc \<Rightarrow> nat" where
  "simple_left (SimpleRun v) = 1"
| "simple_left (SimpleRet v) = 0"

interpretation simple: fork_join_bounded "demo_thread_creation n" UNIV "simple_ready n" "\<lambda>m. simple_inv n"
  "\<lambda>m. simple_left" for n
proof (unfold_locales, goal_cases)
  case (1 m L i p c p' m')
  then show ?case using simple_step(1) [OF 1(1,2,4)] simple_step(2) [OF 1(1,2,4), of c m] by simp
qed simp_all

lemma simple_ends:
  assumes "reach (fj_step (demo_thread_creation n)) (fj_init m) s" and "simple_ready n m"
  shows "ends_within (demo_thread_creation n) (3 * n + 2) s"
proof (rule simple.bounded_ends_le [OF assms simple.always_can_finish [OF _ assms(2)]])
  show "simple_left (point (demo_thread_creation n) (locals s) j) \<le> 1" for j
    by (cases "point (demo_thread_creation n) (locals s) j") simp_all
qed (simp_all add: demo_thread_creation_def)

lemma simple_ready_init: "n < 2 ^ 62 \<Longrightarrow> simple_ready n (init_machine (\<lambda>_. 0))"
  by (simp add: simple_ready_def mwf_init)

section \<open>The demos in the order of main\<close>

text \<open>The first four demos main runs; the fifth has objects of its own and is in \<open>Message_Passing\<close>.\<close>

definition quick_review_main :: "nat \<Rightarrow> nat \<Rightarrow> (qr_machine \<Rightarrow> qr_machine \<Rightarrow> bool) list" where
  "quick_review_main n iters =
     [test_ends Ok (demo_thread_creation n),
      test_ends demo_race_reset (demo_race n iters),
      test_ends demo_mutex_reset (demo_mutex n iters),
      test_ends (\<lambda>m. Ok (demo_atomic_reset m)) (demo_atomic n iters)]"

section \<open>Properties\<close>

text \<open>
  C33. Part 1: in every reachable state of \<open>demo_thread_creation\<close> with fewer than \<open>2 ^ 62\<close> threads no
  step is undefined and every schedule ends within three steps for each thread, and once main has
  joined the threads the results it has printed are \<open>0, 2, 4, ...\<close>, the double of each index, in the
  order of creation.
\<close>

theorem demo_thread_creation_results:
  assumes "n < 2 ^ 62" and "reach (fj_step (demo_thread_creation n)) (fj_init (init_machine (\<lambda>_. 0))) s"
  shows "fj_step (demo_thread_creation n) e s \<noteq> UB u \<and> ends_within (demo_thread_creation n) (3 * n + 2) s \<and>
    (mainpc s = Joined \<longrightarrow> join_results n s = map (\<lambda>i. Some (SimpleRet (2 * int i))) [0..<n])"
proof (intro conjI impI)
  note r = simple_ready_init [OF assms(1)]
  show "fj_step (demo_thread_creation n) e s \<noteq> UB u" by (rule simple.thread_safe [OF assms(2) r])
  show "ends_within (demo_thread_creation n) (3 * n + 2) s" by (rule simple_ends [OF assms(2) r])
  assume "mainpc s = Joined"
  note F = simple.finished [OF assms(2) r this]
  have "locals s i = Some (SimpleRet (2 * int i))" if lt: "i < n" for i
  proof -
    obtain p where p: "locals s i = Some p" "halted (demo_thread_creation n) p"
      using F(3) [of i] lt by (auto simp: demo_thread_creation_def)
    then have "p = SimpleRun (int i) \<or> p = SimpleRet (2 * int i)" using F(1) by (simp add: simple_inv_def)
    then show ?thesis using p by (auto simp: demo_thread_creation_def)
  qed
  then show "join_results n s = map (\<lambda>i. Some (SimpleRet (2 * int i))) [0..<n]" by (simp add: join_results_def)
qed

theorem demo_thread_creation_results_witness:
  "\<exists>s. reach (fj_step (demo_thread_creation 2)) (fj_init (init_machine (\<lambda>_. 0))) s \<and> mainpc s = Joined \<and>
     join_results 2 s = [Some (SimpleRet 0), Some (SimpleRet 2)]"
proof -
  let ?es = "[MainStep, MainStep, MainStep, ThreadStep 1 Tau, ThreadStep 0 Tau, MainStep, MainStep, MainStep]"
  obtain s where s: "run (fj_step (demo_thread_creation 2)) ?es (fj_init (init_machine (\<lambda>_. 0))) = Ok s"
    "mainpc s = Joined"
    by (simp add: demo_thread_creation_def fj_init_def main_step_def signed_mult_def signed_range_def
        numeral_2_eq_2)
  have r: "reach (fj_step (demo_thread_creation 2)) (fj_init (init_machine (\<lambda>_. 0))) s"
    by (rule run_reach [OF s(1)])
  have "(2::nat) < 2 ^ 62" by simp
  from demo_thread_creation_results [OF this r, of MainStep DataRace]
  have "join_results 2 s = [Some (SimpleRet 0), Some (SimpleRet 2)]"
    using s(2) by (simp add: upt_rec)
  then show ?thesis using r s(2) by blast
qed

text \<open>
  C25. The program as a whole: with at least two threads and one iteration, main is undefined in every
  complete execution. The first demo can end; whatever it leaves behind, a data race on
  \<open>shared_counter\<close> can then be reached in \<open>demo_race\<close>, and no execution without one gets past it.
\<close>

theorem quick_review_main_races:
  assumes "2 \<le> n" and "1 \<le> iters" and "n < 2 ^ 62"
  shows "(\<nexists>m. in_turn (quick_review_main n iters) (init_machine (\<lambda>_. 0)) m) \<and>
    (\<exists>m m'. test_ends Ok (demo_thread_creation n) (init_machine (\<lambda>_. 0)) m \<and> demo_race_reset m = Ok m' \<and>
       always_races (demo_race n iters) m')"
proof (intro conjI notI)
  note r = simple_ready_init [OF assms(3)]
  have race: "\<exists>m'. demo_race_reset m = Ok m' \<and> always_races (demo_race n iters) m'"
    if t: "test_ends Ok (demo_thread_creation n) (init_machine (\<lambda>_. 0)) m" for m
  proof -
    obtain s where s: "reach (fj_step (demo_thread_creation n)) (fj_init (init_machine (\<lambda>_. 0))) s"
      "mainpc s = Joined" "m = shared s" using t by (auto simp: test_ends_def)
    have m: "mwf m" "knows (cur m 0) QRShared m"
      using simple.reach_mwf [OF s(1) r] simple.finished(2) [OF s(1) r s(2)] s(3) by simp_all
    obtain m' where m': "na_store 0 QRShared 0 m = Ok m'" using na_store_ok [OF m(2)] by blast
    have "always_races (demo_race n iters) m'" unfolding demo_progs
      by (rule plain_always_races [OF assms(1,2) m' _ m(1)]) simp
    then show ?thesis using m' by (auto simp: demo_race_reset_def)
  qed
  then show "\<exists>m m'. test_ends Ok (demo_thread_creation n) (init_machine (\<lambda>_. 0)) m \<and> demo_race_reset m = Ok m' \<and>
       always_races (demo_race n iters) m'"
    using can_finish_ends [where reset = Ok, OF refl simple.always_can_finish [OF reach_refl r]] by blast
  assume "\<exists>m. in_turn (quick_review_main n iters) (init_machine (\<lambda>_. 0)) m"
  then obtain m m2 where "test_ends Ok (demo_thread_creation n) (init_machine (\<lambda>_. 0)) m"
    "test_ends demo_race_reset (demo_race n iters) m m2" by (auto simp: quick_review_main_def)
  then show False using race races_never_end by blast
qed

theorem quick_review_main_races_witness:
  "(2::nat) \<le> THREADS \<and> (\<nexists>m. in_turn (quick_review_main THREADS QR_ITERATIONS) (init_machine (\<lambda>_. 0)) m)"
  using quick_review_main_races [of THREADS QR_ITERATIONS] by (simp add: THREADS_def QR_ITERATIONS_def)

text \<open>
  C9. Part 3: for any number of threads and iterations whose product fits an \<open>int\<close>, every reachable
  state of \<open>demo_mutex\<close> has no undefined step, at most one thread inside the mutex and a schedule that
  finishes the demo, and at the end main reads exactly threads times iterations.
\<close>

theorem demo_mutex_correct:
  assumes "int (n * iters) < 2 ^ 31" and "demo_mutex_reset (init_machine (\<lambda>_. 0)) = Ok m"
  shows "counter_correct (demo_mutex n iters) QRMutexCounter (n * iters) m"
  using counter_threads.correct [OF demo_mutex_threads [OF assms(1)] demo_mutex_ready [OF assms(2)]]
  by (simp only: demo_progs)

theorem demo_mutex_correct_witness:
  "\<exists>m. demo_mutex_reset (init_machine (\<lambda>_. 0)) = Ok m \<and>
     counter_correct (demo_mutex THREADS QR_ITERATIONS) QRMutexCounter 400000 m"
proof -
  obtain m where "demo_mutex_reset (init_machine (\<lambda>_. 0)) = Ok m" by (rule demo_resets_ok)
  then show ?thesis using demo_mutex_correct [of THREADS QR_ITERATIONS m]
    by (auto simp: THREADS_def QR_ITERATIONS_def)
qed

text \<open>
  C12. Part 3 ends under every schedule: from every reachable state at most five steps for each thread and
  iteration, and a few more, are possible, whatever the scheduler does, and an execution that cannot
  go on has finished the demo.
\<close>

theorem demo_mutex_terminates:
  assumes "int (n * iters) < 2 ^ 31" and "demo_mutex_reset (init_machine (\<lambda>_. 0)) = Ok m"
    and "reach (fj_step (demo_mutex n iters)) (fj_init m) s"
  shows "ends_within (demo_mutex n iters) (n * (5 * iters + 3) + 2) s"
  using blocking_counter.ends [OF demo_mutex_blocking [OF assms(1)] assms(3) [unfolded demo_progs] demo_mutex_ready [OF assms(2)]]
  by (simp only: demo_progs)

theorem demo_mutex_terminates_witness:
  "\<exists>m. demo_mutex_reset (init_machine (\<lambda>_. 0)) = Ok m \<and>
     ends_within (demo_mutex THREADS QR_ITERATIONS) 2000014 (fj_init m)"
proof -
  obtain m where "demo_mutex_reset (init_machine (\<lambda>_. 0)) = Ok m" by (rule demo_resets_ok)
  then show ?thesis using demo_mutex_terminates [of THREADS QR_ITERATIONS m "fj_init m"]
    by (auto simp: THREADS_def QR_ITERATIONS_def reach_refl)
qed

text \<open>
  Part 4: \<open>demo_atomic\<close> with any number of threads and iterations has no undefined step and can
  finish from every reachable state and under every schedule, and at the end every value main can load is threads times
  iterations wrapped to 32 bits; at the constants of the source that is 400000.
\<close>

lemma demo_atomic_correct:
  "adds_correct n (\<lambda>_. QRAtomic) (\<lambda>_. signed_wrap 32 (int (n * iters))) (n * (iters + 3) + 2) (demo_atomic n iters)
     (demo_atomic_reset (init_machine (\<lambda>_. 0))) \<and>
   signed_wrap 32 (int (THREADS * QR_ITERATIONS)) = 400000"
  using shared_adds_correct [of 32 "init_machine (\<lambda>_. 0)" QRAtomic n iters SeqCst]
  by (auto simp: demo_progs demo_atomic_reset_def THREADS_def QR_ITERATIONS_def signed_wrap_def mwf_init)

end
