(* ===== verification/Benchmark.thy ===== *)
theory Benchmark
  imports Workshop_Prelude Complex_Main "HOL-Library.While_Combinator"
begin

text \<open>
  \<open>include/benchmark.h\<close>: time stamps, the timing macros, aligned allocation, performance counters and
  statistics.

  The system calls are parameters that act on an abstract world \<open>'w\<close>: the clock, \<open>posix_memalign\<close>,
  \<open>perf_event_open\<close>, \<open>ioctl\<close>, \<open>read\<close> and \<open>close\<close>. A macro that takes a block is a function of the
  block, a change of the world. Loops are \<open>while_option\<close>, whose value is \<open>None\<close> when the loop does not
  end. Doubles are real numbers with an explicit rounding function \<open>rnd\<close> after each operation.
\<close>

section \<open>Time stamps\<close>

record timespec =
  tv_sec :: int
  tv_nsec :: int

definition valid_timespec :: "timespec \<Rightarrow> bool" where
  "valid_timespec t \<longleftrightarrow> 0 \<le> tv_nsec t \<and> tv_nsec t < 1000000000"

text \<open>The exact time of a reading, and what \<open>get_nanos\<close> returns: unsigned arithmetic of 64 bits.\<close>

definition timespec_nanos :: "timespec \<Rightarrow> int" where
  "timespec_nanos t = tv_sec t * 1000000000 + tv_nsec t"

definition get_nanos :: "timespec \<Rightarrow> 64 word" where
  "get_nanos ts = word_of_int (tv_sec ts) * 1000000000 + word_of_int (tv_nsec ts)"

section \<open>Rounding\<close>

text \<open>
  IEEE double precision, round to nearest: relative error \<open>2 ^ -53\<close> and absolute error \<open>2 ^ -1075\<close> for
  results that do not overflow, and integers up to \<open>2 ^ 53\<close> are exact.
\<close>

definition double_rounding :: "(real \<Rightarrow> real) \<Rightarrow> bool" where
  "double_rounding rnd \<longleftrightarrow>
     (\<forall>x. \<bar>x\<bar> \<le> 2 ^ 1023 \<longrightarrow> \<bar>rnd x - x\<bar> \<le> \<bar>x\<bar> / 2 ^ 53 + 1 / 2 ^ 1075) \<and>
     (\<forall>k::int. \<bar>k\<bar> \<le> 2 ^ 53 \<longrightarrow> rnd (of_int k) = of_int k)"

text \<open>\<open>(end.tv_sec - start.tv_sec) + (end.tv_nsec - start.tv_nsec) / 1e9\<close>\<close>

definition elapsed_seconds :: "(real \<Rightarrow> real) \<Rightarrow> timespec \<Rightarrow> timespec \<Rightarrow> real" where
  "elapsed_seconds rnd t0 t1 =
     rnd (rnd (of_int (tv_sec t1 - tv_sec t0)) + rnd (rnd (of_int (tv_nsec t1 - tv_nsec t0)) / 1000000000))"

section \<open>The timing macros\<close>

text \<open>
  The conversion \<open>%.3f\<close> of \<open>printf\<close>: the number of thousandths nearest to the double, ties to even.
\<close>

definition printf_3f :: "real \<Rightarrow> int" where
  "printf_3f x =
     (let k = \<lfloor>x * 1000\<rfloor>; f = x * 1000 - of_int k
      in if f < 1 / 2 \<or> f = 1 / 2 \<and> even k then k else k + 1)"

text \<open>
  \<open>TIME_BLOCK\<close>: a \<open>for\<close> loop with the counter \<open>_i\<close>. The argument of \<open>printf\<close> is \<open>_elapsed / 1e6\<close>: the
  word is converted to a double, which rounds, and the quotient is rounded again. The parameter
  \<open>print\<close> writes the line with the label and the thousandths of a millisecond.
\<close>

record 'w time_block_state =
  tb_start :: "64 word"
  tb_elapsed :: "64 word"
  tb_i :: "64 word"
  tb_world :: 'w

definition millis :: "(real \<Rightarrow> real) \<Rightarrow> 64 word \<Rightarrow> real" where
  "millis rnd e = rnd (rnd (real (unat e)) / 1000000)"

definition TIME_BLOCK :: "(real \<Rightarrow> real) \<Rightarrow> ('w \<Rightarrow> timespec \<times> 'w) \<Rightarrow> (string \<Rightarrow> int \<Rightarrow> 'w \<Rightarrow> 'w) \<Rightarrow>
    string \<Rightarrow> ('w \<Rightarrow> 'w) \<Rightarrow> 'w \<Rightarrow> 'w time_block_state option" where
  "TIME_BLOCK rnd clock print label body w =
     (let (t0, w0) = clock w in
      while_option (\<lambda>s. tb_i s = 0)
        (\<lambda>s. let w1 = body (tb_world s); (t1, w2) = clock w1; e = get_nanos t1 - tb_start s
             in s\<lparr>tb_i := tb_i s + 1, tb_elapsed := e,
                  tb_world := print label (printf_3f (millis rnd e)) w2\<rparr>)
        \<lparr>tb_start = get_nanos t0, tb_elapsed = 0, tb_i = 0, tb_world = w0\<rparr>)"

text \<open>
  \<open>TIME_IT\<close>: the outer loop tests the status of \<open>clock_gettime\<close>; the inner one runs the block once and
  sets the variable. The state is what the last test of the outer loop has read.
\<close>

record 'w time_it_state =
  ti_status :: int
  ti_start :: timespec
  ti_elapsed :: "real option"
  ti_world :: 'w

definition TIME_IT_inner :: "(real \<Rightarrow> real) \<Rightarrow> ('w \<Rightarrow> int \<times> timespec \<times> 'w) \<Rightarrow> ('w \<Rightarrow> 'w) \<Rightarrow>
    'w time_it_state \<Rightarrow> 'w time_it_state" where
  "TIME_IT_inner rnd clock body s =
     (let w1 = body (ti_world s); (_, t1, w2) = clock w1
      in s\<lparr>ti_elapsed := Some (elapsed_seconds rnd (ti_start s) t1), ti_world := w2\<rparr>)"

definition TIME_IT_test :: "('w \<Rightarrow> int \<times> timespec \<times> 'w) \<Rightarrow> 'w time_it_state \<Rightarrow> 'w time_it_state" where
  "TIME_IT_test clock s =
     (let (status, t0, w') = clock (ti_world s) in s\<lparr>ti_status := status, ti_start := t0, ti_world := w'\<rparr>)"

definition TIME_IT :: "(real \<Rightarrow> real) \<Rightarrow> ('w \<Rightarrow> int \<times> timespec \<times> 'w) \<Rightarrow> ('w \<Rightarrow> 'w) \<Rightarrow>
    'w time_it_state \<Rightarrow> 'w time_it_state option" where
  "TIME_IT rnd clock body s =
     while_option (\<lambda>s. ti_status s = 0) (\<lambda>s. TIME_IT_test clock (TIME_IT_inner rnd clock body s))
       (TIME_IT_test clock s)"

section \<open>Aligned allocation\<close>

definition CACHE_LINE_SIZE :: nat where "CACHE_LINE_SIZE = 64"

text \<open>\<open>posix_memalign align size\<close> returns a status and the address it stores; \<open>NULL\<close> is 0.\<close>

definition cache_aligned_alloc :: "(nat \<Rightarrow> nat \<Rightarrow> 'w \<Rightarrow> int \<times> nat \<times> 'w) \<Rightarrow> nat \<Rightarrow> 'w \<Rightarrow> nat \<times> 'w" where
  "cache_aligned_alloc posix_memalign bytes w =
     (let (status, ptr, w') = posix_memalign CACHE_LINE_SIZE bytes w
      in if status \<noteq> 0 then (0, w') else (ptr, w'))"

section \<open>Performance counters\<close>

text \<open>The members of the attribute that are set; \<open>memset\<close> has cleared the others.\<close>

record perf_event_attr =
  pe_type :: "32 word"
  pe_size :: "32 word"
  pe_config :: "64 word"
  pe_disabled :: bool
  pe_exclude_kernel :: bool
  pe_exclude_hv :: bool

text \<open>The count of a counter that has never been read is indeterminate: \<open>None\<close>.\<close>

record perf_counter_t =
  pc_fd :: int
  pc_count :: "64 word option"

datatype ioctl_request = PERF_EVENT_IOC_RESET | PERF_EVENT_IOC_ENABLE | PERF_EVENT_IOC_DISABLE

text \<open>
  The size of the attribute, and the system calls: \<open>perf_event_open\<close> takes the attribute, the process,
  the processor, the group and the flags; \<open>sys_read\<close> takes the number of bytes and returns the value it
  stores, or nothing when it fails.
\<close>

record 'w perf_sys =
  sizeof_perf_event_attr :: "32 word"
  sys_perf_event_open :: "perf_event_attr \<Rightarrow> int \<Rightarrow> int \<Rightarrow> int \<Rightarrow> int \<Rightarrow> 'w \<Rightarrow> int \<times> 'w"
  sys_ioctl :: "int \<Rightarrow> ioctl_request \<Rightarrow> int \<Rightarrow> 'w \<Rightarrow> 'w"
  sys_read :: "int \<Rightarrow> nat \<Rightarrow> 'w \<Rightarrow> 64 word option \<times> 'w"
  sys_close :: "int \<Rightarrow> 'w \<Rightarrow> 'w"

definition perf_counter_init :: "'w perf_sys \<Rightarrow> 32 word \<Rightarrow> 64 word \<Rightarrow> perf_counter_t \<Rightarrow> 'w \<Rightarrow>
    int \<times> perf_counter_t \<times> 'w" where
  "perf_counter_init sys type config pc w =
     (let pe = \<lparr>pe_type = type, pe_size = sizeof_perf_event_attr sys, pe_config = config,
                pe_disabled = True, pe_exclude_kernel = True, pe_exclude_hv = True\<rparr>;
          (fd, w') = sys_perf_event_open sys pe 0 (- 1) (- 1) 0 w
      in (fd, pc\<lparr>pc_fd := fd\<rparr>, w'))"

definition perf_counter_start :: "'w perf_sys \<Rightarrow> perf_counter_t \<Rightarrow> 'w \<Rightarrow> 'w" where
  "perf_counter_start sys pc w =
     sys_ioctl sys (pc_fd pc) PERF_EVENT_IOC_ENABLE 0 (sys_ioctl sys (pc_fd pc) PERF_EVENT_IOC_RESET 0 w)"

definition perf_counter_stop :: "'w perf_sys \<Rightarrow> perf_counter_t \<Rightarrow> 'w \<Rightarrow> perf_counter_t \<times> 'w" where
  "perf_counter_stop sys pc w =
     (let (v, w') = sys_read sys (pc_fd pc) 8 (sys_ioctl sys (pc_fd pc) PERF_EVENT_IOC_DISABLE 0 w)
      in (case v of Some c \<Rightarrow> pc\<lparr>pc_count := Some c\<rparr> | None \<Rightarrow> pc, w'))"

definition perf_counter_close :: "'w perf_sys \<Rightarrow> perf_counter_t \<Rightarrow> 'w \<Rightarrow> 'w" where
  "perf_counter_close sys pc w = sys_close sys (pc_fd pc) w"

text \<open>
  \<open>MEASURE_CACHE_MISSES\<close>: one round of the two inner loops opens and starts a counter, runs the block,
  stops and reads the counter, sets the variable and closes the counter. The outer loop is
  \<open>for (perf_counter_t pc;;)\<close>. \<open>PERF_TYPE_HARDWARE\<close> is 0 and \<open>PERF_COUNT_HW_CACHE_MISSES\<close> is 3.
\<close>

record 'w measure_state =
  ms_pc :: perf_counter_t
  ms_var :: "64 word option"
  ms_world :: 'w

definition MEASURE_round :: "'w perf_sys \<Rightarrow> ('w \<Rightarrow> 'w) \<Rightarrow> 'w measure_state \<Rightarrow> 'w measure_state" where
  "MEASURE_round sys body s =
     (let (_, pc1, w1) = perf_counter_init sys 0 3 (ms_pc s) (ms_world s);
          w2 = body (perf_counter_start sys pc1 w1);
          (pc2, w3) = perf_counter_stop sys pc1 w2
      in \<lparr>ms_pc = pc2, ms_var = pc_count pc2, ms_world = perf_counter_close sys pc2 w3\<rparr>)"

definition MEASURE_CACHE_MISSES :: "'w perf_sys \<Rightarrow> ('w \<Rightarrow> 'w) \<Rightarrow> 'w measure_state \<Rightarrow> 'w measure_state option" where
  "MEASURE_CACHE_MISSES sys body s = while_option (\<lambda>_. True) (MEASURE_round sys body) s"

text \<open>
  What the manual of \<open>perf_event_open\<close> promises. Every world has a table of its open counters: the
  attribute, whether the counter is enabled, and its count. A call that fails returns a negative
  descriptor; reading from one fails. While a block runs, each enabled counter counts the events its
  attribute describes; \<open>happened pe w\<close> is their number when the block starts in the world \<open>w\<close>.
\<close>

type_synonym perf_entry = "perf_event_attr \<times> bool \<times> 64 word"

type_synonym perf_table = "int \<rightharpoonup> perf_entry"

fun ioctl_effect :: "ioctl_request \<Rightarrow> perf_entry \<Rightarrow> perf_entry" where
  "ioctl_effect PERF_EVENT_IOC_RESET (pe, on, c) = (pe, on, 0)"
| "ioctl_effect PERF_EVENT_IOC_ENABLE (pe, on, c) = (pe, True, c)"
| "ioctl_effect PERF_EVENT_IOC_DISABLE (pe, on, c) = (pe, False, c)"

definition counted :: "(perf_event_attr \<Rightarrow> 'w \<Rightarrow> 64 word) \<Rightarrow> 'w \<Rightarrow> perf_entry \<Rightarrow> perf_entry" where
  "counted happened w = (\<lambda>(pe, on, c). (pe, on, if on then c + happened pe w else c))"

definition perf_kernel :: "'w perf_sys \<Rightarrow> ('w \<Rightarrow> perf_table) \<Rightarrow> ('w \<Rightarrow> 'w) \<Rightarrow>
    (perf_event_attr \<Rightarrow> 'w \<Rightarrow> 64 word) \<Rightarrow> bool" where
  "perf_kernel sys tab body happened \<longleftrightarrow>
     (\<forall>w fd. fd < 0 \<longrightarrow> tab w fd = None) \<and>
     (\<forall>pe w fd w'. sys_perf_event_open sys pe 0 (- 1) (- 1) 0 w = (fd, w') \<longrightarrow>
        (if fd < 0 then tab w' = tab w
         else tab w fd = None \<and> tab w' = (tab w)(fd \<mapsto> (pe, \<not> pe_disabled pe, 0)))) \<and>
     (\<forall>fd q w. tab (sys_ioctl sys fd q 0 w) = (tab w)(fd := map_option (ioctl_effect q) (tab w fd))) \<and>
     (\<forall>fd w pe on c. tab w fd = Some (pe, on, c) \<longrightarrow> fst (sys_read sys fd 8 w) = Some c) \<and>
     (\<forall>fd w. fd < 0 \<longrightarrow> fst (sys_read sys fd 8 w) = None) \<and>
     (\<forall>fd w. tab (snd (sys_read sys fd 8 w)) = tab w) \<and>
     (\<forall>fd w. tab (sys_close sys fd w) = (tab w)(fd := None)) \<and>
     (\<forall>w fd. tab (body w) fd = map_option (counted happened w) (tab w fd))"

text \<open>The event to be counted: cache misses of the process in user mode.\<close>

definition cache_miss_attr :: "'w perf_sys \<Rightarrow> perf_event_attr" where
  "cache_miss_attr sys = \<lparr>pe_type = 0, pe_size = sizeof_perf_event_attr sys, pe_config = 3,
     pe_disabled = True, pe_exclude_kernel = True, pe_exclude_hv = True\<rparr>"

section \<open>Statistics\<close>

record stats_t =
  st_sum :: real
  st_sum_sq :: real
  st_count :: "64 word"
  st_min :: real
  st_max :: real

definition stats_init :: "(real \<Rightarrow> real) \<Rightarrow> stats_t" where
  "stats_init rnd =
     \<lparr>st_sum = 0, st_sum_sq = 0, st_count = 0, st_min = rnd (10 ^ 300), st_max = - rnd (10 ^ 300)\<rparr>"

definition stats_add :: "(real \<Rightarrow> real) \<Rightarrow> real \<Rightarrow> stats_t \<Rightarrow> stats_t" where
  "stats_add rnd v s =
     \<lparr>st_sum = rnd (st_sum s + v), st_sum_sq = rnd (st_sum_sq s + rnd (v * v)), st_count = st_count s + 1,
      st_min = (if v < st_min s then v else st_min s), st_max = (if v > st_max s then v else st_max s)\<rparr>"

definition stats_mean :: "(real \<Rightarrow> real) \<Rightarrow> stats_t \<Rightarrow> real" where
  "stats_mean rnd s = (if st_count s > 0 then rnd (st_sum s / rnd (real (unat (st_count s)))) else 0)"

definition stats_variance :: "(real \<Rightarrow> real) \<Rightarrow> stats_t \<Rightarrow> real" where
  "stats_variance rnd s =
     (let mean = stats_mean rnd s
      in rnd (rnd (st_sum_sq s / rnd (real (unat (st_count s)))) - rnd (mean * mean)))"

definition stats_stddev :: "(real \<Rightarrow> real) \<Rightarrow> stats_t \<Rightarrow> real" where
  "stats_stddev rnd s =
     (if st_count s < 2 then 0
      else let variance = stats_variance rnd s in if variance > 0 then rnd (sqrt variance) else 0)"

text \<open>What \<open>stats_print\<close> prints: mean, deviation, minimum and maximum in milliseconds, and the count.\<close>

definition stats_print :: "(real \<Rightarrow> real) \<Rightarrow> stats_t \<Rightarrow> real list \<times> nat" where
  "stats_print rnd s =
     ([rnd (stats_mean rnd s * 1000), rnd (stats_stddev rnd s * 1000), rnd (st_min s * 1000), rnd (st_max s * 1000)],
      unat (st_count s))"

definition stats_of :: "(real \<Rightarrow> real) \<Rightarrow> real list \<Rightarrow> stats_t" where
  "stats_of rnd vs = fold (stats_add rnd) vs (stats_init rnd)"

section \<open>Lemmas\<close>

lemma get_nanos_of_int: "get_nanos t = word_of_int (timespec_nanos t)"
  by (simp add: get_nanos_def timespec_nanos_def)

lemma get_nanos_diff:
  assumes "0 \<le> timespec_nanos t1 - timespec_nanos t0" and "timespec_nanos t1 - timespec_nanos t0 < 2 ^ 64"
  shows "uint (get_nanos t1 - get_nanos t0) = timespec_nanos t1 - timespec_nanos t0"
proof -
  have "get_nanos t1 - get_nanos t0 = word_of_int (timespec_nanos t1 - timespec_nanos t0)"
    by (simp add: get_nanos_of_int)
  then show ?thesis using assms by (simp only: uint_word_of_int) (simp add: mod_pos_pos_trivial)
qed

lemma printf_3f_nearest: "\<bar>of_int (printf_3f x) - x * 1000\<bar> \<le> 1 / 2"
  using floor_correct [of "x * 1000"] by (auto simp: printf_3f_def Let_def abs_le_iff)

lemma while_option_forever:
  assumes "b s" and "\<And>s. b s \<Longrightarrow> b (c s)"
  shows "while_option b c s = None"
proof -
  have "b ((c ^^ k) s)" for k using assms by (induction k) auto
  then show ?thesis by (simp add: while_option_def)
qed

lemma TIME_IT_test_status: "ti_status (TIME_IT_test clock s) = fst (clock (ti_world s))"
  by (simp add: TIME_IT_test_def split_def Let_def)

lemma double_roundingD:
  assumes "double_rounding rnd"
  shows "\<bar>x\<bar> \<le> 2 ^ 1023 \<Longrightarrow> \<bar>rnd x - x\<bar> \<le> \<bar>x\<bar> / 2 ^ 53 + 1 / 2 ^ 1075"
    and "\<bar>k\<bar> \<le> 2 ^ 53 \<Longrightarrow> rnd (of_int k) = of_int k"
  using assms by (auto simp: double_rounding_def)

lemma id_double_rounding: "double_rounding (\<lambda>x. x)"
  by (simp add: double_rounding_def)

text \<open>Two roundings of a number of nanoseconds below \<open>2 ^ 64\<close>, in thousandths.\<close>

lemma millis_accurate:
  assumes "double_rounding rnd"
  shows "\<bar>millis rnd e * 1000 - real (unat e) / 1000\<bar> \<le> (real (unat e) / 1000 + 1) / 2 ^ 51"
proof -
  define x a b where "x = real (unat e)" and "a = rnd x" and "b = rnd (a / 1000000)"
  have "unat e < 2 ^ LENGTH(64)" by (rule unsigned_less)
  then have "real (unat e) < real (2 ^ LENGTH(64))" by (simp only: of_nat_less_iff)
  then have "x \<le> 2 ^ 64" by (simp add: x_def)
  moreover have "0 \<le> x" unfolding x_def by (rule of_nat_0_le_iff)
  ultimately have x: "0 \<le> x" "x \<le> 2 ^ 64" by blast+
  have eta: "(1::real) / 2 ^ 1075 \<le> 1 / 2 ^ 100" by (intro divide_left_mono power_increasing) simp_all
  have big: "(2::real) ^ 70 \<le> 2 ^ 1023" by (intro power_increasing) simp_all
  have "\<bar>x\<bar> \<le> 2 ^ 1023" using x big by simp
  from double_roundingD(1) [OF assms this] have a: "\<bar>a - x\<bar> \<le> x / 2 ^ 53 + 1 / 2 ^ 100"
    using x(1) eta by (simp add: a_def)
  moreover have "x / 2 ^ 53 + 1 / 2 ^ 100 \<le> 2 ^ 12" using x(2) by simp
  ultimately have "\<bar>a\<bar> \<le> 2 ^ 65" using x by simp
  then have "\<bar>a / 1000000\<bar> \<le> 2 ^ 1023" using big by simp
  from double_roundingD(1) [OF assms this]
  have b: "\<bar>b - a / 1000000\<bar> \<le> \<bar>a\<bar> / 1000000 / 2 ^ 53 + 1 / 2 ^ 100" using eta by (simp add: b_def)
  have "\<bar>a\<bar> \<le> x + (x / 2 ^ 53 + 1 / 2 ^ 100)" using a x(1) by linarith
  moreover have "\<bar>b * 1000 - x / 1000\<bar> \<le> 1000 * \<bar>b - a / 1000000\<bar> + \<bar>a - x\<bar> / 1000"
    using abs_triangle_ineq [of "1000 * (b - a / 1000000)" "(a - x) / 1000"] by (simp add: field_simps abs_mult)
  ultimately have "\<bar>b * 1000 - x / 1000\<bar> \<le> (x / 1000 + 1) / 2 ^ 51" using a b x by simp
  then show ?thesis unfolding x_def a_def b_def millis_def .
qed

lemma perf_kernelD:
  assumes "perf_kernel sys tab body happened"
  shows "fd < 0 \<Longrightarrow> tab w fd = None"
    and "sys_perf_event_open sys pe 0 (- 1) (- 1) 0 w = (fd, w') \<Longrightarrow> fd < 0 \<Longrightarrow> tab w' = tab w"
    and "sys_perf_event_open sys pe 0 (- 1) (- 1) 0 w = (fd, w') \<Longrightarrow> 0 \<le> fd \<Longrightarrow>
      tab w fd = None \<and> tab w' = (tab w)(fd \<mapsto> (pe, \<not> pe_disabled pe, 0))"
    and "tab (sys_ioctl sys fd q 0 w) = (tab w)(fd := map_option (ioctl_effect q) (tab w fd))"
    and "tab w fd = Some (pe, on, c) \<Longrightarrow> fst (sys_read sys fd 8 w) = Some c"
    and "fd < 0 \<Longrightarrow> fst (sys_read sys fd 8 w) = None"
    and "tab (snd (sys_read sys fd 8 w)) = tab w"
    and "tab (sys_close sys fd w) = (tab w)(fd := None)"
    and "tab (body w) fd = map_option (counted happened w) (tab w fd)"
  using assms unfolding perf_kernel_def by (metis linorder_not_less)+

text \<open>A round, with the call that opens its counter.\<close>

lemma MEASURE_round_open:
  fixes body :: "'w \<Rightarrow> 'w"
  assumes "sys_perf_event_open sys (cache_miss_attr sys) 0 (- 1) (- 1) 0 (ms_world s) = (fd, w)"
  defines "w2 \<equiv> sys_ioctl sys fd PERF_EVENT_IOC_ENABLE 0 (sys_ioctl sys fd PERF_EVENT_IOC_RESET 0 w)"
  defines "w3 \<equiv> sys_ioctl sys fd PERF_EVENT_IOC_DISABLE 0 (body w2)"
  shows "ms_var (MEASURE_round sys body s) =
      (case fst (sys_read sys fd 8 w3) of Some c \<Rightarrow> Some c | None \<Rightarrow> pc_count (ms_pc s))"
    and "ms_world (MEASURE_round sys body s) = sys_close sys fd (snd (sys_read sys fd 8 w3))"
  using assms(1) unfolding w2_def w3_def
  by (simp_all add: MEASURE_round_def perf_counter_init_def perf_counter_start_def perf_counter_stop_def
      perf_counter_close_def cache_miss_attr_def Let_def split_beta split: option.splits)

lemma measure_round_var:
  assumes "perf_kernel sys tab body happened"
    and "sys_perf_event_open sys (cache_miss_attr sys) 0 (- 1) (- 1) 0 (ms_world s) = (fd, w)"
  shows "ms_var (MEASURE_round sys body s) =
      (if 0 \<le> fd
       then Some (happened (cache_miss_attr sys)
         (sys_ioctl sys fd PERF_EVENT_IOC_ENABLE 0 (sys_ioctl sys fd PERF_EVENT_IOC_RESET 0 w)))
       else pc_count (ms_pc s))"
proof (cases "0 \<le> fd")
  case True
  note K = perf_kernelD [OF assms(1)]
  let ?w2 = "sys_ioctl sys fd PERF_EVENT_IOC_ENABLE 0 (sys_ioctl sys fd PERF_EVENT_IOC_RESET 0 w)"
  have "tab ?w2 fd = Some (cache_miss_attr sys, True, 0)" using K(3) [OF assms(2) True] by (simp add: K(4))
  then have "tab (sys_ioctl sys fd PERF_EVENT_IOC_DISABLE 0 (body ?w2)) fd =
      Some (cache_miss_attr sys, False, happened (cache_miss_attr sys) ?w2)"
    by (simp add: K(4,9) counted_def)
  from K(5) [OF this] show ?thesis using True by (simp add: MEASURE_round_open(1) [OF assms(2)])
next
  case False
  then show ?thesis using perf_kernelD(6) [OF assms(1)] by (simp add: MEASURE_round_open(1) [OF assms(2)])
qed

lemma measure_round_closes:
  assumes "perf_kernel sys tab body happened"
  shows "dom (tab (ms_world (MEASURE_round sys body s))) = dom (tab (ms_world s))"
proof -
  note K = perf_kernelD [OF assms]
  obtain fd w where o: "sys_perf_event_open sys (cache_miss_attr sys) 0 (- 1) (- 1) 0 (ms_world s) = (fd, w)"
    by fastforce
  have keep: "dom (tab (sys_ioctl sys fd q 0 v)) = dom (tab v)" "dom (tab (body v)) = dom (tab v)" for q v
    by (simp_all add: K(4,9) dom_def fun_eq_iff set_eq_iff del: not_None_eq)
  have "dom (tab (ms_world (MEASURE_round sys body s))) = dom (tab w) - {fd}"
    by (simp add: MEASURE_round_open(2) [OF o] K(7,8) keep)
  also have "\<dots> = dom (tab (ms_world s))"
  proof (cases "0 \<le> fd")
    case True
    then show ?thesis using K(3) [OF o] by auto
  next
    case False
    then show ?thesis using K(1) [of fd "ms_world s"] K(2) [OF o] by auto
  qed
  finally show ?thesis .
qed

text \<open>The accumulated fields, for a list of samples added in order.\<close>

lemma stats_of_snoc: "stats_of rnd (vs @ [v]) = stats_add rnd v (stats_of rnd vs)"
  by (simp add: stats_of_def)

lemma stats_of_Nil: "stats_of rnd [] = stats_init rnd"
  by (simp add: stats_of_def)

lemma stats_of_count: "st_count (stats_of rnd vs) = of_nat (length vs)"
  by (induction vs rule: rev_induct) (simp_all add: stats_of_snoc stats_of_Nil stats_init_def stats_add_def)

lemma stats_of_min: "st_min (stats_of rnd vs) = fold min vs (rnd (10 ^ 300))"
  by (induction vs rule: rev_induct)
    (auto simp: stats_of_snoc stats_of_Nil stats_init_def stats_add_def min_def)

lemma stats_of_max: "st_max (stats_of rnd vs) = fold max vs (- rnd (10 ^ 300))"
  by (induction vs rule: rev_induct)
    (auto simp: stats_of_snoc stats_of_Nil stats_init_def stats_add_def max_def)

lemma stats_of_exact:
  "st_sum (stats_of (\<lambda>x. x) vs) = sum_list vs"
  "st_sum_sq (stats_of (\<lambda>x. x) vs) = sum_list (map (\<lambda>v. v * v) vs)"
  by (induction vs rule: rev_induct) (simp_all add: stats_of_snoc stats_of_Nil stats_init_def stats_add_def)

lemma fold_min_Min:
  fixes b :: real
  assumes "vs \<noteq> []" and "\<forall>v\<in>set vs. v \<le> b"
  shows "fold min vs b = Min (set vs)"
proof -
  have "fold min vs b = Min (insert b (set vs))" using Min.set_eq_fold [of b vs] by simp
  also have "\<dots> = min b (Min (set vs))" using assms(1) by simp
  also have "\<dots> = Min (set vs)" using assms Min_in [of "set vs"] by (intro min_absorb2) auto
  finally show ?thesis .
qed

lemma fold_max_Max:
  fixes b :: real
  assumes "vs \<noteq> []" and "\<forall>v\<in>set vs. b \<le> v"
  shows "fold max vs b = Max (set vs)"
proof -
  have "fold max vs b = Max (insert b (set vs))" using Max.set_eq_fold [of b vs] by simp
  also have "\<dots> = max b (Max (set vs))" using assms(1) by simp
  also have "\<dots> = Max (set vs)" using assms Max_in [of "set vs"] by (intro max_absorb2) auto
  finally show ?thesis .
qed

text \<open>The identity behind \<open>stats_stddev\<close>: mean of squares minus square of the mean.\<close>

lemma sum_sq_dev:
  fixes c :: real
  shows "sum_list (map (\<lambda>v. (v - c)\<^sup>2) vs) =
    sum_list (map (\<lambda>v. v * v) vs) - 2 * c * sum_list vs + real (length vs) * c\<^sup>2"
  by (induction vs) (simp_all add: power2_eq_square algebra_simps)

lemma variance_identity:
  fixes vs :: "real list"
  assumes "vs \<noteq> []"
  defines "n \<equiv> real (length vs)"
  shows "sum_list (map (\<lambda>v. v * v) vs) / n - (sum_list vs / n) * (sum_list vs / n) =
    sum_list (map (\<lambda>v. (v - sum_list vs / n)\<^sup>2) vs) / n"
proof -
  have n: "n \<noteq> 0" using assms by simp
  have "sum_list (map (\<lambda>v. (v - sum_list vs / n)\<^sup>2) vs) =
      sum_list (map (\<lambda>v. v * v) vs) - 2 * (sum_list vs / n) * sum_list vs + n * (sum_list vs / n)\<^sup>2"
    unfolding n_def by (rule sum_sq_dev)
  also have "\<dots> = sum_list (map (\<lambda>v. v * v) vs) - n * (sum_list vs / n)\<^sup>2"
    using n by (simp add: power2_eq_square field_simps)
  finally have "sum_list (map (\<lambda>v. (v - sum_list vs / n)\<^sup>2) vs) / n =
      (sum_list (map (\<lambda>v. v * v) vs) - n * (sum_list vs / n)\<^sup>2) / n" by (rule arg_cong)
  also have "\<dots> = sum_list (map (\<lambda>v. v * v) vs) / n - (sum_list vs / n) * (sum_list vs / n)"
    using n by (simp add: diff_divide_distrib power2_eq_square)
  finally show ?thesis by (rule sym)
qed

text \<open>Integer samples: as long as the sum of squares stays within \<open>2 ^ 53\<close> nothing is rounded.\<close>

lemma sum_list_abs_le_sq: "\<bar>sum_list ks\<bar> \<le> sum_list (map (\<lambda>k. k * k) ks)" for ks :: "int list"
proof (induction ks)
  case (Cons k ks)
  have "\<bar>k\<bar> \<le> k * k"
  proof (cases "k = 0")
    case False
    then have "\<bar>k\<bar> * 1 \<le> \<bar>k\<bar> * \<bar>k\<bar>" by (intro mult_left_mono) auto
    then show ?thesis by (simp add: abs_mult_self_eq)
  qed simp
  then show ?case using Cons by (simp add: abs_le_iff)
qed simp

lemma sum_list_sq_nonneg: "0 \<le> sum_list (map (\<lambda>k. k * k) ks)" for ks :: "int list"
  by (induction ks) simp_all

lemma stats_of_ints:
  assumes "double_rounding rnd" and "sum_list (map (\<lambda>k. k * k) ks) \<le> 2 ^ 53"
  shows "st_sum (stats_of rnd (map of_int ks)) = of_int (sum_list ks) \<and>
    st_sum_sq (stats_of rnd (map of_int ks)) = of_int (sum_list (map (\<lambda>k. k * k) ks))"
  using assms(2)
proof (induction ks rule: rev_induct)
  case (snoc k ks)
  let ?q = "sum_list (map (\<lambda>k. k * k) ks)"
  have le: "?q + k * k \<le> 2 ^ 53" using snoc.prems by simp
  moreover have "0 \<le> k * k" by simp
  ultimately have q: "?q \<le> 2 ^ 53" "k * k \<le> 2 ^ 53" "0 \<le> ?q"
    using sum_list_sq_nonneg [of ks] by linarith+
  note exact = double_roundingD(2) [OF assms(1)]
  have "rnd (of_int (sum_list ks) + of_int k) = of_int (sum_list ks + k)"
    using exact [of "sum_list ks + k"] sum_list_abs_le_sq [of "ks @ [k]"] snoc.prems by simp
  moreover have "rnd (of_int k * of_int k) = of_int (k * k)" using exact [of "k * k"] q(2) by simp
  moreover have "rnd (of_int ?q + of_int (k * k)) = of_int (?q + k * k)"
    using exact [of "?q + k * k"] le q(3) by simp
  ultimately show ?case
    using snoc.IH [OF q(1)] by (simp_all add: stats_of_snoc stats_add_def)
qed (simp_all add: stats_of_Nil stats_init_def)

section \<open>Properties\<close>

text \<open>
  C26. \<open>TIME_BLOCK\<close> returns and has run its block exactly once, between two readings of the clock. The
  64-bit difference it takes is the exact time between the readings, also when the counter of
  nanoseconds itself wraps around. It prints one line: its label and a number of milliseconds with three
  digits that is off by half a unit of the last digit, plus a relative rounding error of \<open>2 ^ -51\<close>.
\<close>

theorem time_block_once:
  assumes "double_rounding rnd" and "clock w = (t0, w0)" and "clock (body w0) = (t1, w1)"
    and "timespec_nanos t0 \<le> timespec_nanos t1" and "timespec_nanos t1 - timespec_nanos t0 < 2 ^ 64"
  defines "micros \<equiv> real_of_int (timespec_nanos t1 - timespec_nanos t0) / 1000"
  shows "\<exists>s k. TIME_BLOCK rnd clock print label body w = Some s \<and>
    uint (tb_elapsed s) = timespec_nanos t1 - timespec_nanos t0 \<and> tb_world s = print label k w1 \<and>
    \<bar>of_int k - micros\<bar> \<le> 1 / 2 + (micros + 1) / 2 ^ 51"
proof -
  let ?e = "get_nanos t1 - get_nanos t0" and ?k = "printf_3f (millis rnd (get_nanos t1 - get_nanos t0))"
  have e: "uint ?e = timespec_nanos t1 - timespec_nanos t0" using get_nanos_diff assms(4,5) by simp
  then have "real (unat ?e) / 1000 = micros" by (simp add: micros_def flip: e)
  note m = millis_accurate [OF assms(1), of ?e, unfolded this]
  have "\<bar>of_int ?k - micros\<bar> \<le> \<bar>of_int ?k - millis rnd ?e * 1000\<bar> + \<bar>millis rnd ?e * 1000 - micros\<bar>" by simp
  then have "\<bar>of_int ?k - micros\<bar> \<le> 1 / 2 + (micros + 1) / 2 ^ 51"
    by (rule order.trans) (rule add_mono [OF printf_3f_nearest m])
  moreover have "TIME_BLOCK rnd clock print label body w =
      Some \<lparr>tb_start = get_nanos t0, tb_elapsed = ?e, tb_i = 1, tb_world = print label ?k w1\<rparr>"
    using assms(2,3) by (simp add: TIME_BLOCK_def while_option_unfold Let_def)
  ultimately show ?thesis using e by auto
qed

theorem time_block_once_witness:
  "\<exists>s k. TIME_BLOCK (\<lambda>x. x) (\<lambda>ls. (\<lparr>tv_sec = int (length ls), tv_nsec = 0\<rparr>, ls)) (\<lambda>l k ls. k # ls) ''t''
      (\<lambda>ls. 0 # ls) [] = Some s \<and>
     uint (tb_elapsed s) = 1000000000 \<and> tb_world s = [k, 0] \<and> \<bar>of_int k - 1000000\<bar> \<le> (1::real)"
proof -
  have "(1::real) / 2 + (1000000 + 1) / 2 ^ 51 \<le> 1" by simp
  then show ?thesis
    using time_block_once [OF id_double_rounding, of "\<lambda>ls. (\<lparr>tv_sec = int (length ls), tv_nsec = 0\<rparr>, ls)" "[]"
        "\<lparr>tv_sec = 0, tv_nsec = 0\<rparr>" "[]" "\<lambda>ls. 0 # ls" "\<lparr>tv_sec = 1, tv_nsec = 0\<rparr>" "[0]" "\<lambda>l k ls. k # ls" "''t''"]
    by (fastforce simp: timespec_nanos_def)
qed

text \<open>
  C27. \<open>TIME_IT\<close> does not return while \<open>clock_gettime\<close> succeeds: the outer loop tests only the status of
  the next reading, so the block runs again and again.
\<close>

theorem time_it_never_returns:
  assumes "\<forall>w. fst (clock w) = 0"
  shows "TIME_IT rnd clock body s = None"
  unfolding TIME_IT_def
  by (rule while_option_forever) (simp_all add: TIME_IT_test_status assms)

theorem time_it_never_returns_witness:
  "TIME_IT (\<lambda>x. x) (\<lambda>n. (0, \<lparr>tv_sec = int n, tv_nsec = 0\<rparr>, Suc n)) (\<lambda>n. n)
     \<lparr>ti_status = 0, ti_start = \<lparr>tv_sec = 0, tv_nsec = 0\<rparr>, ti_elapsed = None, ti_world = (0::nat)\<rparr> = None"
  by (rule time_it_never_returns) simp

text \<open>
  C28. The rounds of \<open>MEASURE_CACHE_MISSES\<close>, on a kernel that keeps the promises of \<open>perf_kernel\<close>: in every
  round for which the counter can be opened, the variable becomes the number of cache misses of the
  block in that round alone; when \<open>perf_event_open\<close> fails, which the macro does not check, the variable
  silently becomes the count that the round before has left, and before the first successful round it
  has no value. No round leaves a counter open.
\<close>

theorem measure_round_result:
  assumes "perf_kernel sys tab body happened"
    and "sys_perf_event_open sys (cache_miss_attr sys) 0 (- 1) (- 1) 0
      (ms_world ((MEASURE_round sys body ^^ k) s)) = (fd, w)"
  shows "ms_var ((MEASURE_round sys body ^^ Suc k) s) =
      (if 0 \<le> fd
       then Some (happened (cache_miss_attr sys)
         (sys_ioctl sys fd PERF_EVENT_IOC_ENABLE 0 (sys_ioctl sys fd PERF_EVENT_IOC_RESET 0 w)))
       else if k = 0 then pc_count (ms_pc s) else ms_var ((MEASURE_round sys body ^^ k) s)) \<and>
    dom (tab (ms_world ((MEASURE_round sys body ^^ k) s))) = dom (tab (ms_world s))"
proof -
  have "dom (tab (ms_world ((MEASURE_round sys body ^^ k) s))) = dom (tab (ms_world s))"
    using measure_round_closes [OF assms(1)] by (induction k) simp_all
  moreover have "pc_count (ms_pc ((MEASURE_round sys body ^^ k) s)) =
      (if k = 0 then pc_count (ms_pc s) else ms_var ((MEASURE_round sys body ^^ k) s))"
    by (cases k) (simp_all add: MEASURE_round_def Let_def split_beta)
  ultimately show ?thesis using measure_round_var [OF assms] by simp
qed

text \<open>
  A kernel that keeps the promises: its world is a table of counters, the next descriptor and the
  number of runs of the block, which has 10 cache misses in its first run, 20 in its second, and so on.
\<close>

type_synonym table_world = "perf_table \<times> int \<times> nat"

definition table_of :: "table_world \<Rightarrow> perf_table" where
  "table_of w = (\<lambda>fd. if fd < 0 then None else fst w fd)"

definition table_kernel :: "table_world perf_sys" where
  "table_kernel =
     \<lparr>sizeof_perf_event_attr = 136,
      sys_perf_event_open = (\<lambda>pe pid cpu grp fl (tab, fd, k).
        if tab fd = None \<and> 0 \<le> fd then (fd, tab(fd \<mapsto> (pe, \<not> pe_disabled pe, 0)), fd + 1, k) else (- 1, tab, fd, k)),
      sys_ioctl = (\<lambda>fd q a (tab, rest). (tab(fd := map_option (ioctl_effect q) (tab fd)), rest)),
      sys_read = (\<lambda>fd n w. (map_option (\<lambda>(pe, on, c). c) (table_of w fd), w)),
      sys_close = (\<lambda>fd (tab, rest). (tab(fd := None), rest))\<rparr>"

definition table_misses :: "perf_event_attr \<Rightarrow> table_world \<Rightarrow> 64 word" where
  "table_misses pe w = (if pe_config pe = 3 then 10 * of_nat (Suc (snd (snd w))) else 0)"

definition table_block :: "table_world \<Rightarrow> table_world" where
  "table_block w = (\<lambda>x. map_option (counted table_misses w) (fst w x), fst (snd w), Suc (snd (snd w)))"

lemma table_perf_kernel: "perf_kernel table_kernel table_of table_block table_misses"
proof -
  have "if fd < 0 then table_of w' = table_of w
        else table_of w fd = None \<and> table_of w' = (table_of w)(fd \<mapsto> (pe, \<not> pe_disabled pe, 0))"
    if "sys_perf_event_open table_kernel pe 0 (- 1) (- 1) 0 w = (fd, w')" for pe w fd w'
    using that by (cases w) (auto simp: table_kernel_def table_of_def split: if_splits)
  then show ?thesis unfolding perf_kernel_def
    by (intro conjI allI impI)
      (assumption | force simp: table_kernel_def table_of_def table_block_def fun_eq_iff)+
qed

theorem measure_round_result_witness:
  "let s = \<lparr>ms_pc = \<lparr>pc_fd = 0, pc_count = None\<rparr>, ms_var = None, ms_world = (\<lambda>_. None, 3, 0)\<rparr>;
       s2 = (MEASURE_round table_kernel table_block ^^ Suc 1) s
   in ms_var s2 = Some 20"
proof -
  let ?s = "\<lparr>ms_pc = \<lparr>pc_fd = 0, pc_count = None\<rparr>, ms_var = None, ms_world = (\<lambda>_. None, 3, 0)\<rparr>"
  let ?s1 = "(MEASURE_round table_kernel table_block ^^ 1) ?s"
  have w: "fst (snd (ms_world ?s1)) = 4" "snd (snd (ms_world ?s1)) = 1" "fst (ms_world ?s1) 4 = None"
    by (simp_all add: MEASURE_round_def perf_counter_init_def perf_counter_start_def perf_counter_stop_def
        perf_counter_close_def table_kernel_def table_block_def Let_def split_beta)
  obtain w' where "sys_perf_event_open table_kernel (cache_miss_attr table_kernel) 0 (- 1) (- 1) 0 (ms_world ?s1) = (4, w')"
    "snd (snd w') = 1"
    using w by (cases "ms_world ?s1") (simp add: table_kernel_def)
  from measure_round_result [OF table_perf_kernel this(1)] this(2) show ?thesis
    by (simp add: Let_def table_misses_def cache_miss_attr_def) (simp add: table_kernel_def split_beta)
qed

text \<open>The outer loop of \<open>MEASURE_CACHE_MISSES\<close> has no condition, so that the rounds never end.\<close>

lemma measure_cache_misses_never_returns: "MEASURE_CACHE_MISSES sys body s = None"
  unfolding MEASURE_CACHE_MISSES_def by (rule while_option_forever) simp_all

text \<open>
  C32. The elapsed seconds computed in doubles (\<open>TIME_IT\<close>, \<open>measure_time\<close> of exercise 01, main of exercise
  02) differ from the exact time between two readings by at most \<open>2 ^ -52\<close> of that time plus one second,
  for intervals of at most \<open>2 ^ 53\<close> seconds.
\<close>

theorem elapsed_seconds_accurate:
  assumes "double_rounding rnd" and "valid_timespec t0" and "valid_timespec t1"
    and "\<bar>tv_sec t1 - tv_sec t0\<bar> \<le> 2 ^ 53"
  defines "e \<equiv> of_int (timespec_nanos t1 - timespec_nanos t0) / 1000000000"
  shows "\<bar>elapsed_seconds rnd t0 t1 - e\<bar> \<le> (\<bar>e\<bar> + 1) / 2 ^ 52"
proof -
  define ds q :: real where "ds = of_int (tv_sec t1 - tv_sec t0)" and "q = of_int (tv_nsec t1 - tv_nsec t0) / 1000000000"
  have dn: "\<bar>tv_nsec t1 - tv_nsec t0\<bar> < 1000000000" using assms(2,3) by (auto simp: valid_timespec_def)
  then have "\<bar>real_of_int (tv_nsec t1 - tv_nsec t0)\<bar> \<le> 1000000000" by linarith
  then have q1: "\<bar>q\<bar> \<le> 1" by (simp add: q_def)
  have e: "e = ds + q" by (simp add: e_def ds_def q_def timespec_nanos_def field_simps)
  have el: "elapsed_seconds rnd t0 t1 = rnd (ds + rnd q)"
    using double_roundingD(2) [OF assms(1) assms(4)]
      double_roundingD(2) [OF assms(1), of "tv_nsec t1 - tv_nsec t0"] dn
    by (simp add: elapsed_seconds_def ds_def q_def)
  have "real_of_int \<bar>tv_sec t1 - tv_sec t0\<bar> \<le> real_of_int (2 ^ 53)" using assms(4) by (simp only: of_int_le_iff)
  then have ds: "\<bar>ds\<bar> \<le> 2 ^ 53" by (simp add: ds_def)
  have eta: "(1::real) / 2 ^ 1075 \<le> 1 / 2 ^ 100" by (intro divide_left_mono power_increasing) simp_all
  have big: "(2::real) ^ 60 \<le> 2 ^ 1023" by (intro power_increasing) simp_all
  have "\<bar>rnd q - q\<bar> \<le> \<bar>q\<bar> / 2 ^ 53 + 1 / 2 ^ 1075"
    using q1 big by (intro double_roundingD(1) [OF assms(1)]) simp
  then have rq: "\<bar>rnd q - q\<bar> \<le> 1 / 2 ^ 53 + 1 / 2 ^ 100" using q1 eta by simp
  have "\<bar>rnd q - q\<bar> \<le> 1" using rq by (rule order.trans) simp
  moreover have "(2::real) ^ 53 + 2 \<le> 2 ^ 60" by simp
  ultimately have "\<bar>ds + rnd q\<bar> \<le> 2 ^ 60" using ds q1 by linarith
  then have "\<bar>rnd (ds + rnd q) - (ds + rnd q)\<bar> \<le> \<bar>ds + rnd q\<bar> / 2 ^ 53 + 1 / 2 ^ 1075"
    using big by (intro double_roundingD(1) [OF assms(1)]) simp
  moreover have "\<bar>ds + rnd q\<bar> / 2 ^ 53 \<le> (\<bar>e\<bar> + (1 / 2 ^ 53 + 1 / 2 ^ 100)) / 2 ^ 53"
    by (rule divide_right_mono) (use rq e in linarith, simp)
  moreover have "(\<bar>e\<bar> + (1 / 2 ^ 53 + 1 / 2 ^ 100)) / 2 ^ 53 = \<bar>e\<bar> / 2 ^ 53 + (1 / 2 ^ 53 + 1 / 2 ^ 100) / 2 ^ 53"
    by (rule add_divide_distrib)
  moreover have "(1 / 2 ^ 53 + 1 / 2 ^ 100) / 2 ^ 53 + 2 / 2 ^ 100 \<le> (1::real) / 2 ^ 53" by simp
  moreover have "(\<bar>e\<bar> + 1) / 2 ^ 52 = \<bar>e\<bar> / 2 ^ 53 + \<bar>e\<bar> / 2 ^ 53 + 1 / 2 ^ 53 + 1 / 2 ^ 53" by simp
  moreover have "0 \<le> \<bar>e\<bar> / 2 ^ 53" by simp
  moreover have "\<bar>rnd (ds + rnd q) - e\<bar> \<le> \<bar>rnd (ds + rnd q) - (ds + rnd q)\<bar> + \<bar>rnd q - q\<bar>"
    unfolding e by linarith
  ultimately show ?thesis using rq eta unfolding el by linarith
qed

theorem elapsed_seconds_accurate_witness:
  "\<bar>elapsed_seconds (\<lambda>x. x) \<lparr>tv_sec = 1, tv_nsec = 900000000\<rparr> \<lparr>tv_sec = 4, tv_nsec = 400000000\<rparr> - 5 / 2\<bar>
     \<le> (5 / 2 + 1) / 2 ^ 52"
  using elapsed_seconds_accurate [OF id_double_rounding, of "\<lparr>tv_sec = 1, tv_nsec = 900000000\<rparr>"
      "\<lparr>tv_sec = 4, tv_nsec = 400000000\<rparr>"]
  by (simp add: valid_timespec_def timespec_nanos_def)

text \<open>
  C30. The extremes and the count of the statistics do not depend on rounding: for a non-empty list of
  fewer than \<open>2 ^ 64\<close> samples within the start values they are its minimum, its maximum and its length.
\<close>

theorem stats_extremes:
  assumes "vs \<noteq> []" and "\<forall>v\<in>set vs. \<bar>v\<bar> \<le> rnd (10 ^ 300)" and "length vs < 2 ^ 64"
  shows "st_min (stats_of rnd vs) = Min (set vs) \<and> st_max (stats_of rnd vs) = Max (set vs) \<and>
    unat (st_count (stats_of rnd vs)) = length vs"
proof -
  have "st_min (stats_of rnd vs) = Min (set vs)"
    unfolding stats_of_min using assms(1,2) by (intro fold_min_Min) auto
  moreover have "st_max (stats_of rnd vs) = Max (set vs)"
    unfolding stats_of_max using assms(1,2) by (intro fold_max_Max) force+
  moreover have "unat (st_count (stats_of rnd vs)) = length vs"
    using assms(3) by (simp add: stats_of_count unat_of_nat)
  ultimately show ?thesis by blast
qed

theorem stats_extremes_witness:
  "st_min (stats_of (\<lambda>x. x) [3, 1, 2]) = 1 \<and> st_max (stats_of (\<lambda>x. x) [3, 1, 2]) = 3 \<and>
   unat (st_count (stats_of (\<lambda>x. x) [3, 1, 2])) = 3"
proof -
  have "(3::real) \<le> 10 ^ 300" by (rule order.trans [of _ "10 ^ 1"]) (simp, rule power_increasing, simp_all)
  then show ?thesis using stats_extremes [of "[3, 1, 2]" "\<lambda>x. x"] by simp
qed

text \<open>
  C31. Integer samples (nanoseconds, say) whose squares add up to at most \<open>2 ^ 53\<close> are accumulated without
  any rounding error: the two sums are exact and the mean is the rounding of the exact quotient.
\<close>

theorem stats_integers_exact:
  assumes "double_rounding rnd" and "sum_list (map (\<lambda>k. k * k) ks) \<le> 2 ^ 53" and "ks \<noteq> []"
    and "length ks \<le> 2 ^ 53"
  shows "st_sum (stats_of rnd (map of_int ks)) = of_int (sum_list ks) \<and>
    st_sum_sq (stats_of rnd (map of_int ks)) = of_int (sum_list (map (\<lambda>k. k * k) ks)) \<and>
    stats_mean rnd (stats_of rnd (map of_int ks)) = rnd (of_int (sum_list ks) / real (length ks))"
proof -
  note S = stats_of_ints [OF assms(1,2)]
  have "length ks < 2 ^ 64" using assms(4) by (rule order.strict_trans1) simp
  then have c: "unat (st_count (stats_of rnd (map of_int ks))) = length ks"
    by (simp add: stats_of_count unat_of_nat)
  then have "st_count (stats_of rnd (map of_int ks)) > 0" using assms(3)
    by (metis length_0_conv unat_0 word_neq_0_conv)
  moreover have "int (length ks) \<le> 2 ^ 53" using assms(4) by (metis of_nat_le_iff of_nat_numeral of_nat_power)
  then have "rnd (real (length ks)) = real (length ks)"
    using double_roundingD(2) [OF assms(1), of "int (length ks)"] by simp
  ultimately show ?thesis using S c by (simp add: stats_mean_def)
qed

theorem stats_integers_exact_witness:
  "st_sum (stats_of (\<lambda>x. x) (map of_int [3, - 4, 5])) = 4 \<and>
   st_sum_sq (stats_of (\<lambda>x. x) (map of_int [3, - 4, 5])) = 50 \<and>
   stats_mean (\<lambda>x. x) (stats_of (\<lambda>x. x) (map of_int [3, - 4, 5])) = 4 / 3"
  using stats_integers_exact [OF id_double_rounding, of "[3, - 4, 5]"] by simp

text \<open>
  C29. With exact arithmetic \<open>stats_stddev\<close>, which is computed from the two running sums, is the standard
  deviation by its definition: the root of the mean squared distance from the mean; it is 0 for fewer
  than two samples.
\<close>

theorem stats_stddev_reference:
  assumes "length vs < 2 ^ 64"
  shows "stats_stddev (\<lambda>x. x) (stats_of (\<lambda>x. x) vs) =
    (if length vs < 2 then 0
     else sqrt (sum_list (map (\<lambda>v. (v - sum_list vs / real (length vs))\<^sup>2) vs) / real (length vs)))"
proof -
  let ?s = "stats_of (\<lambda>x. x) vs" and ?d = "sum_list (map (\<lambda>v. (v - sum_list vs / real (length vs))\<^sup>2) vs)"
  have c: "unat (st_count ?s) = length vs" using assms by (simp add: stats_of_count unat_of_nat)
  have two: "st_count ?s < 2 \<longleftrightarrow> length vs < 2" by (simp add: word_less_nat_alt c)
  show ?thesis
  proof (cases "length vs < 2")
    case False
    then have ne: "vs \<noteq> []" by auto
    have "st_count ?s > 0" using c ne by (metis length_0_conv unat_0 word_neq_0_conv)
    then have "stats_variance (\<lambda>x. x) ?s = ?d / real (length vs)"
      using variance_identity [OF ne] by (simp add: stats_variance_def stats_mean_def c stats_of_exact)
    moreover have "0 \<le> ?d" by (intro sum_list_nonneg) auto
    ultimately show ?thesis using False two
      by (cases "?d = 0") (auto simp: stats_stddev_def Let_def zero_less_divide_iff ne)
  qed (simp add: stats_stddev_def two)
qed

theorem stats_stddev_reference_witness:
  "stats_stddev (\<lambda>x. x) (stats_of (\<lambda>x. x) [2, 4, 4, 4, 5, 5, 7, 9]) = 2"
proof -
  have "sqrt (4::real) = 2" using real_sqrt_abs [of 2] by simp
  then show ?thesis using stats_stddev_reference [of "[2, 4, 4, 4, 5, 5, 7, 9]"] by simp
qed

end
