(* ===== verification/Atomics.thy ===== *)
theory Atomics
  imports Atomic_Counters Benchmark
begin

text \<open>
  Exercise 01, parts 1 to 3: eight threads increment a \<open>long\<close> counter, with a plain increment, with
  a sequentially consistent and with a relaxed \<open>atomic_fetch_add\<close>. Part 4, the message, is in
  \<open>Message_Passing\<close>. \<open>measure_time\<close> is the fork and join of the threads around two readings of the
  clock, whose difference is \<^term>\<open>elapsed_seconds\<close> of the theory \<open>Benchmark\<close>.
\<close>

section \<open>Objects and constants\<close>

datatype at_obj = BrokenCounter | SeqcstCounter | RelaxedCounter

type_synonym at_machine = "(at_obj, int) machine"

definition AT_THREADS :: nat where "AT_THREADS = 8"

definition INCREMENTS :: nat where "INCREMENTS = 5000000"

section \<open>Threads\<close>

definition broken_increment :: "nat \<Rightarrow> tid \<Rightarrow> plain_pc \<Rightarrow> at_machine \<Rightarrow> (plain_pc \<times> at_machine) outcome" where
  "broken_increment iters = plain_worker 64 iters BrokenCounter"

definition seqcst_increment :: "nat \<Rightarrow> tid \<Rightarrow> add_pc \<Rightarrow> at_machine \<Rightarrow> (add_pc \<times> at_machine) outcome" where
  "seqcst_increment iters = fetch_add_worker 64 SeqCst iters SeqcstCounter"

definition relaxed_increment :: "nat \<Rightarrow> tid \<Rightarrow> add_pc \<Rightarrow> at_machine \<Rightarrow> (add_pc \<times> at_machine) outcome" where
  "relaxed_increment iters = fetch_add_worker 64 Relaxed iters RelaxedCounter"

section \<open>\<open>measure_time\<close>\<close>

text \<open>The threads \<open>measure_time\<close> creates and joins; \<open>start\<close> and \<open>done\<close> belong to the function it runs.\<close>

definition measure_threads :: "nat \<Rightarrow> 'p \<Rightarrow> ('p \<Rightarrow> bool) \<Rightarrow> (tid \<Rightarrow> 'p \<Rightarrow> ('l, 'v) machine \<Rightarrow>
    ('p \<times> ('l, 'v) machine) outcome) \<Rightarrow> ('p, 'l, 'v) thread_prog" where
  "measure_threads n start done func =
     \<lparr>nthreads = n, jorder = [0..<n], entry = (\<lambda>_. start), tstep = (\<lambda>i c. func (Suc i)), halted = done\<rparr>"

section \<open>The tests of main\<close>

definition broken_reset :: "at_machine \<Rightarrow> at_machine outcome" where
  "broken_reset m = na_store 0 BrokenCounter 0 m"

definition seqcst_reset :: "at_machine \<Rightarrow> at_machine" where
  "seqcst_reset m = atomic_store SeqCst 0 SeqcstCounter 0 m"

definition relaxed_reset :: "at_machine \<Rightarrow> at_machine" where
  "relaxed_reset m = atomic_store SeqCst 0 RelaxedCounter 0 m"

definition broken_test :: "nat \<Rightarrow> nat \<Rightarrow> (plain_pc, at_obj, int) thread_prog" where
  "broken_test n iters = measure_threads n (PlainLoop 0) (\<lambda>p. p = PlainRet) (broken_increment iters)"

definition seqcst_test :: "nat \<Rightarrow> nat \<Rightarrow> (add_pc, at_obj, int) thread_prog" where
  "seqcst_test n iters = measure_threads n (AddLoop 0) (\<lambda>p. p = AddRet) (seqcst_increment iters)"

definition relaxed_test :: "nat \<Rightarrow> nat \<Rightarrow> (add_pc, at_obj, int) thread_prog" where
  "relaxed_test n iters = measure_threads n (AddLoop 0) (\<lambda>p. p = AddRet) (relaxed_increment iters)"

text \<open>Tests 1 to 3 in the order of main.\<close>

definition counters_main :: "nat \<Rightarrow> nat \<Rightarrow> (at_machine \<Rightarrow> at_machine \<Rightarrow> bool) list" where
  "counters_main n iters =
     [test_ends broken_reset (broken_test n iters),
      test_ends (\<lambda>m. Ok (seqcst_reset m)) (seqcst_test n iters),
      test_ends (\<lambda>m. Ok (relaxed_reset m)) (relaxed_test n iters)]"

lemma at_progs:
  "broken_test n iters = plain_prog 64 n iters BrokenCounter"
  "seqcst_test n iters = fetch_add_prog 64 SeqCst n iters (\<lambda>_. SeqcstCounter)"
  "relaxed_test n iters = fetch_add_prog 64 Relaxed n iters (\<lambda>_. RelaxedCounter)"
  by (simp_all add: broken_test_def seqcst_test_def relaxed_test_def measure_threads_def plain_prog_def
      fetch_add_prog_def broken_increment_def seqcst_increment_def relaxed_increment_def)

section \<open>Properties\<close>

text \<open>
  C18. Relaxed increments are enough for a counter: with any number of threads and increments the test
  has no undefined step and can finish from every reachable state, every schedule ends within threads
  times increments and a few more steps, and after the joins every value main can load is threads times increments, wrapped to 64 bits.
\<close>

theorem relaxed_counter_correct:
  "adds_correct n (\<lambda>_. RelaxedCounter) (\<lambda>_. signed_wrap 64 (int (n * iters))) (n * (iters + 3) + 2) (relaxed_test n iters)
     (relaxed_reset (init_machine (\<lambda>_. 0))) \<and>
   signed_wrap 64 (int (AT_THREADS * INCREMENTS)) = 40000000"
  using shared_adds_correct [of 64 "init_machine (\<lambda>_. 0)" RelaxedCounter n iters Relaxed]
  by (auto simp: at_progs relaxed_reset_def AT_THREADS_def INCREMENTS_def signed_wrap_def mwf_init)

text \<open>
  Sequentially consistent increments give the same result as relaxed ones: no undefined step, a
  schedule that finishes from every reachable state, and threads times increments at the end.
\<close>

lemma seqcst_counter_correct:
  "adds_correct n (\<lambda>_. SeqcstCounter) (\<lambda>_. signed_wrap 64 (int (n * iters))) (n * (iters + 3) + 2) (seqcst_test n iters)
     (seqcst_reset (init_machine (\<lambda>_. 0))) \<and>
   signed_wrap 64 (int (AT_THREADS * INCREMENTS)) = 40000000"
  using shared_adds_correct [of 64 "init_machine (\<lambda>_. 0)" SeqcstCounter n iters SeqCst]
  by (auto simp: at_progs seqcst_reset_def AT_THREADS_def INCREMENTS_def signed_wrap_def mwf_init)

text \<open>
  The second and the third test of main, one after the other.
\<close>

lemma atomic_tests_in_turn:
  assumes "0 < n"
  shows "\<exists>m. in_turn (drop 1 (counters_main n iters)) (init_machine (\<lambda>_. 0)) m"
    and "in_turn (drop 1 (counters_main n iters)) (init_machine (\<lambda>_. 0)) m \<Longrightarrow>
      reads_only m SeqcstCounter (signed_wrap 64 (int (n * iters))) \<and>
      reads_only m RelaxedCounter (signed_wrap 64 (int (n * iters)))"
proof -
  let ?i = "init_machine (\<lambda>_. 0) :: at_machine" and ?v = "signed_wrap 64 (int (n * iters))"
  let ?S = "test_ends (\<lambda>m. Ok (seqcst_reset m)) (seqcst_test n iters)"
    and ?R = "test_ends (\<lambda>m. Ok (relaxed_reset m)) (relaxed_test n iters)"
  have main: "in_turn (drop 1 (counters_main n iters)) ?i m \<longleftrightarrow> (\<exists>m1. ?S ?i m1 \<and> ?R m1 m)" for m
    by (auto simp: counters_main_def)
  have w: "0 < (64::nat)" by simp
  have rd: "rds ?i SeqcstCounter = []" by simp
  note S = shared_adds_test [OF w mwf_init rd assms, where ord = SeqCst and iters = iters,
      folded seqcst_reset_def at_progs(2)]
  have ok: "mwf m1" "rds m1 RelaxedCounter = []" if "?S ?i m1" for m1
    using S(2) [OF that] S(3) [OF that, of RelaxedCounter] by (simp_all add: untouched_def)
  note R = shared_adds_test [OF w _ _ assms, where x = RelaxedCounter and ord = Relaxed and iters = iters,
      folded relaxed_reset_def at_progs(3)]
  show "\<exists>m. in_turn (drop 1 (counters_main n iters)) ?i m"
  proof -
    obtain m1 where m1: "?S ?i m1" using S(1) by blast
    obtain m2 where "?R m1 m2" using R(1) [OF ok [OF m1]] by blast
    then show ?thesis unfolding main using m1 by blast
  qed
  assume "in_turn (drop 1 (counters_main n iters)) ?i m"
  then obtain m1 where m: "?S ?i m1" "?R m1 m" unfolding main by blast
  have k: "untouched SeqcstCounter m1 m" "cur m1 0 \<le> cur m 0" using R(3) [OF ok [OF m(1)] m(2), of SeqcstCounter] by simp_all
  have 1: "knows (cur m1 0) SeqcstCounter m1" "value_of m1 SeqcstCounter = ?v" using S(2) [OF m(1)] by blast+
  have 2: "mwf m" "knows (cur m 0) RelaxedCounter m" "value_of m RelaxedCounter = ?v"
    using R(2) [OF ok [OF m(1)] m(2)] by blast+
  have "knows (cur m 0) SeqcstCounter m" by (rule knows_mono [OF 1(1) k(2,1)])
  then show "reads_only m SeqcstCounter ?v \<and> reads_only m RelaxedCounter ?v"
    using knows_reads_only [OF 2(1), of SeqcstCounter] knows_reads_only [OF 2(1,2)] 2(3) untouched_value [OF k(1)] 1(2)
    by simp
qed

lemma counters_main_runs:
  assumes "2 \<le> n" and "1 \<le> iters"
  shows "(\<nexists>m. in_turn (counters_main n iters) (init_machine (\<lambda>_. 0)) m) \<and>
    (\<exists>m. broken_reset (init_machine (\<lambda>_. 0)) = Ok m \<and> always_races (broken_test n iters) m) \<and>
    (\<exists>m. in_turn (drop 1 (counters_main n iters)) (init_machine (\<lambda>_. 0)) m) \<and>
    (\<forall>m. in_turn (drop 1 (counters_main n iters)) (init_machine (\<lambda>_. 0)) m \<longrightarrow>
       reads_only m SeqcstCounter (signed_wrap 64 (int (n * iters))) \<and>
       reads_only m RelaxedCounter (signed_wrap 64 (int (n * iters))))"
proof -
  obtain m where m: "broken_reset (init_machine (\<lambda>_. 0)) = Ok m"
    using na_store_ok [of "init_machine (\<lambda>_. 0)" 0 BrokenCounter 0] by (auto simp: broken_reset_def)
  have race: "always_races (broken_test n iters) m" unfolding at_progs
    by (rule plain_always_races [OF assms m [unfolded broken_reset_def]]) (simp_all add: mwf_init)
  have "\<nexists>m. in_turn (counters_main n iters) (init_machine (\<lambda>_. 0)) m"
    using races_never_end [where reset = broken_reset, OF m race] by (simp add: counters_main_def)
  then show ?thesis using m race atomic_tests_in_turn assms(1) by simp
qed

text \<open>
  C24. Tests 1 to 3 of main as a whole, with at least two threads and one increment: main is undefined in
  every complete execution, as a data race on \<open>broken_counter\<close> can be reached in the first test and no
  execution without one gets past it. Without the first test the other two can run one after the other,
  and at the end main can load nothing but the exact total, wrapped to 64 bits, from both counters.
\<close>

theorem counters_main_verdict:
  assumes "2 \<le> n" and "1 \<le> iters"
  shows "(\<nexists>m. in_turn (counters_main n iters) (init_machine (\<lambda>_. 0)) m) \<and>
    (\<exists>m. broken_reset (init_machine (\<lambda>_. 0)) = Ok m \<and> always_races (broken_test n iters) m) \<and>
    (\<exists>m. in_turn (drop 1 (counters_main n iters)) (init_machine (\<lambda>_. 0)) m) \<and>
    (\<forall>m. in_turn (drop 1 (counters_main n iters)) (init_machine (\<lambda>_. 0)) m \<longrightarrow>
       reads_only m SeqcstCounter (signed_wrap 64 (int (n * iters))) \<and>
       reads_only m RelaxedCounter (signed_wrap 64 (int (n * iters))))"
  by (rule counters_main_runs [OF assms])

theorem counters_main_verdict_witness:
  "(2::nat) \<le> AT_THREADS \<and> (\<nexists>m. in_turn (counters_main AT_THREADS INCREMENTS) (init_machine (\<lambda>_. 0)) m) \<and>
   (\<exists>m. in_turn (drop 1 (counters_main AT_THREADS INCREMENTS)) (init_machine (\<lambda>_. 0)) m)"
  using counters_main_verdict [of AT_THREADS INCREMENTS] by (simp add: AT_THREADS_def INCREMENTS_def)

end
