(* ===== verification/Cache_Effects.thy ===== *)
theory Cache_Effects
  imports Atomic_Counters
begin

text \<open>
  Exercise 03: each thread increments its own element of an array of atomic counters, first of a
  packed array, then of one whose elements are aligned to cache lines. The model has the threads, the
  totals main computes after the joins, the layout of the two structs, and the cache lines the threads
  write to. An access through a pointer that is misaligned for its type, which \<open>calloc\<close> does not
  exclude for \<open>aligned_counter_t\<close>, is not one of the undefined steps of the model.
\<close>

section \<open>Objects and constants\<close>

text \<open>\<open>packed_counters[i].counter\<close> and \<open>aligned_counters[i].counter\<close>; \<open>calloc\<close> sets them to 0.\<close>

datatype ce_obj = Packed nat | Aligned nat

type_synonym ce_machine = "(ce_obj, int) machine"

definition CE_THREADS :: nat where "CE_THREADS = 4"

definition CE_ITERATIONS :: nat where "CE_ITERATIONS = 10000000"

section \<open>Threads and totals\<close>

definition packed_worker :: "nat \<Rightarrow> nat \<Rightarrow> add_pc \<Rightarrow> ce_machine \<Rightarrow> (add_pc \<times> ce_machine) outcome" where
  "packed_worker iters tid = fetch_add_worker 64 Relaxed iters (Packed tid) (Suc tid)"

definition aligned_worker :: "nat \<Rightarrow> nat \<Rightarrow> add_pc \<Rightarrow> ce_machine \<Rightarrow> (add_pc \<times> ce_machine) outcome" where
  "aligned_worker iters tid = fetch_add_worker 64 Relaxed iters (Aligned tid) (Suc tid)"

definition packed_test :: "nat \<Rightarrow> nat \<Rightarrow> (add_pc, ce_obj, int) thread_prog" where
  "packed_test n iters =
     \<lparr>nthreads = n, jorder = [0..<n], entry = (\<lambda>_. AddLoop 0),
      tstep = (\<lambda>i c. packed_worker iters i), halted = (\<lambda>p. p = AddRet)\<rparr>"

definition aligned_test :: "nat \<Rightarrow> nat \<Rightarrow> (add_pc, ce_obj, int) thread_prog" where
  "aligned_test n iters =
     \<lparr>nthreads = n, jorder = [0..<n], entry = (\<lambda>_. AddLoop 0),
      tstep = (\<lambda>i c. aligned_worker iters i), halted = (\<lambda>p. p = AddRet)\<rparr>"

text \<open>\<open>for (i < n) total += atomic_load(&counters[i].counter);\<close> with the message each load reads.\<close>

fun load_total :: "(nat \<Rightarrow> ce_obj) \<Rightarrow> nat \<Rightarrow> (nat \<Rightarrow> nat) \<Rightarrow> ce_machine \<Rightarrow> (int \<times> ce_machine) outcome" where
  "load_total obj 0 picks m = Ok (0, m)"
| "load_total obj (Suc k) picks m =
     obind (load_total obj k picks m) (\<lambda>(total, m1).
     obind (atomic_load SeqCst 0 (obj k) (picks k) m1) (\<lambda>(v, m2).
     obind (signed_add 64 total v) (\<lambda>total'. Ok (total', m2))))"

definition packed_total :: "nat \<Rightarrow> (nat \<Rightarrow> nat) \<Rightarrow> ce_machine \<Rightarrow> (int \<times> ce_machine) outcome" where
  "packed_total n picks m = load_total Packed n picks m"

definition aligned_total :: "nat \<Rightarrow> (nat \<Rightarrow> nat) \<Rightarrow> ce_machine \<Rightarrow> (int \<times> ce_machine) outcome" where
  "aligned_total n picks m = load_total Aligned n picks m"

section \<open>Addresses\<close>
















section \<open>Lemmas\<close>

lemma ce_progs:
  "packed_test n iters = fetch_add_prog 64 Relaxed n iters Packed"
  "aligned_test n iters = fetch_add_prog 64 Relaxed n iters Aligned"
  by (simp_all add: packed_test_def aligned_test_def fetch_add_prog_def packed_worker_def aligned_worker_def)

text \<open>When main has seen every write, its loop reads the last values, and each load can be made.\<close>

definition settled :: "(nat \<Rightarrow> ce_obj) \<Rightarrow> nat \<Rightarrow> int \<Rightarrow> ce_machine \<Rightarrow> bool" where
  "settled obj n v m \<longleftrightarrow> mwf m \<and> (\<forall>i<n. knows (cur m 0) (obj i) m \<and> value_of m (obj i) = v)"

lemma settled_load:
  assumes "settled obj n v m" and "i < n" and "atomic_load SeqCst 0 (obj i) k m = Ok (a, m')"
  shows "a = v" and "settled obj n v m'"
proof -
  note D = atomic_load_D [OF assms(3)]
  have un: "untouched x m m'" for x using D(4,5) by (simp add: untouched_def)
  have k: "knows (cur m 0) (obj j) m" "value_of m (obj j) = v" if "j < n" for j
    using assms(1) that by (auto simp: settled_def)
  show "a = v" using atomic_load_latest [OF knows_imp_writes [OF k(1)] assms(3)] k(2) assms(2) by simp
  have "knows (cur m' 0) (obj j) m'" if "j < n" for j by (rule knows_grows [OF k(1) [OF that] D(9) un])
  moreover have "mwf m'" using assms(1,3) by (auto simp: settled_def intro: mwf_intros)
  ultimately show "settled obj n v m'" using k(2) untouched_value [OF un] by (simp add: settled_def)
qed

lemma signed_add_next:
  assumes "Suc k \<le> n" and "int (n * c) < 2 ^ 63"
  shows "signed_add 64 (int (k * c)) (int c) = Ok (int (Suc k * c))"
proof -
  have "Suc k * c \<le> n * c" using assms(1) by (intro mult_right_mono) auto
  then have "int (Suc k * c) < 2 ^ 63" using assms(2) by linarith
  moreover have "- (2 ^ 63) \<le> int (Suc k * c)" by (rule order.trans [of _ 0]) simp_all
  moreover have "int (k * c) + int c = int (Suc k * c)" by simp
  ultimately show ?thesis by (simp add: signed_add_def signed_range_def del: mult_Suc of_nat_mult)
qed

lemma load_total_settled:
  assumes "settled obj n (int c) m" and "k \<le> n" and "int (n * c) < 2 ^ 63"
  shows "(\<exists>m'. load_total obj k picks m = Ok (int (k * c), m') \<and> settled obj n (int c) m') \<or>
    load_total obj k picks m = Blocked"
  using assms(2)
proof (induction k)
  case (Suc k)
  then consider m1 where "load_total obj k picks m = Ok (int (k * c), m1)" "settled obj n (int c) m1"
    | "load_total obj k picks m = Blocked" by auto
  then show ?case
  proof cases
    case 1
    show ?thesis
    proof (cases "atomic_load SeqCst 0 (obj k) (picks k) m1")
      case (Ok r)
      then obtain a m2 where r: "atomic_load SeqCst 0 (obj k) (picks k) m1 = Ok (a, m2)" by (cases r) auto
      have "a = int c" "settled obj n (int c) m2" using settled_load [OF 1(2) _ r] Suc.prems by auto
      then show ?thesis using 1(1) r signed_add_next [OF Suc.prems assms(3)] by simp
    qed (use 1 in \<open>auto simp: atomic_load_def Let_def split: if_splits\<close>)
  qed simp
qed (use assms(1) in simp)

lemma load_total_possible:
  assumes "settled obj n (int c) m" and "k \<le> n" and "int (n * c) < 2 ^ 63"
  shows "\<exists>picks m'. load_total obj k picks m = Ok (int (k * c), m') \<and> settled obj n (int c) m'"
  using assms(2)
proof (induction k)
  case (Suc k)
  then obtain picks m1 where 1: "load_total obj k picks m = Ok (int (k * c), m1)" "settled obj n (int c) m1"
    by auto
  obtain m2 where 2: "atomic_load SeqCst 0 (obj k) (length (hist m1 (obj k)) - 1) m1 = Ok (value_of m1 (obj k), m2)"
    using atomic_load_last [of m1] 1(2) by (metis settled_def)
  let ?picks = "picks(k := length (hist m1 (obj k)) - 1)"
  have same: "load_total obj j ?picks m = load_total obj j picks m" if "j \<le> k" for j
    using that by (induction j) auto
  have v: "value_of m1 (obj k) = int c" "settled obj n (int c) m2"
    using settled_load [OF 1(2) _ 2] Suc.prems by auto
  then have "load_total obj (Suc k) ?picks m = Ok (int (Suc k * c), m2)"
    using same [OF order.refl] 1(1) 2 signed_add_next [OF Suc.prems assms(3)] by simp
  then show ?case using v(2) by blast
qed (use assms(1) in simp)

lemma ce_ready:
  "add_ready 64 n obj (init_machine (\<lambda>_. 0))"
  by (simp add: add_ready_def mwf_init signed_wrap_def)

lemma ce_settled:
  assumes inj: "inj obj" and fits: "int (n * iters) < 2 ^ 63" and r: "add_ready 64 n obj m0"
    and s: "reach (fj_step (fetch_add_prog 64 ord n iters obj)) (fj_init m0) s" and j: "mainpc s = Joined"
  shows "settled obj n (int iters) (shared s)"
proof -
  note F = adds.finished [OF s r j]
  have "value_of (shared s) (obj i) = int iters" if i: "i < n" for i
  proof -
    have "added iters (locals s j) = iters" if "j < n" for j
      using F(3) [of j] that by (auto simp: fetch_add_prog_def)
    then have "total_added n iters obj (obj i) (locals s) = (\<Sum>j<n. if j = i then iters else 0)"
      unfolding total_added_def using inj by (intro sum.cong) (auto dest: injD)
    also have "\<dots> = iters" using i by simp
    finally have "value_of (shared s) (obj i) = signed_wrap 64 (int iters)"
      using F(1) i by (simp add: add_inv_def)
    moreover have "iters \<le> n * iters" using i by simp
    then have "int iters < 2 ^ 63" using fits by linarith
    ultimately show ?thesis by (simp add: signed_wrap_id signed_range_def)
  qed
  then show ?thesis using F(2) adds.reach_mwf [OF s r] by (auto simp: settled_def)
qed

text \<open>
  What a test promises, from the machine it starts with: no undefined step, completion from every
  reachable state under every schedule, and after the joins a summing loop that is free of overflow and
  returns the number of increments, whatever messages its loads read, and that can be made.
\<close>

definition total_correct :: "(add_pc, ce_obj, int) thread_prog \<Rightarrow>
    ((nat \<Rightarrow> nat) \<Rightarrow> ce_machine \<Rightarrow> (int \<times> ce_machine) outcome) \<Rightarrow> int \<Rightarrow> nat \<Rightarrow> ce_machine \<Rightarrow> bool" where
  "total_correct P sum_up count bound m0 \<longleftrightarrow>
     (\<forall>s. reach (fj_step P) (fj_init m0) s \<longrightarrow>
        (\<forall>e u. fj_step P e s \<noteq> UB u) \<and> can_finish P s \<and> ends_within P bound s \<and>
        (mainpc s = Joined \<longrightarrow>
           (\<forall>picks. (\<exists>m'. sum_up picks (shared s) = Ok (count, m')) \<or> sum_up picks (shared s) = Blocked) \<and>
           (\<exists>picks m'. sum_up picks (shared s) = Ok (count, m'))))"

lemma ce_total_correct:
  assumes "inj obj" and "int (n * iters) < 2 ^ 63" and r: "add_ready 64 n obj m0"
  shows "total_correct (fetch_add_prog 64 ord n iters obj) (load_total obj n) (int (n * iters)) (n * (iters + 3) + 2) m0"
  unfolding total_correct_def
proof (intro allI impI conjI)
  fix s assume s: "reach (fj_step (fetch_add_prog 64 ord n iters obj)) (fj_init m0) s"
  show "fj_step (fetch_add_prog 64 ord n iters obj) e s \<noteq> UB u" for e u
    by (rule adds.thread_safe [OF s r])
  show "can_finish (fetch_add_prog 64 ord n iters obj) s" by (rule adds.always_can_finish [OF s r])
  show "ends_within (fetch_add_prog 64 ord n iters obj) (n * (iters + 3) + 2) s" by (rule adds_end [OF s r])
  assume "mainpc s = Joined"
  then have S: "settled obj n (int iters) (shared s)" by (rule ce_settled [OF assms s])
  show "(\<exists>m'. load_total obj n picks (shared s) = Ok (int (n * iters), m')) \<or>
      load_total obj n picks (shared s) = Blocked" for picks
    using load_total_settled [OF S order.refl assms(2)] by blast
  show "\<exists>picks m'. load_total obj n picks (shared s) = Ok (int (n * iters), m')"
    using load_total_possible [OF S order.refl assms(2)] by blast
qed

text \<open>The packed test and its sum leave the aligned counters as \<open>calloc\<close> gave them.\<close>

definition aligned_zero :: "ce_machine \<Rightarrow> bool" where
  "aligned_zero m \<longleftrightarrow> mwf m \<and> (\<forall>i. hist m (Aligned i) = [Msg 0 no_view] \<and> rds m (Aligned i) = [])"

lemma aligned_zero_ready: "aligned_zero m \<Longrightarrow> add_ready 64 n Aligned m"
  by (simp add: aligned_zero_def add_ready_def value_of_def signed_wrap_def knows_def knows_writes_def)

lemma packed_aligned_zero:
  assumes "reach (fj_step (packed_test n iters)) (fj_init (init_machine (\<lambda>_. 0))) s"
  shows "aligned_zero (shared s)"
proof -
  note s = assms [unfolded ce_progs]
  have "untouched (Aligned i) (init_machine (\<lambda>_. 0)) (shared s)" for i using adds_keep [OF s, of "Aligned i"] by auto
  then show ?thesis using adds.reach_mwf [OF s ce_ready] by (simp add: aligned_zero_def untouched_def)
qed

lemma load_total_zero: "load_total obj k picks m = Ok (v, m') \<Longrightarrow> aligned_zero m \<Longrightarrow> aligned_zero m'"
proof (induction k arbitrary: v m')
  case (Suc k)
  then obtain a m1 b where "aligned_zero m1" and l: "atomic_load SeqCst 0 (obj k) (picks k) m1 = Ok (b, m')"
    by (fastforce simp: outcome_simps)
  then show ?case using atomic_load_D(4,5) [OF l] atomic_load_mwf [OF _ l] by (auto simp: aligned_zero_def)
qed simp






section \<open>Properties\<close>

text \<open>
  C19. The program as main runs it: for any number of threads and iterations whose product fits a \<open>long\<close>,
  the packed test and then, on the machine it and its sum leave behind, the aligned test never reach an
  undefined step, finish from every reachable state under every schedule, and the sum main computes
  after the joins is in both exactly threads times iterations, without overflow.
\<close>

theorem cache_totals_correct:
  assumes "int (n * iters) < 2 ^ 63"
  shows "total_correct (packed_test n iters) (packed_total n) (int (n * iters)) (n * (iters + 3) + 2) (init_machine (\<lambda>_. 0)) \<and>
    (\<forall>s picks v m. reach (fj_step (packed_test n iters)) (fj_init (init_machine (\<lambda>_. 0))) s \<longrightarrow>
       packed_total n picks (shared s) = Ok (v, m) \<longrightarrow>
       total_correct (aligned_test n iters) (aligned_total n) (int (n * iters)) (n * (iters + 3) + 2) m)"
proof (intro conjI allI impI)
  have t: "packed_total n = load_total Packed n" "aligned_total n = load_total Aligned n"
    by (simp_all add: fun_eq_iff packed_total_def aligned_total_def)
  show "total_correct (packed_test n iters) (packed_total n) (int (n * iters)) (n * (iters + 3) + 2) (init_machine (\<lambda>_. 0))"
    unfolding ce_progs t by (rule ce_total_correct [OF _ assms ce_ready]) (simp add: inj_def)
  fix s picks v m assume s: "reach (fj_step (packed_test n iters)) (fj_init (init_machine (\<lambda>_. 0))) s"
    and m: "packed_total n picks (shared s) = Ok (v, m)"
  have "aligned_zero m" using load_total_zero packed_aligned_zero [OF s] m unfolding t by blast
  then show "total_correct (aligned_test n iters) (aligned_total n) (int (n * iters)) (n * (iters + 3) + 2) m"
    unfolding ce_progs t by (intro ce_total_correct [OF _ assms] aligned_zero_ready) (simp add: inj_def)
qed

theorem cache_totals_correct_witness:
  "total_correct (packed_test CE_THREADS CE_ITERATIONS) (packed_total CE_THREADS) 40000000 40000014 (init_machine (\<lambda>_. 0))"
  using cache_totals_correct [of CE_THREADS CE_ITERATIONS] by (simp add: CE_THREADS_def CE_ITERATIONS_def)



end
