(* ===== verification/RW_Lock.thy ===== *)
theory RW_Lock
  imports Bounded_Runs Benchmark "HOL-Library.Signed_Division"
begin

text \<open>
  Exercise 02: readers and writers of \<open>shared_data\<close> under a \<open>pthread_rwlock_t\<close>. Workers below the
  number of readers are readers, the others writers, in the order main creates and joins them.

  The lock hands a reader the view of the last writer, and a writer the views of the last writer and
  of all readers so far. The invariant follows the two kinds of access separately: no thread but the
  writer who holds the lock has seen every read, but every read is in the views the lock keeps or in
  the view of a reader that still holds it.
\<close>

section \<open>Objects, constants, program points\<close>

datatype rw_obj = SharedData | RwLock

type_synonym rw_machine = "(rw_obj, int) machine"

definition NUM_READERS :: nat where "NUM_READERS = 8"

definition NUM_WRITERS :: nat where "NUM_WRITERS = 2"

definition OPERATIONS :: nat where "OPERATIONS = 10"

text \<open>The last value carried by a point is what the thread has printed.\<close>

datatype rw_pc =
    RdLoop nat | RdHeld nat | RdDone nat int | RdRet
  | WrLoop nat | WrRead nat | WrStore nat int | WrPrint nat | WrDone nat int | WrRet

section \<open>Threads\<close>

text \<open>\<open>sleep_for_us\<close> computes the argument of \<open>nanosleep\<close>; C division truncates towards zero.\<close>

definition sleep_for_us :: "int \<Rightarrow> timespec" where
  "sleep_for_us usec = \<lparr>tv_sec = usec sdiv 1000000, tv_nsec = (usec smod 1000000) * 1000\<rparr>"

fun reader :: "nat \<Rightarrow> tid \<Rightarrow> rw_pc \<Rightarrow> rw_machine \<Rightarrow> (rw_pc \<times> rw_machine) outcome" where
  "reader ops t (RdLoop i) m =
     (if i < ops then obind (rwlock_rdlock t RwLock m) (\<lambda>m'. Ok (RdHeld i, m')) else Ok (RdRet, m))"
| "reader ops t (RdHeld i) m = obind (na_load t SharedData m) (\<lambda>(v, m'). Ok (RdDone i v, m'))"
| "reader ops t (RdDone i v) m = obind (rwlock_unlock t RwLock m) (\<lambda>m'. Ok (RdLoop (Suc i), m'))"
| "reader ops t _ m = Blocked"

fun writer :: "nat \<Rightarrow> tid \<Rightarrow> rw_pc \<Rightarrow> rw_machine \<Rightarrow> (rw_pc \<times> rw_machine) outcome" where
  "writer ops t (WrLoop i) m =
     (if i < ops then obind (rwlock_wrlock t RwLock m) (\<lambda>m'. Ok (WrRead i, m')) else Ok (WrRet, m))"
| "writer ops t (WrRead i) m = obind (na_load t SharedData m) (\<lambda>(v, m'). Ok (WrStore i v, m'))"
| "writer ops t (WrStore i v) m =
     obind (signed_add 32 v 1) (\<lambda>v'. obind (na_store t SharedData v' m) (\<lambda>m'. Ok (WrPrint i, m')))"
| "writer ops t (WrPrint i) m = obind (na_load t SharedData m) (\<lambda>(v, m'). Ok (WrDone i v, m'))"
| "writer ops t (WrDone i v) m = obind (rwlock_unlock t RwLock m) (\<lambda>m'. Ok (WrLoop (Suc i), m'))"
| "writer ops t _ m = Blocked"

fun rw_halted :: "rw_pc \<Rightarrow> bool" where
  "rw_halted RdRet = True"
| "rw_halted WrRet = True"
| "rw_halted _ = False"

definition rw_main :: "nat \<Rightarrow> nat \<Rightarrow> nat \<Rightarrow> (rw_pc, rw_obj, int) thread_prog" where
  "rw_main nr nw ops =
     \<lparr>nthreads = nr + nw, jorder = [0..<nr] @ [nr..<nr + nw],
      entry = (\<lambda>i. if i < nr then RdLoop 0 else WrLoop 0),
      tstep = (\<lambda>i c. if i < nr then reader ops (Suc i) else writer ops (Suc i)), halted = rw_halted\<rparr>"

text \<open>What main does before the first thread and after the last join: the value printed, the lock destroyed.\<close>

definition rw_start :: rw_machine where
  "rw_start = rwlock_init RwLock (init_machine (\<lambda>_. 0))"

definition rw_finish :: "rw_machine \<Rightarrow> (int \<times> rw_machine) outcome" where
  "rw_finish m = obind (na_load 0 SharedData m) (\<lambda>(v, m'). obind (rwlock_destroy RwLock m') (\<lambda>m''. Ok (v, m'')))"

section \<open>The invariant\<close>

fun reading :: "rw_pc \<Rightarrow> bool" where
  "reading (RdHeld i) = True"
| "reading (RdDone i v) = True"
| "reading _ = False"

fun writing :: "rw_pc \<Rightarrow> bool" where
  "writing (WrRead i) = True"
| "writing (WrStore i v) = True"
| "writing (WrPrint i) = True"
| "writing (WrDone i v) = True"
| "writing _ = False"

fun is_reader :: "rw_pc \<Rightarrow> bool" where
  "is_reader (RdLoop i) = True"
| "is_reader (RdHeld i) = True"
| "is_reader (RdDone i v) = True"
| "is_reader RdRet = True"
| "is_reader _ = False"

fun writes_done :: "nat \<Rightarrow> rw_pc option \<Rightarrow> nat" where
  "writes_done ops (Some (WrLoop i)) = i"
| "writes_done ops (Some (WrRead i)) = i"
| "writes_done ops (Some (WrStore i v)) = i"
| "writes_done ops (Some (WrPrint i)) = Suc i"
| "writes_done ops (Some (WrDone i v)) = Suc i"
| "writes_done ops (Some WrRet) = ops"
| "writes_done ops _ = 0"

fun rw_bounded :: "nat \<Rightarrow> rw_pc \<Rightarrow> bool" where
  "rw_bounded ops (WrLoop i) = (i \<le> ops)"
| "rw_bounded ops (WrRead i) = (i < ops)"
| "rw_bounded ops (WrStore i v) = (i < ops)"
| "rw_bounded ops (WrPrint i) = (i < ops)"
| "rw_bounded ops (WrDone i v) = (i < ops)"
| "rw_bounded ops (RdLoop i) = (i \<le> ops)"
| "rw_bounded ops (RdHeld i) = (i < ops)"
| "rw_bounded ops (RdDone i v) = (i < ops)"
| "rw_bounded ops _ = True"

text \<open>The value of \<open>shared_data\<close> a thread has read under the lock it still holds.\<close>

fun held_value :: "rw_pc \<Rightarrow> int option" where
  "held_value (RdDone i v) = Some v"
| "held_value (WrStore i v) = Some v"
| "held_value (WrDone i v) = Some v"
| "held_value _ = None"

definition total_writes :: "nat \<Rightarrow> nat \<Rightarrow> (nat \<Rightarrow> rw_pc option) \<Rightarrow> nat" where
  "total_writes n ops L = (\<Sum>j<n. writes_done ops (L j))"

text \<open>Every read of \<open>shared_data\<close> is in the lock's views or in the view of a reader that holds the lock.\<close>

definition reads_kept :: "rw_machine \<Rightarrow> bool" where
  "reads_kept m \<longleftrightarrow> (\<forall>t.
     count_list (rds m SharedData) t
       \<le> max (wr_released (rwl m RwLock) (R SharedData t)) (rd_released (rwl m RwLock) (R SharedData t)) \<or>
     t \<in> set (rd_holders (rwl m RwLock)) \<and> count_list (rds m SharedData) t \<le> cur m t (R SharedData t))"

definition lock_inv :: "rw_machine \<Rightarrow> (nat \<Rightarrow> rw_pc option) \<Rightarrow> bool" where
  "lock_inv m L \<longleftrightarrow>
     distinct (rd_holders (rwl m RwLock)) \<and>
     set (rd_holders (rwl m RwLock)) = {Suc i |i. \<exists>p. L i = Some p \<and> reading p} \<and>
     (\<forall>t. wr_holder (rwl m RwLock) = Some t \<longleftrightarrow> (\<exists>i p. t = Suc i \<and> L i = Some p \<and> writing p)) \<and>
     (wr_holder (rwl m RwLock) \<noteq> None \<longrightarrow> rd_holders (rwl m RwLock) = [])"

definition data_inv :: "rw_machine \<Rightarrow> (nat \<Rightarrow> rw_pc option) \<Rightarrow> bool" where
  "data_inv m L \<longleftrightarrow>
     (\<forall>i p. L i = Some p \<longrightarrow> writing p \<longrightarrow> knows (cur m (Suc i)) SharedData m) \<and>
     (\<forall>i p. L i = Some p \<longrightarrow> reading p \<longrightarrow> knows_writes (cur m (Suc i)) SharedData m) \<and>
     (wr_holder (rwl m RwLock) = None \<longrightarrow>
        knows_writes (wr_released (rwl m RwLock)) SharedData m \<and> reads_kept m)"

definition rw_inv :: "nat \<Rightarrow> nat \<Rightarrow> nat \<Rightarrow> rw_machine \<Rightarrow> (nat \<Rightarrow> rw_pc option) \<Rightarrow> bool" where
  "rw_inv nr nw ops m L \<longleftrightarrow>
     lock_inv m L \<and> data_inv m L \<and>
     value_of m SharedData = int (total_writes (nr + nw) ops L) \<and>
     (\<forall>i p v. L i = Some p \<longrightarrow> held_value p = Some v \<longrightarrow> v = value_of m SharedData) \<and>
     (\<forall>i p. L i = Some p \<longrightarrow> i < nr + nw \<and> (is_reader p \<longleftrightarrow> i < nr) \<and> rw_bounded ops p) \<and>
     int (nw * ops) < 2 ^ 31"

text \<open>The static initial state, with so few writes that an \<open>int\<close> can count them.\<close>

definition rw_ready :: "nat \<Rightarrow> nat \<Rightarrow> rw_machine \<Rightarrow> bool" where
  "rw_ready nw ops m \<longleftrightarrow> m = init_machine (\<lambda>_. 0) \<and> int (nw * ops) < 2 ^ 31"

text \<open>Steps a thread still has to take.\<close>

fun rw_left :: "nat \<Rightarrow> rw_pc option \<Rightarrow> nat" where
  "rw_left ops (Some (RdLoop i)) = 3 * (ops - i) + 1"
| "rw_left ops (Some (RdHeld i)) = 3 * (ops - i)"
| "rw_left ops (Some (RdDone i v)) = 3 * (ops - i) - 1"
| "rw_left ops (Some (WrLoop i)) = 5 * (ops - i) + 1"
| "rw_left ops (Some (WrRead i)) = 5 * (ops - i)"
| "rw_left ops (Some (WrStore i v)) = 5 * (ops - i) - 1"
| "rw_left ops (Some (WrPrint i)) = 5 * (ops - i) - 2"
| "rw_left ops (Some (WrDone i v)) = 5 * (ops - i) - 3"
| "rw_left ops _ = 0"

definition rw_work :: "nat \<Rightarrow> nat \<Rightarrow> (nat \<Rightarrow> rw_pc option) \<Rightarrow> nat" where
  "rw_work n ops L = (\<Sum>j<n. rw_left ops (L j))"

lemma total_writes_upd:
  assumes "i < n"
  shows "total_writes n ops (L(i \<mapsto> p)) + writes_done ops (L i) = total_writes n ops L + writes_done ops (Some p)"
proof -
  have "(\<lambda>j. writes_done ops ((L(i \<mapsto> p)) j)) = (\<lambda>j. writes_done ops (L j))(i := writes_done ops (Some p))"
    by auto
  then show ?thesis unfolding total_writes_def
    using sum_upd_in [OF assms, of "\<lambda>j. writes_done ops (L j)" "writes_done ops (Some p)"] by (simp only:)
qed

lemma reads_kept_cong:
  assumes "rds m' SharedData = rds m SharedData" and "rwl m' RwLock = rwl m RwLock"
    and "\<And>t. t \<in> set (rd_holders (rwl m RwLock)) \<Longrightarrow> cur m' t = cur m t"
  shows "reads_kept m' = reads_kept m"
  using assms(3) unfolding reads_kept_def assms(1,2) by auto

lemma rw_invD:
  assumes "rw_inv nr nw ops m L"
  shows "lock_inv m L" and "data_inv m L" and "value_of m SharedData = int (total_writes (nr + nw) ops L)"
    and "L i = Some p \<Longrightarrow> held_value p = Some v \<Longrightarrow> v = value_of m SharedData"
    and "L i = Some p \<Longrightarrow> i < nr + nw" and "L i = Some p \<Longrightarrow> is_reader p \<longleftrightarrow> i < nr"
    and "L i = Some p \<Longrightarrow> rw_bounded ops p" and "int (nw * ops) < 2 ^ 31"
  using assms by (auto simp: rw_inv_def)

text \<open>
  A step of a thread that changes neither the lock nor the data: only the bounds and the counted writes
  of the new point matter.
\<close>

lemma lock_inv_upd:
  assumes "lock_inv m L" and "reading p' \<longleftrightarrow> (\<exists>p. L i = Some p \<and> reading p)"
    and "writing p' \<longleftrightarrow> (\<exists>p. L i = Some p \<and> writing p)" and "rwl m' RwLock = rwl m RwLock"
  shows "lock_inv m' (L(i \<mapsto> p'))"
proof -
  have "(\<exists>q. (L(i \<mapsto> p')) j = Some q \<and> reading q) \<longleftrightarrow> (\<exists>q. L j = Some q \<and> reading q)" for j
    using assms(2) by auto
  moreover have "(\<exists>q. (L(i \<mapsto> p')) j = Some q \<and> writing q) \<longleftrightarrow> (\<exists>q. L j = Some q \<and> writing q)" for j
    using assms(3) by auto
  ultimately show ?thesis using assms(1) unfolding lock_inv_def assms(4) by simp
qed

lemma lock_inv_same:
  assumes "lock_inv m L" and "L i = Some p" and "reading p' = reading p" and "writing p' = writing p"
    and "rwl m' RwLock = rwl m RwLock"
  shows "lock_inv m' (L(i \<mapsto> p'))"
  using assms by (intro lock_inv_upd [OF assms(1)]) auto

lemma rw_invI:
  assumes "rw_inv nr nw ops m L" and "L i = Some p" and "lock_inv m' (L(i \<mapsto> p'))" and "data_inv m' (L(i \<mapsto> p'))"
    and "value_of m' SharedData = value_of m SharedData"
    and "writes_done ops (Some p') = writes_done ops (Some p)"
    and "\<And>v. held_value p' = Some v \<Longrightarrow> v = value_of m SharedData"
    and "is_reader p' = is_reader p" and "rw_bounded ops p'"
  shows "rw_inv nr nw ops m' (L(i \<mapsto> p'))"
proof -
  note D = rw_invD [OF assms(1)]
  have "total_writes (nr + nw) ops (L(i \<mapsto> p')) = total_writes (nr + nw) ops L"
    using total_writes_upd [OF D(5) [OF assms(2)], of ops L p'] assms(2,6) by simp
  then show ?thesis unfolding rw_inv_def assms(5)
    using assms(3,4,7,8,9) D(3,4,5,6,7,8) assms(2) by (auto split: if_splits)
qed

lemma lock_inv_writer:
  assumes "lock_inv m L" and "L i = Some p" and "writing p"
  shows "wr_holder (rwl m RwLock) = Some (Suc i)" and "rd_holders (rwl m RwLock) = []"
    and "L j = Some q \<Longrightarrow> \<not> reading q" and "L j = Some q \<Longrightarrow> writing q \<Longrightarrow> j = i"
proof -
  have w: "(\<exists>i p. t = Suc i \<and> L i = Some p \<and> writing p) \<Longrightarrow> wr_holder (rwl m RwLock) = Some t" for t
    using assms(1) by (simp add: lock_inv_def)
  show h: "wr_holder (rwl m RwLock) = Some (Suc i)" using assms(2,3) by (intro w) blast
  then show e: "rd_holders (rwl m RwLock) = []" using assms(1) by (simp add: lock_inv_def)
  have "set (rd_holders (rwl m RwLock)) = {Suc i |i. \<exists>p. L i = Some p \<and> reading p}"
    using assms(1) by (simp add: lock_inv_def)
  then show "L j = Some q \<Longrightarrow> \<not> reading q" unfolding e by auto
  show "j = i" if "L j = Some q" "writing q" using w [of "Suc j"] that h by auto
qed

lemma lock_inv_reader:
  assumes "lock_inv m L" and "L i = Some p" and "reading p"
  shows "wr_holder (rwl m RwLock) = None" and "Suc i \<in> set (rd_holders (rwl m RwLock))"
    and "L j = Some q \<Longrightarrow> \<not> writing q"
proof -
  have s: "set (rd_holders (rwl m RwLock)) = {Suc i |i. \<exists>p. L i = Some p \<and> reading p}"
    using assms(1) by (simp add: lock_inv_def)
  then show r: "Suc i \<in> set (rd_holders (rwl m RwLock))" using assms(2,3) by auto
  then show "wr_holder (rwl m RwLock) = None" using assms(1) by (auto simp: lock_inv_def)
  show "L j = Some q \<Longrightarrow> \<not> writing q" using lock_inv_writer(2) [OF assms(1)] r by fastforce
qed

section \<open>Steps of the lock\<close>

lemma rdlock_inv:
  assumes li: "lock_inv m L" and di: "data_inv m L" and L: "L i = Some (RdLoop k)"
    and st: "rwlock_rdlock (Suc i) RwLock m = Ok m'"
  shows "lock_inv m' (L(i \<mapsto> RdHeld k))" and "data_inv m' (L(i \<mapsto> RdHeld k))"
proof -
  note D = rwlock_rdlock_D [OF st]
  have nw: "\<not> writing q" if "L j = Some q" for j q
    using lock_inv_writer(1) [OF li that] D(1) by auto
  have "Suc i \<notin> set (rd_holders (rwl m RwLock))" using li L by (auto simp: lock_inv_def)
  then show "lock_inv m' (L(i \<mapsto> RdHeld k))"
    using li D(1) L nw unfolding lock_inv_def D(2) by (auto split: if_splits)
  have le: "cur m t \<le> cur m' t" for t using D(5) by (rule grows_le)
  have kw: "knows_writes v SharedData m' = knows_writes v SharedData m" for v
    by (simp add: knows_writes_def D(3))
  have d: "knows_writes (wr_released (rwl m RwLock)) SharedData m" "reads_kept m"
    using di D(1) by (simp_all add: data_inv_def)
  have "knows_writes (cur m' (Suc i)) SharedData m'"
    by (rule knows_writes_mono [OF d(1) D(6)]) (simp add: D(3))
  moreover have "reads_kept m'"
    using d(2) le unfolding reads_kept_def D(2,4) by (fastforce simp: le_fun_def intro: order.trans)
  moreover have "knows_writes (cur m' (Suc j)) SharedData m'" if "L j = Some q" "reading q" for j q
    by (rule knows_writes_mono [OF _ le]) (use di that D(3) in \<open>auto simp: data_inv_def\<close>)
  ultimately show "data_inv m' (L(i \<mapsto> RdHeld k))"
    using d(1) nw unfolding data_inv_def D(2) by (auto simp: kw split: if_splits)
qed

lemma wrlock_inv:
  assumes li: "lock_inv m L" and di: "data_inv m L" and L: "L i = Some (WrLoop k)"
    and st: "rwlock_wrlock (Suc i) RwLock m = Ok m'"
  shows "lock_inv m' (L(i \<mapsto> WrRead k))" and "data_inv m' (L(i \<mapsto> WrRead k))"
proof -
  note D = rwlock_wrlock_D [OF st]
  have nw: "\<not> writing q" if "L j = Some q" for j q
    using lock_inv_writer(1) [OF li that] D(1) by auto
  have nr: "\<not> reading q" if "L j = Some q" for j q
    using lock_inv_reader(2) [OF li that] D(2) by auto
  show "lock_inv m' (L(i \<mapsto> WrRead k))"
    using li D(1,2) L nw nr unfolding lock_inv_def D(3) by (auto split: if_splits)
  have d: "knows_writes (wr_released (rwl m RwLock)) SharedData m" "reads_kept m"
    using di D(1) by (simp_all add: data_inv_def)
  have "knows_writes (cur m' (Suc i)) SharedData m'"
    by (rule knows_writes_mono [OF d(1) order.trans [OF sup_ge1 D(7)]]) (simp add: D(4))
  moreover have "count_list (rds m' SharedData) t \<le> cur m' (Suc i) (R SharedData t)" for t
  proof -
    have "count_list (rds m SharedData) t
        \<le> sup (wr_released (rwl m RwLock)) (rd_released (rwl m RwLock)) (R SharedData t)"
      using d(2) D(2) by (simp add: reads_kept_def sup_max)
    then show ?thesis using D(5,7) by (auto simp: le_fun_def intro: order.trans)
  qed
  ultimately have "knows (cur m' (Suc i)) SharedData m'" by (simp add: knows_def)
  then show "data_inv m' (L(i \<mapsto> WrRead k))"
    using nw nr unfolding data_inv_def D(3) by (auto split: if_splits)
qed

lemma rd_unlock_inv:
  assumes li: "lock_inv m L" and di: "data_inv m L" and L: "L i = Some (RdDone k v)"
    and st: "rwlock_unlock (Suc i) RwLock m = Ok m'"
  shows "lock_inv m' (L(i \<mapsto> RdLoop k'))" and "data_inv m' (L(i \<mapsto> RdLoop k'))"
proof -
  note H = lock_inv_reader [OF li L, simplified]
  have h: "wr_holder (rwl m RwLock) \<noteq> Some (Suc i)" using H(1) by simp
  note D = rwlock_unlock_D(1-3) [OF st] rwlock_unlock_D(5) [OF st h]
  have s: "set (rd_holders (rwl m RwLock)) = {Suc i |i. \<exists>p. L i = Some p \<and> reading p}"
    and dist: "distinct (rd_holders (rwl m RwLock))"
    using li by (simp_all add: lock_inv_def)
  show "lock_inv m' (L(i \<mapsto> RdLoop k'))"
    using H(1,3) dist unfolding lock_inv_def D(4) by (auto simp: s split: if_splits)
  have d: "knows_writes (wr_released (rwl m RwLock)) SharedData m" "reads_kept m"
    using di H(1) by (simp_all add: data_inv_def)
  have "reads_kept m'" unfolding reads_kept_def
  proof
    fix t
    show "count_list (rds m' SharedData) t \<le>
        max (wr_released (rwl m' RwLock) (R SharedData t)) (rd_released (rwl m' RwLock) (R SharedData t)) \<or>
      t \<in> set (rd_holders (rwl m' RwLock)) \<and> count_list (rds m' SharedData) t \<le> cur m' t (R SharedData t)"
      using d(2) [unfolded reads_kept_def, rule_format, of t] dist
      by (cases "t = Suc i") (auto simp: D(2,3,4) sup_max)
  qed
  then show "data_inv m' (L(i \<mapsto> RdLoop k'))"
    using d(1) di H(1,3) unfolding data_inv_def D(3,4) by (auto simp: knows_writes_def D(1) split: if_splits)
qed

lemma wr_unlock_inv:
  assumes li: "lock_inv m L" and di: "data_inv m L" and L: "L i = Some (WrDone k v)"
    and st: "rwlock_unlock (Suc i) RwLock m = Ok m'"
  shows "lock_inv m' (L(i \<mapsto> WrLoop k'))" and "data_inv m' (L(i \<mapsto> WrLoop k'))"
proof -
  note H = lock_inv_writer [OF li L, simplified]
  note D = rwlock_unlock_D(1-3) [OF st] rwlock_unlock_D(4) [OF st H(1)]
  show "lock_inv m' (L(i \<mapsto> WrLoop k'))"
    using H unfolding lock_inv_def D(4) by (auto split: if_splits)
  have k: "knows (cur m (Suc i)) SharedData m" using di L by (auto simp: data_inv_def)
  have "knows_writes (wr_released (rwl m' RwLock)) SharedData m'"
    by (rule knows_writes_mono [OF knows_imp_writes [OF k]]) (simp_all add: D)
  moreover have "count_list (rds m SharedData) t \<le> cur m (Suc i) (R SharedData t)" for t
    using k by (cases "t \<in> set (rds m SharedData)") (auto simp: knows_def count_list_0_iff)
  then have "reads_kept m'" by (simp add: reads_kept_def D sup_max le_max_iff_disj)
  ultimately show "data_inv m' (L(i \<mapsto> WrLoop k'))"
    using H(3,4) unfolding data_inv_def by (auto split: if_splits)
qed

section \<open>Steps on the data\<close>

lemma rd_load_inv:
  assumes li: "lock_inv m L" and di: "data_inv m L" and L: "L i = Some (RdHeld k)"
    and st: "na_load (Suc i) SharedData m = Ok (v, m')"
  shows "data_inv m' (L(i \<mapsto> RdDone k v))"
proof -
  note H = lock_inv_reader [OF li L, simplified] and D = na_load_D [OF st] and R = na_load_reads [OF st]
  have le: "cur m t \<le> cur m' t" for t using D(8) by (rule grows_le)
  have d: "knows_writes (wr_released (rwl m RwLock)) SharedData m" "reads_kept m"
    using di H(1) by (simp_all add: data_inv_def)
  have "reads_kept m'" unfolding reads_kept_def
  proof
    fix t
    have "cur m t (R SharedData t) \<le> cur m' t (R SharedData t)" using le by (simp add: le_fun_def)
    then show "count_list (rds m' SharedData) t \<le>
        max (wr_released (rwl m' RwLock) (R SharedData t)) (rd_released (rwl m' RwLock) (R SharedData t)) \<or>
      t \<in> set (rd_holders (rwl m' RwLock)) \<and> count_list (rds m' SharedData) t \<le> cur m' t (R SharedData t)"
      using d(2) [unfolded reads_kept_def, rule_format, of t] R H(2)
      by (cases "t = Suc i") (auto simp: D(6))
  qed
  moreover have "knows_writes (cur m' (Suc j)) SharedData m'" if "L j = Some q" "reading q" for j q
    by (rule knows_writes_mono [OF _ le]) (use di that D(3) in \<open>auto simp: data_inv_def\<close>)
  moreover have "knows_writes (cur m' (Suc i)) SharedData m'"
    by (rule knows_writes_mono [OF D(2) le]) (simp add: D(3))
  ultimately show ?thesis
    using d(1) H(1,3) unfolding data_inv_def D(6) by (auto simp: knows_writes_def D(3) split: if_splits)
qed

text \<open>The writer, alone with the lock, stays alone.\<close>

lemma wr_data_inv:
  assumes li: "lock_inv m L" and L: "L i = Some p" "writing p"
    and k: "knows (cur m' (Suc i)) SharedData m'" and l: "rwl m' RwLock = rwl m RwLock" and p': "\<not> reading p'"
  shows "data_inv m' (L(i \<mapsto> p'))"
  using lock_inv_writer [OF li L] k l p' unfolding data_inv_def
  by (auto split: if_splits)

lemma sum_ifs: "(\<Sum>j<a + b. if j < a then d else c) = a * d + b * (c :: nat)"
  by (induction b) simp_all

lemma total_writes_bound:
  assumes "rw_inv nr nw ops m L" and "L i = Some (WrStore k v)"
  shows "Suc (total_writes (nr + nw) ops L) \<le> nw * ops"
proof -
  note D = rw_invD [OF assms(1)]
  have le: "writes_done ops (L j) \<le> (if j < nr then 0 else ops)" if "j < nr + nw" for j
  proof (cases "L j")
    case (Some p)
    then show ?thesis using D(6,7) [OF Some] by (cases p) auto
  qed simp
  have i: "i < nr + nw" "\<not> i < nr" "k < ops" using D(5,6,7) [OF assms(2)] by simp_all
  have "total_writes (nr + nw) ops L < (\<Sum>j<nr + nw. if j < nr then 0 else ops)"
    unfolding total_writes_def using i le assms(2)
    by (intro sum_strict_mono_ex1) (auto intro!: bexI [of _ i])
  then show ?thesis by (simp add: sum_ifs)
qed

lemma rw_no_overflow:
  assumes "rw_inv nr nw ops m L" and "L i = Some (WrStore k v)"
  shows "signed_add 32 v 1 = Ok (v + 1)"
proof -
  have "v + 1 = int (Suc (total_writes (nr + nw) ops L))"
    using rw_invD(3) [OF assms(1)] rw_invD(4) [OF assms] by simp
  moreover have "int (Suc (total_writes (nr + nw) ops L)) < 2 ^ 31"
    using total_writes_bound [OF assms] rw_invD(8) [OF assms(1)] by linarith
  ultimately show ?thesis by (simp add: signed_add_def signed_range_def)
qed

lemma wr_store_inv:
  assumes inv: "rw_inv nr nw ops m L" and L: "L i = Some (WrStore k v)"
    and st: "na_store (Suc i) SharedData (v + 1) m = Ok m'"
  shows "rw_inv nr nw ops m' (L(i \<mapsto> WrPrint k))"
proof -
  note I = rw_invD [OF inv] and D = na_store_D [OF st]
  have l: "lock_inv m' (L(i \<mapsto> WrPrint k))"
    by (rule lock_inv_same [OF I(1) L]) (simp_all add: D(6))
  have d: "data_inv m' (L(i \<mapsto> WrPrint k))"
    by (rule wr_data_inv [OF I(1) L]) (use D(6,9) in simp_all)
  have "total_writes (nr + nw) ops (L(i \<mapsto> WrPrint k)) = Suc (total_writes (nr + nw) ops L)"
    using total_writes_upd [OF I(5) [OF L], of ops L "WrPrint k"] L by simp
  then have v: "value_of m' SharedData = int (total_writes (nr + nw) ops (L(i \<mapsto> WrPrint k)))"
    using I(3) I(4) [OF L] by (simp add: D(2))
  have "held_value q = None" if "(L(i \<mapsto> WrPrint k)) j = Some q" for j q
  proof (cases "j = i")
    case False
    then have "L j = Some q" using that by simp
    from lock_inv_writer(3,4) [OF I(1) L _ this] False have "\<not> reading q" "\<not> writing q" by auto
    then show ?thesis by (cases q) auto
  qed (use that in auto)
  then have "\<forall>j q v. (L(i \<mapsto> WrPrint k)) j = Some q \<longrightarrow> held_value q = Some v \<longrightarrow> v = value_of m' SharedData"
    by fastforce
  moreover have "j < nr + nw \<and> is_reader q = (j < nr) \<and> rw_bounded ops q" if "(L(i \<mapsto> WrPrint k)) j = Some q" for j q
    using that I(5,6,7) I(5,6,7) [OF L] by (cases "j = i") auto
  ultimately show ?thesis unfolding rw_inv_def using l d v I(8) by blast
qed

text \<open>Every step of a reader or a writer keeps the invariant.\<close>

lemma reader_inv:
  assumes inv: "rw_inv nr nw ops m L" and L: "L i = Some p" and st: "reader ops (Suc i) p m = Ok (p', m')"
  shows "rw_inv nr nw ops m' (L(i \<mapsto> p'))"
proof -
  note I = rw_invD [OF inv]
  note go = rw_invI [OF inv L]
  show ?thesis
  proof (cases p)
    case (RdLoop k)
    consider (ret) "p' = RdRet" "m' = m" | (lock) "p' = RdHeld k" "k < ops" "rwlock_rdlock (Suc i) RwLock m = Ok m'"
      using st by (auto simp: RdLoop outcome_simps split: if_splits)
    then show ?thesis
    proof cases
      case ret
      have "data_inv m (L(i \<mapsto> RdRet))" using I(2) unfolding data_inv_def by (auto split: if_splits)
      then show ?thesis unfolding ret using lock_inv_same [OF I(1) L, of RdRet m] RdLoop
        by (intro go) simp_all
    next
      case lock
      note D = rwlock_rdlock_D [OF lock(3)]
      show ?thesis unfolding lock(1)
        using rdlock_inv [OF I(1,2) L [unfolded RdLoop] lock(3)] lock(2) RdLoop
        by (intro go) (simp_all add: value_of_def D(3))
    qed
  next
    case (RdHeld k)
    then obtain v where v: "p' = RdDone k v" "na_load (Suc i) SharedData m = Ok (v, m')"
      using st by (auto simp: outcome_simps)
    note D = na_load_D [OF v(2)]
    have "lock_inv m' (L(i \<mapsto> p'))" by (rule lock_inv_same [OF I(1) L]) (simp_all add: D(6) RdHeld v)
    then show ?thesis
      using rd_load_inv [OF I(1,2) L [unfolded RdHeld] v(2)] I(7) [OF L] RdHeld v
      by (intro go) (simp_all add: value_of_def D(1,3))
  next
    case (RdDone k v)
    then have v: "p' = RdLoop (Suc k)" "rwlock_unlock (Suc i) RwLock m = Ok m'"
      using st by (auto simp: outcome_simps)
    then show ?thesis
      using rd_unlock_inv [OF I(1,2) L [unfolded RdDone] v(2)] I(7) [OF L] RdDone rwlock_unlock_D(1) [OF v(2)]
      by (intro go) (simp_all add: value_of_def)
  qed (use st in simp_all)
qed

lemma writer_inv:
  assumes inv: "rw_inv nr nw ops m L" and L: "L i = Some p" and st: "writer ops (Suc i) p m = Ok (p', m')"
  shows "rw_inv nr nw ops m' (L(i \<mapsto> p'))"
proof -
  note I = rw_invD [OF inv]
  note go = rw_invI [OF inv L]
  have load: "rw_inv nr nw ops m' (L(i \<mapsto> p'))"
    if ld: "na_load (Suc i) SharedData m = Ok (v, m')" and p: "writing p" "writing p'" "\<not> is_reader p"
      and w: "writes_done ops (Some p') = writes_done ops (Some p)" "rw_bounded ops p'"
      and s: "\<And>w. held_value p' = Some w \<Longrightarrow> w = v" for v
  proof -
    note D = na_load_D [OF ld]
    have r: "\<not> reading p" "\<not> reading p'" "\<not> is_reader p'" using p by (cases p; simp; cases p'; simp)+
    have "knows (cur m (Suc i)) SharedData m" using I(2) L p by (auto simp: data_inv_def)
    then have "data_inv m' (L(i \<mapsto> p'))" using wr_data_inv [OF I(1) L p(1)] D(6,9) r by simp
    moreover have "lock_inv m' (L(i \<mapsto> p'))" by (rule lock_inv_same [OF I(1) L]) (use p r D(6) in simp_all)
    ultimately show ?thesis using w s p(3) r(3) D(1) by (intro go) (simp_all add: value_of_def D(3))
  qed
  show ?thesis
  proof (cases p)
    case (WrLoop k)
    consider (ret) "p' = WrRet" "m' = m" "\<not> k < ops" | (lock) "p' = WrRead k" "k < ops" "rwlock_wrlock (Suc i) RwLock m = Ok m'"
      using st by (auto simp: WrLoop outcome_simps split: if_splits)
    then show ?thesis
    proof cases
      case ret
      have "data_inv m (L(i \<mapsto> WrRet))" using I(2) unfolding data_inv_def by (auto split: if_splits)
      moreover have "k = ops" using I(7) [OF L] ret(3) WrLoop by simp
      ultimately show ?thesis unfolding ret using lock_inv_same [OF I(1) L, of WrRet m] WrLoop
        by (intro go) simp_all
    next
      case lock
      note D = rwlock_wrlock_D [OF lock(3)]
      show ?thesis unfolding lock(1)
        using wrlock_inv [OF I(1,2) L [unfolded WrLoop] lock(3)] lock(2) WrLoop
        by (intro go) (simp_all add: value_of_def D(4))
    qed
  next
    case (WrStore k v)
    then have "p' = WrPrint k" "na_store (Suc i) SharedData (v + 1) m = Ok m'"
      using st rw_no_overflow [OF inv] L by (auto simp: outcome_simps)
    then show ?thesis using wr_store_inv [OF inv] L WrStore by simp
  next
    case (WrDone k v)
    then have v: "p' = WrLoop (Suc k)" "rwlock_unlock (Suc i) RwLock m = Ok m'"
      using st by (auto simp: outcome_simps)
    then show ?thesis
      using wr_unlock_inv [OF I(1,2) L [unfolded WrDone] v(2)] I(7) [OF L] WrDone rwlock_unlock_D(1) [OF v(2)]
      by (intro go) (simp_all add: value_of_def)
  next
    case (WrRead k)
    then obtain v where "p' = WrStore k v" "na_load (Suc i) SharedData m = Ok (v, m')"
      using st by (auto simp: outcome_simps)
    then show ?thesis using load I(7) [OF L] WrRead by simp
  next
    case (WrPrint k)
    then obtain v where "p' = WrDone k v" "na_load (Suc i) SharedData m = Ok (v, m')"
      using st by (auto simp: outcome_simps)
    then show ?thesis using load I(7) [OF L] WrPrint by simp
  qed (use st in simp_all)
qed

section \<open>The program\<close>

lemma rw_grows:
  "reader ops t p m = Ok (p', m') \<Longrightarrow> grows t m m'"
  "writer ops t p m = Ok (p', m') \<Longrightarrow> grows t m m'"
proof -
  have u: "grows t m m'" if "rwlock_unlock t x m = Ok m'" for x and m' :: rw_machine
    using rwlock_unlock_D(3) [OF that] by (simp add: grows_def)
  show "reader ops t p m = Ok (p', m') \<Longrightarrow> grows t m m'"
    by (cases p) (auto simp: outcome_simps split: if_splits dest: rwlock_rdlock_D(5) na_load_D(8) u)
  show "writer ops t p m = Ok (p', m') \<Longrightarrow> grows t m m'"
    by (cases p) (auto simp: outcome_simps split: if_splits
        dest: rwlock_wrlock_D(6) na_load_D(8) na_store_D(8) u)
qed

lemma rw_mwf:
  "mwf m \<Longrightarrow> reader ops t p m = Ok (p', m') \<Longrightarrow> mwf m'"
  "mwf m \<Longrightarrow> writer ops t p m = Ok (p', m') \<Longrightarrow> mwf m'"
  by (cases p; auto simp: outcome_simps split: if_splits intro: rwlock_mwf na_load_mwf na_store_mwf)+

lemma rwlock_tracked:
  "rwlock_rdlock t x m = Ok m' \<Longrightarrow> accesses m' k = accesses m k"
  "rwlock_wrlock t x m = Ok m' \<Longrightarrow> accesses m' k = accesses m k"
  "rwlock_unlock t x m = Ok m' \<Longrightarrow> accesses m' k = accesses m k"
  by (cases k; auto dest: rwlock_rdlock_D(3,4) rwlock_wrlock_D(4,5) rwlock_unlock_D(1,2))+

lemma rw_tracked:
  "reader ops t p m = Ok (p', m') \<Longrightarrow> accesses m' k = accesses m k \<or> knows_key (cur m' t) k m'"
  "writer ops t p m = Ok (p', m') \<Longrightarrow> accesses m' k = accesses m k \<or> knows_key (cur m' t) k m'"
  using na_load_tracked na_store_tracked rwlock_tracked
  by (cases p; fastforce simp: outcome_simps split: if_splits)+

text \<open>Which steps can be taken: all but those that wait for the lock.\<close>

lemma rw_enabled:
  assumes inv: "rw_inv nr nw ops m L" and L: "L i = Some p" and "\<not> rw_halted p"
    and free: "reading p \<or> writing p \<or> wr_holder (rwl m RwLock) = None \<and> rd_holders (rwl m RwLock) = []"
  shows "\<exists>p' m'. tstep (rw_main nr nw ops) i c p m = Ok (p', m')"
proof -
  note I = rw_invD [OF inv]
  have load: "\<exists>v m'. na_load (Suc i) SharedData m = Ok (v, m')" if "reading p \<or> writing p"
    using I(2) L that unfolding data_inv_def by (auto simp: na_load_def dest: knows_imp_writes)
  have store: "\<exists>m'. na_store (Suc i) SharedData v m = Ok m'" if "writing p" for v
    using I(2) L that unfolding data_inv_def by (auto simp: na_store_def)
  have unlock: "\<exists>m'. rwlock_unlock (Suc i) RwLock m = Ok m'" if "reading p \<or> writing p"
    using lock_inv_reader(2) [OF I(1) L] lock_inv_writer(1) [OF I(1) L] that by (intro rwlock_ok(3)) blast
  have lock: "\<exists>m'. rwlock_rdlock (Suc i) RwLock m = Ok m'" "\<exists>m'. rwlock_wrlock (Suc i) RwLock m = Ok m'"
    if "\<not> reading p" "\<not> writing p"
    using free that by (auto intro: rwlock_ok)
  have role: "is_reader p = (i < nr)" using I(6) [OF L] .
  show ?thesis
  proof (cases p)
    case (WrStore k v)
    then show ?thesis using store [of "v + 1"] role rw_no_overflow [OF inv, of i] L by (auto simp: rw_main_def)
  qed (use load unlock lock role assms(3) in \<open>auto simp: rw_main_def\<close>)
qed

lemma rw_no_ub:
  assumes inv: "rw_inv nr nw ops m L" and L: "L i = Some p" and "\<not> rw_halted p"
  shows "tstep (rw_main nr nw ops) i c p m \<noteq> UB u"
proof (cases "reading p \<or> writing p")
  case True
  then show ?thesis using rw_enabled [OF assms, of c] by auto
next
  case False
  then show ?thesis using assms(3)
    by (cases p) (auto simp: rw_main_def obind_UB_iff outcome_simps rwlock_no_ub)
qed

lemma rw_left_less:
  assumes "rw_bounded ops p" and "tstep (rw_main nr nw ops) i c p m = Ok (p', m')"
  shows "rw_left ops (Some p') < rw_left ops (Some p)"
  using assms by (cases p) (auto simp: rw_main_def outcome_simps split: if_splits)

lemma rw_work_less:
  assumes "rw_inv nr nw ops m L" and "L i = Some p" and "tstep (rw_main nr nw ops) i c p m = Ok (p', m')"
  shows "rw_work (nr + nw) ops (L(i \<mapsto> p')) < rw_work (nr + nw) ops L"
proof -
  note I = rw_invD [OF assms(1)]
  have "(\<lambda>j. rw_left ops ((L(i \<mapsto> p')) j)) = (\<lambda>j. rw_left ops (L j))(i := rw_left ops (Some p'))" by auto
  then have "rw_work (nr + nw) ops (L(i \<mapsto> p')) + rw_left ops (L i) = rw_work (nr + nw) ops L + rw_left ops (Some p')"
    unfolding rw_work_def
    using sum_upd_in [OF I(5) [OF assms(2)], of "\<lambda>j. rw_left ops (L j)" "rw_left ops (Some p')"] by (simp only:)
  then show ?thesis using rw_left_less [OF I(7) [OF assms(2)] assms(3)] assms(2) by simp
qed

text \<open>A thread that can move: the writer that holds the lock, else a reader that does, else anyone.\<close>

lemma rw_someone_moves:
  assumes inv: "rw_inv nr nw ops m L" and L: "L i = Some p" "\<not> rw_halted p"
  shows "\<exists>j q p' m'. L j = Some q \<and> \<not> rw_halted q \<and> tstep (rw_main nr nw ops) j c q m = Ok (p', m')"
proof (cases "\<exists>j q. L j = Some q \<and> (reading q \<or> writing q)")
  case True
  then obtain j q where j: "L j = Some q" "reading q \<or> writing q" by blast
  then have "\<not> rw_halted q" by (cases q) auto
  then show ?thesis using rw_enabled [OF inv j(1)] j by blast
next
  case False
  note li = rw_invD(1) [OF inv, unfolded lock_inv_def]
  have "set (rd_holders (rwl m RwLock)) = {Suc i |i. \<exists>p. L i = Some p \<and> reading p}" using li by simp
  moreover have "\<dots> = {}" using False by auto
  moreover have "wr_holder (rwl m RwLock) \<noteq> Some t" for t using li False by metis
  ultimately have "wr_holder (rwl m RwLock) = None" "rd_holders (rwl m RwLock) = []" by auto
  then show ?thesis using rw_enabled [OF inv L] L by blast
qed

interpretation rw: fork_join "rw_main nr nw ops" "{SharedData}" "rw_ready nw ops" "rw_inv nr nw ops" for nr nw ops
proof (unfold_locales, goal_cases)
  case 1
  then show ?case by (auto simp: rw_main_def)
next
  case (2 m)
  then show ?case
    by (auto simp: rw_ready_def rw_inv_def lock_inv_def data_inv_def reads_kept_def knows_writes_def total_writes_def)
next
  case (3 m)
  then show ?case by (simp add: rw_ready_def mwf_intros)
next
  case (4 m x)
  then show ?case by (simp add: rw_ready_def)
next
  case (5 m L i)
  let ?p = "entry (rw_main nr nw ops) i" and ?m = "pthread_create 0 (Suc i) m"
  have i: "i < nr + nw" using 5(3) by (simp add: rw_main_def)
  note I = rw_invD [OF 5(1)]
  have p: "\<not> reading ?p" "\<not> writing ?p" "is_reader ?p = (i < nr)" "rw_bounded ops ?p"
    "writes_done ops (Some ?p) = 0" "held_value ?p = None"
    by (auto simp: rw_main_def)
  have "Suc i \<notin> set (rd_holders (rwl m RwLock))" using I(1) 5(2) by (auto simp: lock_inv_def)
  then have rk: "reads_kept ?m = reads_kept m"
    by (intro reads_kept_cong) (simp_all add: frame_simps, metis pthread_create_frame(7))
  have kw: "knows_writes v SharedData ?m = knows_writes v SharedData m"
    and kn: "knows v SharedData ?m = knows v SharedData m" for v
    by (auto simp: knows_writes_def knows_def frame_simps)
  have "lock_inv ?m (L(i \<mapsto> ?p))"
    using p(1,2) 5(2) by (intro lock_inv_upd [OF I(1)]) (simp_all add: frame_simps)
  moreover have "data_inv ?m (L(i \<mapsto> ?p))"
    using I(2) p 5(2) unfolding data_inv_def kw kn rk by (auto simp: frame_simps split: if_splits)
  moreover have "total_writes (nr + nw) ops (L(i \<mapsto> ?p)) = total_writes (nr + nw) ops L"
    using total_writes_upd [OF i, of ops L ?p] 5(2) p(5) by simp
  ultimately show ?case
    using I(3,4,5,6,7,8) p i unfolding rw_inv_def by (auto simp: value_of_def frame_simps split: if_splits)
next
  case (6 m L i p)
  let ?m = "pthread_join 0 (Suc i) m"
  have "0 \<notin> set (rd_holders (rwl m RwLock))" using rw_invD(1) [OF 6(1)] by (auto simp: lock_inv_def)
  then have rk: "reads_kept ?m = reads_kept m"
    by (intro reads_kept_cong) (simp_all add: frame_simps, metis pthread_join_frame(7))
  have kw: "knows_writes v SharedData ?m = knows_writes v SharedData m"
    and kn: "knows v SharedData ?m = knows v SharedData m" for v
    by (auto simp: knows_writes_def knows_def frame_simps)
  have same: "value_of ?m SharedData = value_of m SharedData" "rwl ?m = rwl m" "\<And>j. cur ?m (Suc j) = cur m (Suc j)"
    by (simp_all add: value_of_def frame_simps)
  show ?case using 6(1) unfolding rw_inv_def lock_inv_def data_inv_def kw kn rk same .
next
  case (7 m L i p c p' m')
  then show ?case using reader_inv [OF 7(1,2)] writer_inv [OF 7(1,2)]
    by (auto simp: rw_main_def split: if_splits)
next
  case (8 m L i p c p' m')
  then show ?case using rw_grows by (auto simp: rw_main_def split: if_splits)
next
  case (9 m L i p c p' m' key)
  then show ?case using rw_tracked by (auto simp: rw_main_def split: if_splits)
next
  case (10 m L i p c u)
  then show ?case using rw_no_ub [OF 10(1,2)] by (simp add: rw_main_def)
next
  case (11 m i c p p' m')
  have "reader ops (Suc i) p m = Ok (p', m') \<or> writer ops (Suc i) p m = Ok (p', m')"
    using 11(2) by (simp add: rw_main_def split: if_splits)
  then show ?case using rw_mwf [OF 11(1)] by blast
qed

interpretation rw: fork_join_progress "rw_main nr nw ops" "{SharedData}" "rw_ready nw ops" "rw_inv nr nw ops"
  "\<lambda>m. rw_work (nr + nw) ops" for nr nw ops
proof (unfold_locales, goal_cases)
  case 1
  then show ?case by (auto simp: rw_main_def)
next
  case (2 m L)
  obtain i p where "L i = Some p" "\<not> rw_halted p"
    using 2(4,3) by (rule unfinishedE) (simp add: rw_main_def)
  from rw_someone_moves [OF 2(2) this]
  obtain j q p' m' where j: "L j = Some q" "\<not> rw_halted q" "tstep (rw_main nr nw ops) j Tau q m = Ok (p', m')"
    by blast
  moreover have "solo (rw_main nr nw ops) j q m p' m'"
    by (rule solo_one [OF _ j(3)]) (simp_all add: j(2) rw_main_def)
  ultimately show ?case using rw_work_less [OF 2(2) j(1,3)] by blast
qed

text \<open>No thread spins: every step of a thread brings it closer to its end.\<close>

interpretation rw: fork_join_bounded "rw_main nr nw ops" "{SharedData}" "rw_ready nw ops" "rw_inv nr nw ops"
  "\<lambda>m p. rw_left ops (Some p)" for nr nw ops
proof (unfold_locales, goal_cases)
  case (1 m L i p c p' m')
  show ?case by (rule rw_left_less [OF rw_invD(7) [OF 1(1,2)] 1(6)])
qed simp_all

lemma rw_left_le: "rw_left ops (Some p) \<le> (if is_reader p then 3 else 5) * ops + 1"
  by (cases p) auto

section \<open>What the exercise promises\<close>

text \<open>
  At most one thread is between lock and unlock as a writer, and then no reader is.
\<close>

definition rw_exclusive :: "(nat \<Rightarrow> rw_pc option) \<Rightarrow> bool" where
  "rw_exclusive L \<longleftrightarrow> (\<forall>i j p q. L i = Some p \<longrightarrow> L j = Some q \<longrightarrow> writing p \<longrightarrow>
     \<not> reading q \<and> (writing q \<longrightarrow> i = j))"

lemma rw_final_value:
  assumes "reach (fj_step (rw_main nr nw ops)) (fj_init m) s" and "rw_ready nw ops m" and "mainpc s = Joined"
  shows "value_of (shared s) SharedData = int (nw * ops)"
proof -
  note F = rw.finished [OF assms]
  have "writes_done ops (locals s j) = (if j < nr then 0 else ops)" if "j < nr + nw" for j
    using F(3) [of j] that rw_invD(6) [OF F(1), of j] by (fastforce simp: rw_main_def elim: rw_halted.elims)
  then have "total_writes (nr + nw) ops (locals s) = (\<Sum>j<nr + nw. if j < nr then 0 else ops)"
    unfolding total_writes_def by (intro sum.cong) auto
  also have "\<dots> = nw * ops" by (simp add: sum_ifs)
  finally show ?thesis using rw_invD(3) [OF F(1)] by simp
qed

text \<open>The value main prints after the joins is the number of writes, and the lock it then destroys is free.\<close>

lemma rw_final_read:
  assumes "reach (fj_step (rw_main nr nw ops)) (fj_init m) s" and "rw_ready nw ops m" and "mainpc s = Joined"
  shows "\<exists>m'. rw_finish (shared s) = Ok (int (nw * ops), m')"
proof -
  note F = rw.finished [OF assms]
  have idle: "\<not> reading p \<and> \<not> writing p" if "locals s i = Some p" for i p
  proof -
    have "rw_halted p" using F(3) [of i] rw_invD(5) [OF F(1) that] that by (auto simp: rw_main_def)
    then show ?thesis by (cases p) simp_all
  qed
  have I: "lock_inv (shared s) (locals s)" by (rule rw_invD(1) [OF F(1)])
  then have "set (rd_holders (rwl (shared s) RwLock)) = {}" using idle by (auto simp: lock_inv_def)
  moreover have "wr_holder (rwl (shared s) RwLock) = None"
  proof (rule ccontr)
    assume "wr_holder (rwl (shared s) RwLock) \<noteq> None"
    then obtain t where "wr_holder (rwl (shared s) RwLock) = Some t" by blast
    then show False using I idle by (auto simp: lock_inv_def)
  qed
  moreover have "knows (cur (shared s) 0) SharedData (shared s)" using rw.finished(2) [OF assms] by simp
  ultimately show ?thesis
    by (simp add: rw_finish_def na_load_def knows_imp_writes rw_final_value [OF assms] rwlock_destroy_def frame_simps
        del: of_nat_mult)
qed

lemma rw_inv_exclusive: "rw_inv nr nw ops m L \<Longrightarrow> rw_exclusive L"
  unfolding rw_exclusive_def by (metis rw_invD(1) lock_inv_writer(3,4))

text \<open>What every execution of the program does, and that every one ends.\<close>

lemma rw_all_runs:
  assumes "int (nw * ops) < 2 ^ 31" and "reach (fj_step (rw_main nr nw ops)) (fj_init rw_start) s"
  shows "fj_step (rw_main nr nw ops) e s \<noteq> UB u \<and> rw_exclusive (locals s) \<and>
    can_finish (rw_main nr nw ops) s \<and>
    (mainpc s = Joined \<longrightarrow> (\<exists>m'. rw_finish (shared s) = Ok (int (nw * ops), m')))"
proof -
  have r: "rw_ready nw ops rw_start" using assms(1) by (simp add: rw_ready_def rw_start_def)
  note I = rw.reach_linv [OF assms(2) r]
  show ?thesis
    using rw.thread_safe [OF assms(2) r] rw_inv_exclusive [OF I] rw.always_can_finish [OF assms(2) r]
      rw_final_read [OF assms(2) r] by blast
qed

lemma rw_all_end:
  assumes "int (nw * ops) < 2 ^ 31" and "reach (fj_step (rw_main nr nw ops)) (fj_init rw_start) s"
  shows "ends_within (rw_main nr nw ops) (nr * (3 * ops + 3) + nw * (5 * ops + 3) + 2) s"
proof -
  let ?P = "rw_main nr nw ops" and ?b = "\<lambda>j. if j < nr then 3 * ops + 1 else 5 * ops + 1"
  have r: "rw_ready nw ops rw_start" using assms(1) by (simp add: rw_ready_def rw_start_def)
  have "is_reader (point ?P (locals s) j) = (j < nr)" for j
    using rw_invD(6) [OF rw.reach_linv [OF assms(2) r]] by (cases "locals s j") (auto simp: rw_main_def)
  then have "rw_left ops (Some (point ?P (locals s) j)) \<le> ?b j" for j
    using rw_left_le [of ops "point ?P (locals s) j"] by (cases "j < nr") simp_all
  then show ?thesis using sum_ifs [where a = nr and b = nw and d = "3 * ops + 1" and c = "5 * ops + 1"]
    by (intro rw.bounded_ends_le [OF assms(2) r rw.always_can_finish [OF _ r], where b = ?b])
      (simp_all add: rw_main_def algebra_simps)
qed

text \<open>
  C3. Readers and writers: whatever the schedule, no step of the program is undefined (no data race
  on \<open>shared_data\<close>, no overflow, no unlock of a lock not held), a writer inside its critical section
  excludes every other thread, the program can always still run to its end, and the final value main
  prints is the number of all writes, after which it destroys a lock that no thread holds.
\<close>

theorem rwlock_correct:
  assumes "int (nw * ops) < 2 ^ 31" and "reach (fj_step (rw_main nr nw ops)) (fj_init rw_start) s"
  shows "fj_step (rw_main nr nw ops) e s \<noteq> UB u \<and> rw_exclusive (locals s) \<and>
    can_finish (rw_main nr nw ops) s \<and>
    (mainpc s = Joined \<longrightarrow> (\<exists>m'. rw_finish (shared s) = Ok (int (nw * ops), m')))"
  by (rule rw_all_runs [OF assms])

text \<open>The exercise's own numbers, in its first state: main can still finish.\<close>

lemma rwlock_correct_witness:
  "int (NUM_WRITERS * OPERATIONS) = 20 \<and>
   can_finish (rw_main NUM_READERS NUM_WRITERS OPERATIONS) (fj_init rw_start)"
  using rwlock_correct [of NUM_WRITERS OPERATIONS NUM_READERS "fj_init rw_start"]
  by (simp add: NUM_WRITERS_def OPERATIONS_def reach_refl)

text \<open>
  C11. Every schedule ends: from every reachable state, whatever the scheduler does, at most as many steps
  are possible as the threads have left, and an execution that cannot go on has finished main. So there
  is neither a deadlock nor a livelock.
\<close>

theorem rwlock_terminates:
  assumes "int (nw * ops) < 2 ^ 31" and "reach (fj_step (rw_main nr nw ops)) (fj_init rw_start) s"
  shows "ends_within (rw_main nr nw ops) (nr * (3 * ops + 3) + nw * (5 * ops + 3) + 2) s"
  by (rule rw_all_end [OF assms])

lemma rwlock_terminates_witness:
  "ends_within (rw_main NUM_READERS NUM_WRITERS OPERATIONS) 372 (fj_init rw_start)"
  using rwlock_terminates [of NUM_WRITERS OPERATIONS NUM_READERS "fj_init rw_start"]
  by (simp add: NUM_WRITERS_def NUM_READERS_def OPERATIONS_def reach_refl)

text \<open>
  C17. A stable snapshot: the value a reader or writer has read under the lock is still the value of
  \<open>shared_data\<close> as long as it holds the lock, in every reachable state.
\<close>

theorem rwlock_snapshot:
  assumes "int (nw * ops) < 2 ^ 31" and "reach (fj_step (rw_main nr nw ops)) (fj_init rw_start) s"
    and "locals s i = Some p" and "held_value p = Some v"
  shows "v = value_of (shared s) SharedData"
  using rw_invD(4) [OF rw.reach_linv [OF assms(2)] assms(3,4)] assms(1)
  by (simp add: rw_ready_def rw_start_def)

lemma rwlock_snapshot_witness:
  "\<exists>s. reach (fj_step (rw_main 1 0 1)) (fj_init rw_start) s \<and> locals s 0 = Some (RdDone 0 0) \<and>
     value_of (shared s) SharedData = 0"
proof -
  let ?es = "[MainStep, ThreadStep 0 Tau, ThreadStep 0 Tau]"
  obtain s where s: "run (fj_step (rw_main 1 0 1)) ?es (fj_init rw_start) = Ok s" "locals s 0 = Some (RdDone 0 0)"
    by (simp add: fj_init_def main_step_def rw_main_def rw_start_def rwlock_rdlock_def na_load_def knows_writes_def
        frame_simps value_of_def)
  then show ?thesis using rwlock_snapshot [of 0 1 1 s 0 "RdDone 0 0" 0] run_reach [OF s(1)] by auto
qed

text \<open>
  C40. \<open>sleep_for_us\<close>: the timespec handed to \<open>nanosleep\<close> denotes exactly the given number of
  microseconds, and it is one \<open>nanosleep\<close> accepts precisely when the number is not negative.
\<close>

theorem sleep_for_us_exact:
  "tv_sec (sleep_for_us usec) * 1000000000 + tv_nsec (sleep_for_us usec) = usec * 1000 \<and>
   (valid_timespec (sleep_for_us usec) \<and> 0 \<le> tv_sec (sleep_for_us usec) \<longleftrightarrow> 0 \<le> usec)"
proof -
  have "usec sdiv 1000000 * 1000000 + usec smod 1000000 = usec" by (simp add: sdiv_mult_smod_eq)
  moreover have "0 \<le> usec smod 1000000 \<and> usec smod 1000000 < 1000000 \<and> 0 \<le> usec sdiv 1000000 \<longleftrightarrow> 0 \<le> usec"
    by (auto simp: signed_divide_int_def signed_modulo_int_def sgn_if)
  ultimately show ?thesis by (auto simp: sleep_for_us_def valid_timespec_def)
qed

end
