(* ===== verification/Barrier.thy ===== *)
theory Barrier
  imports Bounded_Runs
begin

text \<open>
  Exercise 06: a reusable barrier made of a mutex, a condition variable and a serial number, and the
  phases of work its threads separate with it. \<open>pthread_cond_wait\<close> may wake up spuriously.

  The program is modelled on the weak-memory machine, every access to the barrier's fields a step of
  its own. As the fields are only touched under the mutex, a thread's step refines the step of an
  abstract barrier that has plain integers for fields; the invariant of the algorithm is one of the
  abstract barrier, stated with its generation: the number of completed phases.
\<close>

section \<open>Objects, program points\<close>

definition NUM_THREADS :: nat where "NUM_THREADS = 4"

definition NUM_PHASES :: nat where "NUM_PHASES = 3"

text \<open>The fields of \<open>barrier_t\<close>.\<close>

datatype bar_obj = Mutex | Cond | Count | Threshold | Serial

type_synonym bar_machine = "(bar_obj, int) machine"

text \<open>The points of \<open>barrier_wait\<close>, with its local variable \<open>my_serial\<close> and values read so far.\<close>

datatype bpc =
    BLock | BSerial | BCount int | BIncr int int | BTest int | BTest2 int int
  | BReset | BSerLoad | BSerStore int | BBroadcast
  | BLoop int | BWait int | BSleep int | BRelock int | BUnlock

datatype wpc = Phase nat | InBarrier nat bpc | WorkerRet

section \<open>The barrier and its threads\<close>

definition barrier_init :: "tid \<Rightarrow> int \<Rightarrow> bar_machine \<Rightarrow> bar_machine outcome" where
  "barrier_init t threshold m =
     obind (na_store t Count 0 (cond_init Cond (mutex_init Mutex m))) (\<lambda>m1. obind (na_store t Threshold threshold m1) (\<lambda>m2. na_store t Serial 0 m2))"

definition barrier_destroy :: "bar_machine \<Rightarrow> bar_machine outcome" where
  "barrier_destroy m = obind (mutex_destroy Mutex m) (\<lambda>m'. cond_destroy Cond m')"

text \<open>
  \<open>None\<close> when the function has returned. A thread asleep in \<open>pthread_cond_wait\<close> goes on when it has
  been removed from the waiting threads; the choice \<open>Fail\<close> is a spurious wakeup.
\<close>

fun barrier_wait :: "tid \<Rightarrow> choice \<Rightarrow> bpc \<Rightarrow> bar_machine \<Rightarrow> (bpc option \<times> bar_machine) outcome" where
  "barrier_wait t c BLock m = obind (mutex_lock t Mutex m) (\<lambda>m'. Ok (Some BSerial, m'))"
| "barrier_wait t c BSerial m = obind (na_load t Serial m) (\<lambda>(s, m'). Ok (Some (BCount s), m'))"
| "barrier_wait t c (BCount my) m = obind (na_load t Count m) (\<lambda>(n, m'). Ok (Some (BIncr my n), m'))"
| "barrier_wait t c (BIncr my n) m =
     obind (signed_add 32 n 1) (\<lambda>n'. obind (na_store t Count n' m) (\<lambda>m'. Ok (Some (BTest my), m')))"
| "barrier_wait t c (BTest my) m = obind (na_load t Count m) (\<lambda>(n, m'). Ok (Some (BTest2 my n), m'))"
| "barrier_wait t c (BTest2 my n) m =
     obind (na_load t Threshold m) (\<lambda>(thr, m'). Ok (Some (if n = thr then BReset else BLoop my), m'))"
| "barrier_wait t c BReset m = obind (na_store t Count 0 m) (\<lambda>m'. Ok (Some BSerLoad, m'))"
| "barrier_wait t c BSerLoad m = obind (na_load t Serial m) (\<lambda>(s, m'). Ok (Some (BSerStore s), m'))"
| "barrier_wait t c (BSerStore s) m =
     obind (signed_add 32 s 1) (\<lambda>s'. obind (na_store t Serial s' m) (\<lambda>m'. Ok (Some BBroadcast, m')))"
| "barrier_wait t c BBroadcast m = Ok (Some BUnlock, cond_broadcast Cond m)"
| "barrier_wait t c (BLoop my) m =
     obind (na_load t Serial m) (\<lambda>(s, m'). Ok (Some (if my = s then BWait my else BUnlock), m'))"
| "barrier_wait t c (BWait my) m = obind (cond_wait_enter t Cond Mutex m) (\<lambda>m'. Ok (Some (BSleep my), m'))"
| "barrier_wait t c (BSleep my) m =
     (if t \<in> set (waiting m Cond)
      then (case c of Fail k \<Rightarrow> Ok (Some (BRelock my), cond_spurious_wake t Cond m) | _ \<Rightarrow> Blocked)
      else Ok (Some (BRelock my), m))"
| "barrier_wait t c (BRelock my) m = obind (mutex_lock t Mutex m) (\<lambda>m'. Ok (Some (BLoop my), m'))"
| "barrier_wait t c BUnlock m = obind (mutex_unlock t Mutex m) (\<lambda>m'. Ok (None, m'))"

fun worker :: "nat \<Rightarrow> tid \<Rightarrow> choice \<Rightarrow> wpc \<Rightarrow> bar_machine \<Rightarrow> (wpc \<times> bar_machine) outcome" where
  "worker phases t c (Phase k) m = Ok (if k < phases then InBarrier k BLock else WorkerRet, m)"
| "worker phases t c (InBarrier k q) m =
     obind (barrier_wait t c q m)
       (\<lambda>(r, m'). Ok (case r of None \<Rightarrow> Phase (Suc k) | Some q' \<Rightarrow> InBarrier k q', m'))"
| "worker phases t c WorkerRet m = Blocked"

text \<open>\<open>main\<close>: initialise the barrier, create the workers, join them.\<close>

definition bar_start :: "nat \<Rightarrow> (bar_obj \<Rightarrow> int) \<Rightarrow> bar_machine outcome" where
  "bar_start n v0 = barrier_init 0 (int n) (init_machine v0)"

definition bar_main :: "nat \<Rightarrow> nat \<Rightarrow> (wpc, bar_obj, int) thread_prog" where
  "bar_main n phases =
     \<lparr>nthreads = n, jorder = [0..<n], entry = (\<lambda>_. Phase 0),
      tstep = (\<lambda>i c. worker phases (Suc i) c), halted = (\<lambda>p. p = WorkerRet)\<rparr>"

section \<open>The abstract barrier\<close>

record bar =
  b_count :: int
  b_threshold :: int
  b_serial :: int
  b_owner :: "tid option"
  b_waiting :: "tid list"

definition abs_bar :: "bar_machine \<Rightarrow> bar" where
  "abs_bar m = \<lparr>b_count = value_of m Count, b_threshold = value_of m Threshold, b_serial = value_of m Serial,
     b_owner = owner (mtx m Mutex), b_waiting = waiting m Cond\<rparr>"

definition abs_lock :: "tid \<Rightarrow> bar \<Rightarrow> bar outcome" where
  "abs_lock t b = (if b_owner b = None then Ok (b\<lparr>b_owner := Some t\<rparr>) else Blocked)"

fun abs_wait :: "tid \<Rightarrow> choice \<Rightarrow> bpc \<Rightarrow> bar \<Rightarrow> (bpc option \<times> bar) outcome" where
  "abs_wait t c BLock b = obind (abs_lock t b) (\<lambda>b'. Ok (Some BSerial, b'))"
| "abs_wait t c BSerial b = Ok (Some (BCount (b_serial b)), b)"
| "abs_wait t c (BCount my) b = Ok (Some (BIncr my (b_count b)), b)"
| "abs_wait t c (BIncr my n) b = obind (signed_add 32 n 1) (\<lambda>n'. Ok (Some (BTest my), b\<lparr>b_count := n'\<rparr>))"
| "abs_wait t c (BTest my) b = Ok (Some (BTest2 my (b_count b)), b)"
| "abs_wait t c (BTest2 my n) b = Ok (Some (if n = b_threshold b then BReset else BLoop my), b)"
| "abs_wait t c BReset b = Ok (Some BSerLoad, b\<lparr>b_count := 0\<rparr>)"
| "abs_wait t c BSerLoad b = Ok (Some (BSerStore (b_serial b)), b)"
| "abs_wait t c (BSerStore s) b = obind (signed_add 32 s 1) (\<lambda>s'. Ok (Some BBroadcast, b\<lparr>b_serial := s'\<rparr>))"
| "abs_wait t c BBroadcast b = Ok (Some BUnlock, b\<lparr>b_waiting := []\<rparr>)"
| "abs_wait t c (BLoop my) b = Ok (Some (if my = b_serial b then BWait my else BUnlock), b)"
| "abs_wait t c (BWait my) b = Ok (Some (BSleep my), b\<lparr>b_owner := None, b_waiting := t # b_waiting b\<rparr>)"
| "abs_wait t c (BSleep my) b =
     (if t \<in> set (b_waiting b)
      then (case c of Fail k \<Rightarrow> Ok (Some (BRelock my), b\<lparr>b_waiting := removeAll t (b_waiting b)\<rparr>) | _ \<Rightarrow> Blocked)
      else Ok (Some (BRelock my), b))"
| "abs_wait t c (BRelock my) b = obind (abs_lock t b) (\<lambda>b'. Ok (Some (BLoop my), b'))"
| "abs_wait t c BUnlock b = Ok (None, b\<lparr>b_owner := None\<rparr>)"

fun abs_worker :: "nat \<Rightarrow> tid \<Rightarrow> choice \<Rightarrow> wpc \<Rightarrow> bar \<Rightarrow> (wpc \<times> bar) outcome" where
  "abs_worker phases t c (Phase k) b = Ok (if k < phases then InBarrier k BLock else WorkerRet, b)"
| "abs_worker phases t c (InBarrier k q) b =
     obind (abs_wait t c q b) (\<lambda>(r, b'). Ok (case r of None \<Rightarrow> Phase (Suc k) | Some q' \<Rightarrow> InBarrier k q', b'))"
| "abs_worker phases t c WorkerRet b = Blocked"

text \<open>The points at which a thread has the mutex.\<close>

fun bholds :: "bpc \<Rightarrow> bool" where
  "bholds BLock = False"
| "bholds (BSleep my) = False"
| "bholds (BRelock my) = False"
| "bholds _ = True"

fun holds :: "wpc \<Rightarrow> bool" where
  "holds (InBarrier k q) = bholds q"
| "holds _ = False"

section \<open>The mutex guards the fields\<close>

text \<open>
  Whoever has the mutex has seen every access to the fields. With the mutex free, every access is in
  the view it keeps, or it is one of main's initialising stores, which every thread has seen.
\<close>

definition bar_fields :: "bar_obj set" where
  "bar_fields = {Count, Threshold, Serial}"

definition boot_view :: "bar_obj view" where
  "boot_view = (\<lambda>_. 0)(W Count := 1, W Threshold := 1, W Serial := 1)"

definition holder_view :: "bar_machine \<Rightarrow> bar_obj view" where
  "holder_view m = (case owner (mtx m Mutex) of None \<Rightarrow> sup (released (mtx m Mutex)) boot_view | Some t \<Rightarrow> cur m t)"

definition guarded :: "bar_machine \<Rightarrow> bool" where
  "guarded m \<longleftrightarrow> (\<forall>x\<in>bar_fields. knows (holder_view m) x m)"

lemma guardedD: "guarded m \<Longrightarrow> owner (mtx m Mutex) = Some t \<Longrightarrow> x \<in> bar_fields \<Longrightarrow> knows (cur m t) x m"
  by (simp add: guarded_def holder_view_def)

lemma guarded_lock:
  assumes "guarded m" and "mutex_lock t Mutex m = Ok m'" and "boot_view \<le> cur m t"
  shows "guarded m'" and "abs_bar m' = (abs_bar m)\<lparr>b_owner := Some t\<rparr>"
proof -
  note D = mutex_lock_D [OF assms(2)]
  have le: "sup (released (mtx m Mutex)) boot_view \<le> cur m' t"
    using D(4) assms(3) grows_le [OF D(9), of t] by (auto intro: order.trans)
  have "knows (cur m' t) x m'" if "x \<in> bar_fields" for x
    by (rule knows_mono [OF _ le]) (use assms(1) D that in \<open>auto simp: guarded_def holder_view_def untouched_def\<close>)
  then show "guarded m'" using D(2) by (simp add: guarded_def holder_view_def)
  show "abs_bar m' = (abs_bar m)\<lparr>b_owner := Some t\<rparr>" using D by (simp add: abs_bar_def value_of_def)
qed

lemma guarded_unlock:
  assumes "guarded m" and "mutex_unlock t Mutex m = Ok m'"
  shows "guarded m'" and "abs_bar m' = (abs_bar m)\<lparr>b_owner := None\<rparr>"
proof -
  note D = mutex_unlock_D [OF assms(2)]
  have "knows (sup (cur m t) boot_view) x m'" if "x \<in> bar_fields" for x
    by (rule knows_mono [OF guardedD [OF assms(1) D(1) that]]) (simp_all add: untouched_def D)
  then show "guarded m'" using D(2,3) by (simp add: guarded_def holder_view_def)
  show "abs_bar m' = (abs_bar m)\<lparr>b_owner := None\<rparr>" using D by (simp add: abs_bar_def value_of_def)
qed

text \<open>A plain access to a field by the owner.\<close>

lemma guarded_load:
  assumes "guarded m" and "owner (mtx m Mutex) = Some t" and "x \<in> bar_fields"
  shows "\<exists>m'. na_load t x m = Ok (value_of m x, m') \<and> guarded m' \<and> abs_bar m' = abs_bar m"
proof -
  note k = guardedD [OF assms(1,2)]
  obtain m' where m': "na_load t x m = Ok (value_of m x, m')"
    using na_load_ok [OF knows_imp_writes [OF k [OF assms(3)]]] by blast
  note D = na_load_D [OF m']
  have "knows (cur m' t) y m'" if "y \<in> bar_fields" for y
    using D(9) [OF k [OF assms(3)]] knows_grows [OF k [OF that] D(8)] D(3,4)
    by (cases "y = x") (auto simp: untouched_def)
  then show ?thesis using m' assms(2) D by (auto simp: guarded_def holder_view_def abs_bar_def value_of_def)
qed

lemma guarded_store:
  assumes "guarded m" and "owner (mtx m Mutex) = Some t" and "x \<in> bar_fields"
  shows "\<exists>m'. na_store t x v m = Ok m' \<and> guarded m' \<and> value_of m' x = v \<and>
    (\<forall>y. y \<noteq> x \<longrightarrow> value_of m' y = value_of m y) \<and> mtx m' = mtx m \<and> waiting m' = waiting m"
proof -
  note k = guardedD [OF assms(1,2)]
  obtain m' where m': "na_store t x v m = Ok m'" using na_store_ok [OF k [OF assms(3)]] by blast
  note D = na_store_D [OF m']
  have "knows (cur m' t) y m'" if "y \<in> bar_fields" for y
    using D(9) knows_grows [OF k [OF that] D(8)] D(3,4) by (cases "y = x") (auto simp: untouched_def)
  then show ?thesis using m' assms(2) D by (auto simp: guarded_def holder_view_def value_of_def)
qed

lemma guarded_waiting: "guarded (m\<lparr>waiting := w\<rparr>) = guarded m"
  by (cases "owner (mtx m Mutex)") (simp_all add: guarded_def holder_view_def knows_def knows_writes_def)

section \<open>Refinement\<close>

text \<open>
  What a step on the machine and a step of the abstract barrier have in common: the same outcome, with
  the same next point, the machine's fields those of the abstract barrier, and the fields still guarded.
\<close>

definition refines :: "('r \<times> bar_machine) outcome \<Rightarrow> ('r \<times> bar) outcome \<Rightarrow> bool" where
  "refines x y \<longleftrightarrow> map_outcome (\<lambda>(r, m). (r, abs_bar m)) x = y \<and> (\<forall>r m. x = Ok (r, m) \<longrightarrow> guarded m)"

lemma refines_Ok [simp]: "refines (Ok (r, m)) (Ok (r', b)) \<longleftrightarrow> r = r' \<and> abs_bar m = b \<and> guarded m"
  by (auto simp: refines_def)

lemma refines_Blocked [simp]: "refines Blocked Blocked"
  by (simp add: refines_def)

lemma refines_UB [simp]: "refines (UB e) (UB e)"
  by (simp add: refines_def)

lemma refines_load:
  assumes "guarded m" and "owner (mtx m Mutex) = Some t" and "x \<in> bar_fields"
  shows "refines (obind (na_load t x m) (\<lambda>(v, m'). Ok (f v, m'))) (Ok (f (value_of m x), abs_bar m))"
proof -
  obtain m' where "na_load t x m = Ok (value_of m x, m')" "guarded m'" "abs_bar m' = abs_bar m"
    using guarded_load [OF assms] by blast
  then show ?thesis by simp
qed

lemma refines_store:
  assumes "guarded m" and "owner (mtx m Mutex) = Some t" and "x \<in> bar_fields"
    and "\<And>m'. value_of m' x = v \<Longrightarrow> \<forall>y. y \<noteq> x \<longrightarrow> value_of m' y = value_of m y \<Longrightarrow> mtx m' = mtx m \<Longrightarrow>
      waiting m' = waiting m \<Longrightarrow> abs_bar m' = b"
  shows "refines (obind (na_store t x v m) (\<lambda>m'. Ok (r, m'))) (Ok (r, b))"
proof -
  obtain m' where m': "na_store t x v m = Ok m'" "guarded m'" "value_of m' x = v"
    "\<forall>y. y \<noteq> x \<longrightarrow> value_of m' y = value_of m y" "mtx m' = mtx m" "waiting m' = waiting m"
    using guarded_store [OF assms(1-3)] by blast
  then show ?thesis using assms(4) by simp
qed

lemma refines_lock:
  assumes "guarded m" and "boot_view \<le> cur m t"
  shows "refines (obind (mutex_lock t Mutex m) (\<lambda>m'. Ok (r, m'))) (obind (abs_lock t (abs_bar m)) (\<lambda>b. Ok (r, b)))"
proof (cases "owner (mtx m Mutex) = None")
  case True
  then obtain m' where m': "mutex_lock t Mutex m = Ok m'" by (rule mutex_lock_ok)
  then show ?thesis using guarded_lock [OF assms(1) m' assms(2)] True by (simp add: abs_lock_def abs_bar_def)
next
  case False
  then have "mutex_lock t Mutex m = Blocked" "abs_lock t (abs_bar m) = Blocked"
    by (simp_all add: abs_lock_def abs_bar_def mutex_lock_def)
  then show ?thesis by simp
qed

lemma refines_unlock:
  assumes "guarded m" and "owner (mtx m Mutex) = Some t"
  shows "refines (obind (mutex_unlock t Mutex m) (\<lambda>m'. Ok (r, m'))) (Ok (r, (abs_bar m)\<lparr>b_owner := None\<rparr>))"
proof -
  obtain m' where m': "mutex_unlock t Mutex m = Ok m'" using assms(2) by (rule mutex_unlock_ok)
  then show ?thesis using guarded_unlock [OF assms(1) m'] by simp
qed

lemma refines_wait_enter:
  assumes "guarded m" and "owner (mtx m Mutex) = Some t"
  shows "refines (obind (cond_wait_enter t Cond Mutex m) (\<lambda>m'. Ok (r, m')))
    (Ok (r, (abs_bar m)\<lparr>b_owner := None, b_waiting := t # b_waiting (abs_bar m)\<rparr>))"
proof -
  obtain m' where m': "mutex_unlock t Mutex m = Ok m'" using assms(2) by (rule mutex_unlock_ok)
  note g = guarded_unlock [OF assms(1) m']
  have "abs_bar (m'\<lparr>waiting := (waiting m')(Cond := t # waiting m' Cond)\<rparr>) =
      (abs_bar m')\<lparr>b_waiting := t # b_waiting (abs_bar m')\<rparr>"
    by (simp add: abs_bar_def value_of_def)
  then show ?thesis using m' g by (simp add: cond_wait_enter_def guarded_waiting)
qed

text \<open>Every step of \<open>barrier_wait\<close>.\<close>

lemma wait_refines:
  assumes "guarded m" and "bholds q \<Longrightarrow> owner (mtx m Mutex) = Some t" and "boot_view \<le> cur m t"
  shows "refines (barrier_wait t c q m) (abs_wait t c q (abs_bar m))"
proof -
  have f: "Count \<in> bar_fields" "Threshold \<in> bar_fields" "Serial \<in> bar_fields" by (simp_all add: bar_fields_def)
  have a: "b_count (abs_bar m) = value_of m Count" "b_serial (abs_bar m) = value_of m Serial"
    "b_threshold (abs_bar m) = value_of m Threshold" "b_waiting (abs_bar m) = waiting m Cond"
    by (simp_all add: abs_bar_def)
  note ld = refines_load [OF assms(1)] and st = refines_store [OF assms(1)]
  show ?thesis
  proof (cases q)
    case (BIncr my n)
    then show ?thesis using assms(2) f
      by (cases "signed_add 32 n 1") (auto intro!: st simp: abs_bar_def)
  next
    case (BSerStore s)
    then show ?thesis using assms(2) f
      by (cases "signed_add 32 s 1") (auto intro!: st simp: abs_bar_def)
  next
    case BReset
    then show ?thesis using assms(2) f by (auto intro!: st simp: abs_bar_def)
  next
    case BBroadcast
    then show ?thesis using assms(1)
      by (simp add: cond_broadcast_def guarded_waiting) (simp add: abs_bar_def value_of_def)
  next
    case (BSleep my)
    have "abs_bar (cond_spurious_wake t Cond m) = (abs_bar m)\<lparr>b_waiting := removeAll t (waiting m Cond)\<rparr>"
      by (simp add: abs_bar_def value_of_def cond_spurious_wake_def)
    then show ?thesis using BSleep assms(1)
      by (cases c) (simp_all add: a cond_spurious_wake_def guarded_waiting)
  next
    case (BTest2 my n)
    then show ?thesis
      using ld [of t Threshold "\<lambda>thr. Some (if n = thr then BReset else BLoop my)"] assms(2) f by (simp add: a)
  next
    case (BLoop my)
    then show ?thesis
      using ld [of t Serial "\<lambda>s. Some (if my = s then BWait my else BUnlock)"] assms(2) f by (simp add: a)
  qed (use assms(2) f in \<open>auto simp: a intro: ld refines_lock [OF assms(1,3)] refines_unlock [OF assms(1)]
      refines_wait_enter [OF assms(1), unfolded a]\<close>)
qed

section \<open>The invariant of the abstract barrier\<close>

text \<open>
  Generation \<open>g\<close>: the number of phases all threads have completed. A thread has arrived when it has
  counted itself in the current generation.
\<close>

fun arrived :: "nat \<Rightarrow> wpc \<Rightarrow> bool" where
  "arrived g (InBarrier k q) = (k = g \<and> (case q of
     BTest my \<Rightarrow> True | BTest2 my n \<Rightarrow> True | BReset \<Rightarrow> True | BLoop my \<Rightarrow> True | BWait my \<Rightarrow> True
   | BSleep my \<Rightarrow> True | BRelock my \<Rightarrow> True | _ \<Rightarrow> False))"
| "arrived g _ = False"

text \<open>The last thread of a generation: before it resets the count, and before it advances the serial.\<close>

fun testing :: "wpc \<Rightarrow> bool" where
  "testing (InBarrier k (BTest my)) = True"
| "testing (InBarrier k (BTest2 my n)) = True"
| "testing (InBarrier k BReset) = True"
| "testing _ = False"

fun advancing :: "wpc \<Rightarrow> bool" where
  "advancing (InBarrier k BSerLoad) = True"
| "advancing (InBarrier k (BSerStore s)) = True"
| "advancing _ = False"

text \<open>What a point says of the thread's phase and its local variables.\<close>

fun point_ok :: "nat \<Rightarrow> nat \<Rightarrow> wpc \<Rightarrow> bool" where
  "point_ok K g (Phase k) = (k = g \<and> k \<le> K)"
| "point_ok K g (InBarrier k q) = (k < K \<and> (case q of
     BLock \<Rightarrow> k = g | BSerial \<Rightarrow> k = g | BCount my \<Rightarrow> k = g \<and> my = int k | BIncr my n \<Rightarrow> k = g \<and> my = int k
   | BTest my \<Rightarrow> k = g \<and> my = int k | BTest2 my n \<Rightarrow> k = g \<and> my = int k | BReset \<Rightarrow> k = g
   | BSerLoad \<Rightarrow> Suc k = g | BSerStore s \<Rightarrow> Suc k = g \<and> s = int k | BBroadcast \<Rightarrow> Suc k = g | BUnlock \<Rightarrow> Suc k = g
   | BLoop my \<Rightarrow> my = int k \<and> (k = g \<or> Suc k = g) | BWait my \<Rightarrow> my = int k \<and> k = g
   | BSleep my \<Rightarrow> my = int k \<and> (k = g \<or> Suc k = g) | BRelock my \<Rightarrow> my = int k \<and> (k = g \<or> Suc k = g)))"
| "point_ok K g WorkerRet = (g = K)"

text \<open>What the owner of the mutex knows of the fields.\<close>

fun owner_ok :: "bar \<Rightarrow> wpc \<Rightarrow> bool" where
  "owner_ok b (InBarrier k (BIncr my n)) = (n = b_count b)"
| "owner_ok b (InBarrier k (BTest2 my n)) = (n = b_count b)"
| "owner_ok b (InBarrier k BReset) = (b_count b = b_threshold b)"
| "owner_ok b (InBarrier k BSerLoad) = (b_count b = 0)"
| "owner_ok b (InBarrier k (BSerStore s)) = (b_count b = 0)"
| "owner_ok b (InBarrier k BBroadcast) = (b_count b = 0)"
| "owner_ok b _ = True"

definition arrivals :: "nat \<Rightarrow> nat \<Rightarrow> (nat \<Rightarrow> wpc option) \<Rightarrow> nat set" where
  "arrivals n g L = {i. i < n \<and> (\<exists>p. L i = Some p \<and> arrived g p)}"

definition mutex_inv :: "bar \<Rightarrow> (nat \<Rightarrow> wpc option) \<Rightarrow> bool" where
  "mutex_inv b L \<longleftrightarrow> (\<forall>t. b_owner b = Some t \<longleftrightarrow> (\<exists>i p. t = Suc i \<and> L i = Some p \<and> holds p))"

text \<open>
  The threads in the waiting list are asleep, and those of the current generation are all in it. One
  of an earlier generation is in it only until the last thread has broadcast, and all of them are in it
  until that thread has advanced the serial number.
\<close>

fun waking :: "wpc \<Rightarrow> bool" where
  "waking (InBarrier k BSerLoad) = True"
| "waking (InBarrier k (BSerStore s)) = True"
| "waking (InBarrier k BBroadcast) = True"
| "waking _ = False"

definition sleep_inv :: "nat \<Rightarrow> bar \<Rightarrow> (nat \<Rightarrow> wpc option) \<Rightarrow> bool" where
  "sleep_inv g b L \<longleftrightarrow>
     (\<forall>i my. L i = Some (InBarrier g (BSleep my)) \<longrightarrow> Suc i \<in> set (b_waiting b)) \<and>
     (\<forall>t\<in>set (b_waiting b). \<exists>i k my. t = Suc i \<and> L i = Some (InBarrier k (BSleep my)) \<and>
        (k = g \<or> (\<exists>j p. L j = Some p \<and> waking p))) \<and>
     ((\<exists>j p. L j = Some p \<and> advancing p) \<longrightarrow>
        (\<forall>i k my. L i = Some (InBarrier k (BSleep my)) \<longrightarrow> Suc i \<in> set (b_waiting b)))"

definition gen_inv :: "nat \<Rightarrow> nat \<Rightarrow> nat \<Rightarrow> bar \<Rightarrow> (nat \<Rightarrow> wpc option) \<Rightarrow> bool" where
  "gen_inv n K g b L \<longleftrightarrow>
     b_threshold b = int n \<and>
     (\<forall>i p. L i = Some p \<longrightarrow> i < n \<and> point_ok K g p \<and> owner_ok b p) \<and>
     (\<forall>i<n. L i = None \<longrightarrow> g = 0) \<and>
     b_count b = int (card (arrivals n g L)) \<and>
     b_serial b + (if \<exists>i p. L i = Some p \<and> advancing p then 1 else 0) = int g \<and>
     (card (arrivals n g L) < n \<or> (\<exists>i p. L i = Some p \<and> testing p) \<or> n = 0) \<and>
     int n < 2 ^ 31 \<and> int K < 2 ^ 31"

definition bar_inv :: "nat \<Rightarrow> nat \<Rightarrow> nat \<Rightarrow> bar \<Rightarrow> (nat \<Rightarrow> wpc option) \<Rightarrow> bool" where
  "bar_inv n K g b L \<longleftrightarrow> mutex_inv b L \<and> sleep_inv g b L \<and> gen_inv n K g b L"

lemma ex_point_upd:
  "L i = Some p \<Longrightarrow> Q p' = Q p \<Longrightarrow> (\<exists>j q. (L(i \<mapsto> p')) j = Some q \<and> Q q) \<longleftrightarrow> (\<exists>j q. L j = Some q \<and> Q q)"
  by (metis fun_upd_apply option.inject)

lemma gen_invD:
  assumes "gen_inv n K g b L"
  shows "b_threshold b = int n" and "L i = Some p \<Longrightarrow> i < n" and "L i = Some p \<Longrightarrow> point_ok K g p"
    and "L i = Some p \<Longrightarrow> owner_ok b p" and "i < n \<Longrightarrow> L i = None \<Longrightarrow> g = 0"
    and "b_count b = int (card (arrivals n g L))"
    and "b_serial b + (if \<exists>i p. L i = Some p \<and> advancing p then 1 else 0) = int g"
    and "card (arrivals n g L) < n \<or> (\<exists>i p. L i = Some p \<and> testing p) \<or> n = 0"
    and "int n < 2 ^ 31" and "int K < 2 ^ 31"
  using assms unfolding gen_inv_def by blast+

lemma gen_invI:
  assumes "b_threshold b = int n" and "\<forall>i p. L i = Some p \<longrightarrow> i < n \<and> point_ok K g p \<and> owner_ok b p"
    and "\<forall>i<n. L i = None \<longrightarrow> g = 0" and "b_count b = int (card (arrivals n g L))"
    and "(\<exists>i p. L i = Some p \<and> advancing p) \<longleftrightarrow> adv" and "b_serial b + (if adv then 1 else 0) = int g"
    and "card (arrivals n g L) < n \<or> (\<exists>i p. L i = Some p \<and> testing p) \<or> n = 0"
    and "int n < 2 ^ 31" and "int K < 2 ^ 31"
  shows "gen_inv n K g b L"
  unfolding gen_inv_def assms(5) using assms(1-4,6-9) by blast

lemma finite_arrivals [simp]: "finite (arrivals n g L)"
  by (simp add: arrivals_def)

lemma arrivals_le: "card (arrivals n g L) \<le> n"
  using card_mono [of "{..<n}" "arrivals n g L"] by (auto simp: arrivals_def)

lemma arrivals_same:
  assumes "L i = Some p" and "arrived g p' = arrived g p"
  shows "arrivals n g (L(i \<mapsto> p')) = arrivals n g L"
  using assms by (auto simp: arrivals_def)

lemma mutex_invD:
  assumes "mutex_inv b L" and "L i = Some p" and "holds p"
  shows "b_owner b = Some (Suc i)" and "L j = Some q \<Longrightarrow> holds q \<Longrightarrow> j = i"
proof -
  have w: "(\<exists>i p. t = Suc i \<and> L i = Some p \<and> holds p) \<Longrightarrow> b_owner b = Some t" for t
    using assms(1) by (simp add: mutex_inv_def)
  show o: "b_owner b = Some (Suc i)" using assms(2,3) by (intro w) blast
  show "j = i" if "L j = Some q" "holds q" using w [of "Suc j"] that o by auto
qed

lemma mutex_inv_free: "mutex_inv b L \<Longrightarrow> b_owner b = None \<Longrightarrow> L i = Some p \<Longrightarrow> \<not> holds p"
  using mutex_invD(1) by fastforce

text \<open>Taking, keeping and giving back the mutex.\<close>

lemma mutex_inv_same:
  assumes "mutex_inv b L" and "L i = Some p" and "holds p' = holds p" and "b_owner b' = b_owner b"
  shows "mutex_inv b' (L(i \<mapsto> p'))"
proof -
  have "(\<exists>q. (L(i \<mapsto> p')) j = Some q \<and> holds q) \<longleftrightarrow> (\<exists>q. L j = Some q \<and> holds q)" for j
    using assms(2,3) by auto
  then show ?thesis using assms(1,4) unfolding mutex_inv_def by simp
qed

lemma mutex_inv_take:
  assumes "mutex_inv b L" and "b_owner b = None" and "holds p'" and "b_owner b' = Some (Suc i)"
  shows "mutex_inv b' (L(i \<mapsto> p'))"
  using mutex_inv_free [OF assms(1,2)] assms(3,4) unfolding mutex_inv_def by (auto split: if_splits)

lemma mutex_inv_give:
  assumes "mutex_inv b L" and "L i = Some p" and "holds p" and "\<not> holds p'" and "b_owner b' = None"
  shows "mutex_inv b' (L(i \<mapsto> p'))"
proof -
  have "\<not> holds q" if "(L(i \<mapsto> p')) j = Some q" for j q
    using that mutex_invD(2) [OF assms(1-3), of j q] assms(4) by (cases "j = i") auto
  then show ?thesis using assms(5) unfolding mutex_inv_def by (metis option.distinct(1))
qed

text \<open>Only the owner of the mutex tests, advances or wakes.\<close>

lemma owner_points: "testing p \<Longrightarrow> holds p" "advancing p \<Longrightarrow> holds p" "waking p \<Longrightarrow> holds p"
  by (auto elim!: testing.elims advancing.elims waking.elims)

lemma owner_unique:
  assumes "mutex_inv b L" and "L i = Some p" and "holds p" and "\<And>q. Q q \<Longrightarrow> holds q"
  shows "(\<exists>j q. L j = Some q \<and> Q q) \<longleftrightarrow> Q p"
  using mutex_invD(2) [OF assms(1-3)] assms(2,4) by (metis option.inject)

lemma owner_serial:
  assumes "mutex_inv b L" and "gen_inv n K g b L" and "L i = Some p" and "holds p"
  shows "b_serial b = (if advancing p then int g - 1 else int g)"
proof -
  have "(\<exists>j q. L j = Some q \<and> advancing q) \<longleftrightarrow> advancing p"
    by (rule owner_unique [OF assms(1,3,4)]) (rule owner_points(2))
  then show ?thesis using gen_invD(7) [OF assms(2)] by (simp only: split: if_splits) simp_all
qed

lemma free_serial:
  assumes "mutex_inv b L" and "gen_inv n K g b L" and "b_owner b = None"
  shows "b_serial b = int g"
proof -
  have "\<not> (\<exists>j q. L j = Some q \<and> advancing q)" using mutex_inv_free [OF assms(1,3)] owner_points(2) by blast
  then show ?thesis using gen_invD(7) [OF assms(2)] by (simp only: if_False add_0_right)
qed

lemma sleep_inv_upd:
  assumes "sleep_inv g b L" and "L i = Some p"
    and others: "\<And>t. t \<noteq> Suc i \<Longrightarrow> t \<in> set (b_waiting b') \<longleftrightarrow> t \<in> set (b_waiting b)"
    and self: "Suc i \<in> set (b_waiting b') \<longleftrightarrow> (\<exists>my. p' = InBarrier g (BSleep my))"
    and "waking p \<Longrightarrow> waking p'" and "advancing p' \<Longrightarrow> advancing p"
    and own: "\<And>k my. p' = InBarrier k (BSleep my) \<Longrightarrow> k = g"
  shows "sleep_inv g b' (L(i \<mapsto> p'))"
proof -
  have adv: "(\<exists>j q. (L(i \<mapsto> p')) j = Some q \<and> advancing q) \<Longrightarrow> \<exists>j q. L j = Some q \<and> advancing q"
    using assms(2,6) by (metis fun_upd_apply option.inject)
  have *: "(\<exists>j q. L j = Some q \<and> waking q) \<Longrightarrow> \<exists>j q. (L(i \<mapsto> p')) j = Some q \<and> waking q"
    using assms(2,5) by (metis fun_upd_apply option.inject)
  have "\<exists>j k my. t = Suc j \<and> (L(i \<mapsto> p')) j = Some (InBarrier k (BSleep my)) \<and>
      (k = g \<or> (\<exists>j q. (L(i \<mapsto> p')) j = Some q \<and> waking q))" if t: "t \<in> set (b_waiting b')" for t
  proof (cases "t = Suc i")
    case True
    then show ?thesis using self t by auto
  next
    case False
    then have "t \<in> set (b_waiting b)" using others t by blast
    then obtain j k my where j: "t = Suc j" "L j = Some (InBarrier k (BSleep my))"
      "k = g \<or> (\<exists>j q. L j = Some q \<and> waking q)"
      using assms(1) unfolding sleep_inv_def by blast
    then have "(L(i \<mapsto> p')) j = Some (InBarrier k (BSleep my))" using False by simp
    then show ?thesis using j(1,3) * by blast
  qed
  moreover have "Suc j \<in> set (b_waiting b')" if "(L(i \<mapsto> p')) j = Some (InBarrier g (BSleep my))" for j my
    using that self others [of "Suc j"] assms(1) unfolding sleep_inv_def by (cases "j = i") auto
  moreover have "Suc j \<in> set (b_waiting b')"
    if "\<exists>j q. (L(i \<mapsto> p')) j = Some q \<and> advancing q" "(L(i \<mapsto> p')) j = Some (InBarrier k (BSleep my))" for j k my
  proof (cases "j = i")
    case True
    then show ?thesis using that(2) own self by auto
  next
    case False
    then have "Suc j \<in> set (b_waiting b)" using adv [OF that(1)] that(2) assms(1) unfolding sleep_inv_def by auto
    then show ?thesis using others False by simp
  qed
  ultimately show ?thesis unfolding sleep_inv_def by blast
qed

lemma awake: "sleep_inv g b L \<Longrightarrow> L i = Some p \<Longrightarrow> (\<And>k my. p \<noteq> InBarrier k (BSleep my)) \<Longrightarrow> Suc i \<notin> set (b_waiting b)"
  unfolding sleep_inv_def by fastforce

lemma sleep_inv_same:
  assumes "sleep_inv g b L" and "L i = Some p" and "b_waiting b' = b_waiting b"
    and "\<And>k my. p \<noteq> InBarrier k (BSleep my)" and "\<And>k my. p' \<noteq> InBarrier k (BSleep my)"
    and "waking p \<Longrightarrow> waking p'" and "advancing p' \<Longrightarrow> advancing p"
  shows "sleep_inv g b' (L(i \<mapsto> p'))"
  by (rule sleep_inv_upd [OF assms(1,2)]) (use awake [OF assms(1,2,4)] assms(3,5-7) in simp_all)

lemma gen_inv_same:
  assumes "gen_inv n K g b L" and "L i = Some p"
    and "b_count b' = b_count b" "b_threshold b' = b_threshold b" "b_serial b' = b_serial b"
    and "arrived g p' = arrived g p" and "advancing p' = advancing p"
    and "testing p \<Longrightarrow> testing p' \<or> b_count b \<noteq> b_threshold b"
    and "point_ok K g p'" and "owner_ok b' p'"
  shows "gen_inv n K g b' (L(i \<mapsto> p'))"
proof -
  note D = gen_invD [OF assms(1)]
  have o: "owner_ok b' q = owner_ok b q" for q using assms(3,4) by (cases "(b, q)" rule: owner_ok.cases) simp_all
  have "card (arrivals n g L) < n \<or> (\<exists>j q. (L(i \<mapsto> p')) j = Some q \<and> testing q) \<or> n = 0"
  proof (cases "testing p \<and> \<not> testing p'")
    case True
    then have "card (arrivals n g L) \<noteq> n" using assms(8) D(1,6) by simp
    then show ?thesis using arrivals_le [of n g L] by simp
  next
    case False
    then show ?thesis using D(8) assms(2) by (metis fun_upd_apply option.inject)
  qed
  moreover have "\<forall>j q. (L(i \<mapsto> p')) j = Some q \<longrightarrow> j < n \<and> point_ok K g q \<and> owner_ok b' q"
    using assms(2,9,10) D(2,3,4) by (auto simp: o)
  moreover have "\<forall>j<n. (L(i \<mapsto> p')) j = None \<longrightarrow> g = 0" using D(5) by auto
  moreover have "arrivals n g (L(i \<mapsto> p')) = arrivals n g L" using assms(2,6) by (rule arrivals_same)
  moreover have "(\<exists>j q. (L(i \<mapsto> p')) j = Some q \<and> advancing q) \<longleftrightarrow> (\<exists>j q. L j = Some q \<and> advancing q)"
    using assms(2,7) by (rule ex_point_upd)
  ultimately show ?thesis
    using D(1,6,7,9,10) assms(3,4,5) unfolding gen_inv_def by (simp only:)
qed

text \<open>A thread counts itself.\<close>

lemma arrivals_insert:
  assumes "L i = Some p" and "\<not> arrived g p" and "arrived g p'" and "i < n"
  shows "card (arrivals n g (L(i \<mapsto> p'))) = Suc (card (arrivals n g L))"
proof -
  have "arrivals n g (L(i \<mapsto> p')) = insert i (arrivals n g L)" and "i \<notin> arrivals n g L"
    using assms by (auto simp: arrivals_def)
  then show ?thesis by simp
qed

lemma arrivals_room:
  assumes "L i = Some p" and "\<not> arrived g p" and "i < n"
  shows "card (arrivals n g L) < n"
proof -
  have "arrivals n g L \<subseteq> {..<n} - {i}" using assms(1,2) by (auto simp: arrivals_def)
  from card_mono [OF _ this] show ?thesis using assms(3) by simp
qed

lemma gen_inv_incr:
  assumes "mutex_inv b L" and "gen_inv n K g b L" and L: "L i = Some (InBarrier k (BIncr my c))"
    and b': "b' = b\<lparr>b_count := c + 1\<rparr>"
  shows "gen_inv n K g b' (L(i \<mapsto> InBarrier k (BTest my)))"
proof -
  let ?p = "InBarrier k (BTest my)"
  note D = gen_invD [OF assms(2)] and P = gen_invD(2-4) [OF assms(2) L]
  have c: "card (arrivals n g (L(i \<mapsto> ?p))) = Suc (card (arrivals n g L))"
    by (rule arrivals_insert [where L = L and i = i, OF L]) (use P in auto)
  have others: "\<not> holds q" if "L j = Some q" "j \<noteq> i" for j q
    using mutex_invD(2) [OF assms(1) L _ that(1)] that(2) by auto
  have "owner_ok b' q" if "\<not> holds q" for q
    using that by (cases "(b', q)" rule: owner_ok.cases) simp_all
  then have "\<forall>j q. (L(i \<mapsto> ?p)) j = Some q \<longrightarrow> j < n \<and> point_ok K g q \<and> owner_ok b' q"
    using others P D(2,3) by auto
  moreover have "\<forall>j<n. (L(i \<mapsto> ?p)) j = None \<longrightarrow> g = 0" using D(5) by auto
  moreover have "(\<exists>j q. (L(i \<mapsto> ?p)) j = Some q \<and> advancing q) \<longleftrightarrow> (\<exists>j q. L j = Some q \<and> advancing q)"
    by (rule ex_point_upd [where L = L and i = i, OF L]) simp
  moreover have "\<exists>j q. (L(i \<mapsto> ?p)) j = Some q \<and> testing q" by (intro exI [of _ i] exI [of _ ?p]) simp
  moreover have "b_count b' = int (card (arrivals n g (L(i \<mapsto> ?p))))" using P(3) D(6) c by (simp add: b')
  moreover have "b_threshold b' = int n" "b_serial b' = b_serial b" using D(1) by (simp_all add: b')
  ultimately show ?thesis using D(7,9,10) by (intro gen_invI) (simp_all only:, blast)
qed

text \<open>The last thread resets the count: the next generation begins, and every other thread has arrived.\<close>

lemma all_arrived:
  assumes "card (arrivals n g L) = n" and "j < n"
  shows "\<exists>q. L j = Some q \<and> arrived g q"
proof -
  have "arrivals n g L = {..<n}"
    using assms(1) by (intro card_subset_eq) (auto simp: arrivals_def)
  then show ?thesis using assms(2) by (auto simp: arrivals_def)
qed

lemma arrived_next:
  assumes "arrived g q" and "point_ok K g q" and "\<not> holds q"
  shows "point_ok K (Suc g) q" and "owner_ok b q" and "\<not> arrived (Suc g) q" and "\<not> advancing q"
  using assms by (cases q; cases "case q of InBarrier k q \<Rightarrow> q | _ \<Rightarrow> BLock"; auto)+

lemma reset_inv:
  assumes mi: "mutex_inv b L" and "sleep_inv g b L" and "gen_inv n K g b L" and L: "L i = Some (InBarrier k BReset)"
    and b': "b' = b\<lparr>b_count := 0\<rparr>"
  shows "sleep_inv (Suc g) b' (L(i \<mapsto> InBarrier k BSerLoad))" and "gen_inv n K (Suc g) b' (L(i \<mapsto> InBarrier k BSerLoad))"
proof -
  let ?p = "InBarrier k BSerLoad" and ?L = "L(i \<mapsto> InBarrier k BSerLoad)"
  note D = gen_invD [OF assms(3)] and P = gen_invD(2-4) [OF assms(3) L]
  have full: "card (arrivals n g L) = n" using P(3) D(1,6) by simp
  have other: "point_ok K (Suc g) q \<and> owner_ok b' q \<and> \<not> arrived (Suc g) q \<and> \<not> advancing q"
    if "L j = Some q" "j \<noteq> i" for j q
  proof -
    have "\<not> holds q" using mutex_invD(2) [OF mi L _ that(1)] that(2) by auto
    moreover have "arrived g q" using all_arrived [OF full D(2) [OF that(1)]] that(1) by simp
    ultimately show ?thesis using arrived_next D(3) [OF that(1)] by blast
  qed
  have adv: "\<exists>j q. ?L j = Some q \<and> advancing q" by (intro exI [of _ i] exI [of _ ?p]) simp
  have none: "arrivals n (Suc g) ?L = {}" using other by (auto simp: arrivals_def split: if_splits)
  have pts: "\<forall>j q. ?L j = Some q \<longrightarrow> j < n \<and> point_ok K (Suc g) q \<and> owner_ok b' q"
    using other P D(2) by (auto simp: b')
  have all: "\<forall>j<n. ?L j = None \<longrightarrow> Suc g = 0" using all_arrived [OF full] by auto
  have "b_serial b = int g" using owner_serial [OF mi assms(3) L] by simp
  then show "gen_inv n K (Suc g) b' ?L"
    using D(1,9,10) P(1) none by (intro gen_invI [where adv = True] pts all) (use adv in \<open>auto simp: b'\<close>)
  have "\<exists>j q. ?L j = Some q \<and> waking q" by (intro exI [of _ i] exI [of _ ?p]) simp
  moreover have "\<exists>j k my. t = Suc j \<and> ?L j = Some (InBarrier k (BSleep my))" if "t \<in> set (b_waiting b)" for t
    using assms(2) that L unfolding sleep_inv_def by fastforce
  moreover have "?L j \<noteq> Some (InBarrier (Suc g) (BSleep my))" for j my
    using other [of j "InBarrier (Suc g) (BSleep my)"] by (cases "j = i") auto
  moreover have "Suc j \<in> set (b_waiting b)" if sl: "?L j = Some (InBarrier k' (BSleep my))" for j k' my
  proof -
    have j: "L j = Some (InBarrier k' (BSleep my))" using sl by (cases "j = i") auto
    then have "arrived g (InBarrier k' (BSleep my))" using all_arrived [OF full D(2) [OF j]] by simp
    then show ?thesis using assms(2) j unfolding sleep_inv_def by simp
  qed
  ultimately show "sleep_inv (Suc g) b' ?L" unfolding sleep_inv_def by (simp add: b')
qed

lemma gen_inv_advance:
  assumes "mutex_inv b L" and "gen_inv n K g b L" and L: "L i = Some (InBarrier k (BSerStore s))"
    and b': "b' = b\<lparr>b_serial := s + 1\<rparr>"
  shows "gen_inv n K g b' (L(i \<mapsto> InBarrier k BBroadcast))"
proof -
  let ?p = "InBarrier k BBroadcast" and ?L = "L(i \<mapsto> InBarrier k BBroadcast)"
  note D = gen_invD [OF assms(2)] and P = gen_invD(2-4) [OF assms(2) L]
  have o: "owner_ok b' q = owner_ok b q" for q by (cases "(b, q)" rule: owner_ok.cases) (simp_all add: b')
  have "\<not> holds q" if "L j = Some q" "j \<noteq> i" for j q
    using mutex_invD(2) [OF assms(1) L _ that(1)] that(2) by auto
  then have adv: "(\<exists>j q. ?L j = Some q \<and> advancing q) \<longleftrightarrow> False" using owner_points(2) by (auto split: if_splits)
  have pts: "\<forall>j q. ?L j = Some q \<longrightarrow> j < n \<and> point_ok K g q \<and> owner_ok b' q"
    using P D(2,3,4) by (auto simp: o)
  have all: "\<forall>j<n. ?L j = None \<longrightarrow> g = 0" using D(5) by auto
  have arr: "arrivals n g ?L = arrivals n g L" by (rule arrivals_same [where L = L and i = i, OF L]) simp
  have room: "card (arrivals n g L) < n" using arrivals_room [where L = L and i = i, OF L] P(1) by simp
  have "b_threshold b' = int n" "b_count b' = int (card (arrivals n g ?L))"
    "b_serial b' + (if False then 1 else 0) = int g"
    using D(1,6) P(2) by (simp_all add: b' arr)
  then show ?thesis by (intro gen_invI [where L = ?L, OF _ pts all _ adv _ _ D(9,10)]) (simp_all only: arr room simp_thms)
qed

section \<open>Every step keeps the invariant\<close>

text \<open>The steps that stay in the generation and leave count, serial and waiting list alone.\<close>

lemma bar_inv_quiet:
  assumes "bar_inv n K g b L" and "L i = Some p"
    and "mutex_inv b' (L(i \<mapsto> p'))"
    and "b_count b' = b_count b" "b_threshold b' = b_threshold b" "b_serial b' = b_serial b" "b_waiting b' = b_waiting b"
    and "arrived g p' = arrived g p" and "advancing p' = advancing p"
    and "testing p \<Longrightarrow> testing p' \<or> b_count b \<noteq> b_threshold b"
    and "\<And>k my. p \<noteq> InBarrier k (BSleep my)" and "\<And>k my. p' \<noteq> InBarrier k (BSleep my)"
    and "waking p \<Longrightarrow> waking p'" and "point_ok K g p'" and "owner_ok b' p'"
  shows "bar_inv n K g b' (L(i \<mapsto> p'))"
proof -
  have I: "sleep_inv g b L" "gen_inv n K g b L" using assms(1) by (simp_all add: bar_inv_def)
  have "sleep_inv g b' (L(i \<mapsto> p'))"
    by (rule sleep_inv_same [where L = L and i = i, OF I(1) assms(2,7,11,12,13)]) (simp_all add: assms(9))
  moreover have "gen_inv n K g b' (L(i \<mapsto> p'))"
    using assms(4-6,8-10,14,15) by (rule gen_inv_same [where L = L and i = i, OF I(2) assms(2)])
  ultimately show ?thesis using assms(3) by (simp add: bar_inv_def)
qed

lemma bar_inv_owner_step:
  assumes inv: "bar_inv n K g b L" and L: "L i = Some (InBarrier k q)" and q: "bholds q"
    and st: "abs_wait (Suc i) c q b = Ok (Some q', b')"
  shows "\<exists>g'. bar_inv n K g' b' (L(i \<mapsto> InBarrier k q'))"
proof -
  have I: "mutex_inv b L" "sleep_inv g b L" "gen_inv n K g b L" using inv by (simp_all add: bar_inv_def)
  note P = gen_invD(2-4) [OF I(3) L] and D = gen_invD [OF I(3)]
  have ser: "b_serial b = (if advancing (InBarrier k q) then int g - 1 else int g)"
    by (rule owner_serial [OF I(1,3) L]) (simp add: q)
  have mi: "mutex_inv b' (L(i \<mapsto> InBarrier k q'))" if "bholds q'" "b_owner b' = b_owner b"
    by (rule mutex_inv_same [OF I(1) L]) (use q that in simp_all)
  have quiet: ?thesis if "case q of BIncr _ _ \<Rightarrow> False | BReset \<Rightarrow> False | BSerStore _ \<Rightarrow> False | BBroadcast \<Rightarrow> False
      | BWait _ \<Rightarrow> False | _ \<Rightarrow> True"
    by (rule exI [of _ g], rule bar_inv_quiet [where L = L and i = i, OF inv L mi];
        insert st q P ser D(1) that; cases q; auto split: if_splits)
  show ?thesis
  proof (cases q)
    case (BIncr my n')
    then have "q' = BTest my" "b' = b\<lparr>b_count := n' + 1\<rparr>" using st by (auto simp: outcome_simps signed_add_def split: if_splits)
    then show ?thesis using gen_inv_incr [OF I(1,3) L [unfolded BIncr]] mi
        sleep_inv_same [OF I(2) L, of b' "InBarrier k q'"] BIncr by (auto simp: bar_inv_def)
  next
    case BReset
    then have "q' = BSerLoad" "b' = b\<lparr>b_count := 0\<rparr>" using st by auto
    then show ?thesis using reset_inv [OF I L [unfolded BReset]] mi by (auto simp: bar_inv_def)
  next
    case (BSerStore s)
    then have "q' = BBroadcast" "b' = b\<lparr>b_serial := s + 1\<rparr>" using st by (auto simp: outcome_simps signed_add_def split: if_splits)
    then show ?thesis using gen_inv_advance [OF I(1,3) L [unfolded BSerStore]] mi
        sleep_inv_same [OF I(2) L, of b' "InBarrier k q'"] BSerStore by (auto simp: bar_inv_def)
  next
    case BBroadcast
    then have q': "q' = BUnlock" "b' = b\<lparr>b_waiting := []\<rparr>" using st by auto
    have "arrivals n g L = {}" using P(3) D(6) BBroadcast by simp
    moreover have "j \<in> arrivals n g L" if "L j = Some (InBarrier g (BSleep my))" for j my
      using that D(2) [OF that] by (simp add: arrivals_def)
    ultimately have "(L(i \<mapsto> InBarrier k q')) j \<noteq> Some (InBarrier g (BSleep my))" for j my
      using q' by auto
    moreover have "\<not> (\<exists>j p. (L(i \<mapsto> InBarrier k q')) j = Some p \<and> advancing p)"
    proof
      assume "\<exists>j p. (L(i \<mapsto> InBarrier k q')) j = Some p \<and> advancing p"
      then obtain j p where j: "(L(i \<mapsto> InBarrier k q')) j = Some p" "advancing p" by blast
      then have "j \<noteq> i" using q' by auto
      then show False using j mutex_invD(2) [OF I(1) L, of j p] owner_points(2) [of p] q by simp
    qed
    moreover have "set (b_waiting b') = {}" by (simp add: q')
    ultimately have "sleep_inv g b' (L(i \<mapsto> InBarrier k q'))" unfolding sleep_inv_def by (simp del: fun_upd_apply) blast
    moreover have "gen_inv n K g b' (L(i \<mapsto> InBarrier k q'))"
      by (rule gen_inv_same [OF I(3) L]) (use q' P(2) BBroadcast in auto)
    ultimately show ?thesis using mi q' by (auto simp: bar_inv_def)
  next
    case (BWait my)
    then have q': "q' = BSleep my" "b' = b\<lparr>b_owner := None, b_waiting := Suc i # b_waiting b\<rparr>" using st by auto
    have "mutex_inv b' (L(i \<mapsto> InBarrier k q'))"
      by (rule mutex_inv_give [OF I(1) L]) (use q q' in simp_all)
    moreover have "sleep_inv g b' (L(i \<mapsto> InBarrier k q'))"
      by (rule sleep_inv_upd [OF I(2) L]) (use q' P(2) BWait in auto)
    moreover have "gen_inv n K g b' (L(i \<mapsto> InBarrier k q'))"
      by (rule gen_inv_same [OF I(3) L]) (use q' P(2) BWait in auto)
    ultimately show ?thesis by (auto simp: bar_inv_def)
  qed (use quiet q in simp_all)
qed

lemma bar_inv_sleeper_step:
  assumes inv: "bar_inv n K g b L" and L: "L i = Some (InBarrier k q)" and q: "\<not> bholds q"
    and st: "abs_wait (Suc i) c q b = Ok (Some q', b')"
  shows "bar_inv n K g b' (L(i \<mapsto> InBarrier k q'))"
proof -
  have I: "mutex_inv b L" "sleep_inv g b L" "gen_inv n K g b L" using inv by (simp_all add: bar_inv_def)
  note P = gen_invD(2-4) [OF I(3) L]
  show ?thesis
  proof (cases "\<exists>my. q = BSleep my")
    case True
    then obtain my where my: "q = BSleep my" by blast
    have b': "q' = BRelock my" "b_owner b' = b_owner b" "b_count b' = b_count b" "b_threshold b' = b_threshold b"
      "b_serial b' = b_serial b" "set (b_waiting b') = set (b_waiting b) - {Suc i}"
      using st by (auto simp: my split: if_splits choice.splits)
    have "mutex_inv b' (L(i \<mapsto> InBarrier k q'))"
      by (rule mutex_inv_same [OF I(1) L]) (simp_all add: my b')
    moreover have "sleep_inv g b' (L(i \<mapsto> InBarrier k q'))"
      by (rule sleep_inv_upd [where L = L and i = i, OF I(2) L]) (simp_all add: my b')
    moreover have "gen_inv n K g b' (L(i \<mapsto> InBarrier k q'))"
      by (rule gen_inv_same [where L = L and i = i, OF I(3) L]) (use P(2) in \<open>simp_all add: my b'\<close>)
    ultimately show ?thesis by (simp add: bar_inv_def)
  next
    case False
    then have b': "b_owner b = None" "b' = b\<lparr>b_owner := Some (Suc i)\<rparr>"
      and q': "q = BLock \<and> q' = BSerial \<or> (\<exists>my. q = BRelock my \<and> q' = BLoop my)"
      using st q by (cases q; auto simp: abs_lock_def outcome_simps)+
    have "mutex_inv b' (L(i \<mapsto> InBarrier k q'))"
      by (rule mutex_inv_take [OF I(1) b'(1)]) (use q' b' in auto)
    from bar_inv_quiet [where L = L and i = i, OF inv L this] show ?thesis using q' P(2) by (auto simp: b')
  qed
qed

lemma abs_wait_returns: "abs_wait t c q b = Ok (None, b') \<longleftrightarrow> q = BUnlock \<and> b' = b\<lparr>b_owner := None\<rparr>"
  by (cases q) (auto simp: outcome_simps split: if_splits choice.splits)

lemma bar_inv_step:
  assumes inv: "bar_inv n K g b L" and L: "L i = Some p" and st: "abs_worker K (Suc i) c p b = Ok (p', b')"
  shows "\<exists>g'. bar_inv n K g' b' (L(i \<mapsto> p'))"
proof (cases p)
  case (Phase k)
  have I: "mutex_inv b L" "gen_inv n K g b L" using inv by (simp_all add: bar_inv_def)
  have p': "b' = b" "p' = (if k < K then InBarrier k BLock else WorkerRet)" using st by (simp_all add: Phase)
  have "mutex_inv b (L(i \<mapsto> p'))" by (rule mutex_inv_same [OF I(1) L]) (simp_all add: Phase p')
  then have "bar_inv n K g b (L(i \<mapsto> p'))"
    by (rule bar_inv_quiet [where L = L and i = i, OF inv L])
      (use gen_invD(3) [OF I(2) L] in \<open>simp_all add: Phase p'\<close>)
  then show ?thesis using p'(1) by blast
next
  case (InBarrier k q)
  note L = L [unfolded InBarrier]
  show ?thesis
  proof (cases "q = BUnlock")
    case True
    have I: "mutex_inv b L" "gen_inv n K g b L" using inv by (simp_all add: bar_inv_def)
    have p': "p' = Phase (Suc k)" "b' = b\<lparr>b_owner := None\<rparr>" using st by (simp_all add: InBarrier True)
    have "mutex_inv b' (L(i \<mapsto> p'))" by (rule mutex_inv_give [OF I(1) L]) (simp_all add: True p')
    then have "bar_inv n K g b' (L(i \<mapsto> p'))"
      by (rule bar_inv_quiet [where L = L and i = i, OF inv L])
        (use gen_invD(3) [OF I(2) L] in \<open>auto simp: True p'\<close>)
    then show ?thesis by blast
  next
    case False
    then obtain q' where q': "p' = InBarrier k q'" "abs_wait (Suc i) c q b = Ok (Some q', b')"
      using st by (auto simp: InBarrier outcome_simps abs_wait_returns split: option.splits)
    show ?thesis unfolding q'(1)
      using bar_inv_owner_step [OF inv L _ q'(2)] bar_inv_sleeper_step [OF inv L _ q'(2)] by (cases "bholds q") auto
  qed
qed (use st in simp)

lemma bar_inv_fork:
  assumes inv: "bar_inv n K g b L" and L: "L i = None" and "i < n"
  shows "bar_inv n K g b (L(i \<mapsto> Phase 0))"
proof -
  have I: "mutex_inv b L" "sleep_inv g b L" "gen_inv n K g b L" using inv by (simp_all add: bar_inv_def)
  note D = gen_invD [OF I(3)]
  have g: "g = 0" using D(5) assms(2,3) by blast
  have ex: "(\<exists>j q. (L(i \<mapsto> Phase 0)) j = Some q \<and> Q q) \<longleftrightarrow> (\<exists>j q. L j = Some q \<and> Q q)" if "\<not> Q (Phase 0)" for Q
    using L that by (metis fun_upd_apply option.distinct(1) option.inject)
  have arr: "arrivals n g (L(i \<mapsto> Phase 0)) = arrivals n g L" using L by (auto simp: arrivals_def)
  have "mutex_inv b (L(i \<mapsto> Phase 0))"
    using I(1) L unfolding mutex_inv_def by (metis fun_upd_apply holds.simps(2) option.distinct(1) option.inject)
  moreover have "sleep_inv g b (L(i \<mapsto> Phase 0))" unfolding sleep_inv_def
  proof (intro conjI allI impI ballI)
    fix t assume "t \<in> set (b_waiting b)"
    then obtain j k my where "t = Suc j" "L j = Some (InBarrier k (BSleep my))"
      "k = g \<or> (\<exists>j p. L j = Some p \<and> waking p)" using I(2) unfolding sleep_inv_def by blast
    then show "\<exists>j k my. t = Suc j \<and> (L(i \<mapsto> Phase 0)) j = Some (InBarrier k (BSleep my)) \<and>
        (k = g \<or> (\<exists>j p. (L(i \<mapsto> Phase 0)) j = Some p \<and> waking p))"
      using L ex [of waking] by (intro exI [of _ j] exI [of _ k] exI [of _ my]) auto
  qed (use I(2) ex [of advancing] in \<open>auto simp: sleep_inv_def split: if_splits\<close>)
  moreover have "gen_inv n K g b (L(i \<mapsto> Phase 0))"
  proof (rule gen_invI [where adv = "\<exists>j q. L j = Some q \<and> advancing q"])
    show "\<forall>j q. (L(i \<mapsto> Phase 0)) j = Some q \<longrightarrow> j < n \<and> point_ok K g q \<and> owner_ok b q"
      using D(2,3,4) assms(3) g by auto
    show "card (arrivals n g (L(i \<mapsto> Phase 0))) < n \<or> (\<exists>j q. (L(i \<mapsto> Phase 0)) j = Some q \<and> testing q) \<or> n = 0"
      unfolding arr using D(8) ex [of testing] by simp
    show "(\<exists>j q. (L(i \<mapsto> Phase 0)) j = Some q \<and> advancing q) \<longleftrightarrow> (\<exists>j q. L j = Some q \<and> advancing q)"
      by (rule ex) simp
    show "\<forall>j<n. (L(i \<mapsto> Phase 0)) j = None \<longrightarrow> g = 0" using g by simp
  qed (simp_all only: arr D)
  ultimately show ?thesis by (simp add: bar_inv_def)
qed

section \<open>No undefined step\<close>

lemma abs_worker_no_ub:
  assumes inv: "bar_inv n K g b L" and L: "L i = Some p"
  shows "abs_worker K (Suc i) c p b \<noteq> UB u"
proof -
  have I: "gen_inv n K g b L" using inv by (simp add: bar_inv_def)
  note P = gen_invD(2-4) [OF I L] and D = gen_invD [OF I]
  have "signed_add 32 m 1 = Ok (m + 1)" if "p = InBarrier k (BIncr my m)" for k my m
  proof -
    have "card (arrivals n g L) < n" using arrivals_room [where L = L and i = i, OF L] P(1) that by simp
    then show ?thesis using P(3) that D(6,9) by (simp add: signed_add_def signed_range_def)
  qed
  moreover have "signed_add 32 s 1 = Ok (s + 1)" if "p = InBarrier k (BSerStore s)" for k s
    using P(2) that D(10) by (simp add: signed_add_def signed_range_def)
  ultimately show ?thesis
    by (cases p; cases "case p of InBarrier k q \<Rightarrow> q | _ \<Rightarrow> BLock")
      (auto simp: abs_lock_def obind_UB_iff outcome_simps split: choice.splits if_splits)
qed

section \<open>Progress\<close>

text \<open>
  The steps a thread has left, if no wakeup is spurious: a sleeping thread whose generation is over
  has fewer left than when it went to sleep.
\<close>

fun wait_left :: "int \<Rightarrow> bpc \<Rightarrow> nat" where
  "wait_left s BLock = 30"
| "wait_left s BSerial = 29"
| "wait_left s (BCount my) = 28"
| "wait_left s (BIncr my n) = 27"
| "wait_left s (BTest my) = 26"
| "wait_left s (BTest2 my n) = 25"
| "wait_left s BReset = 24"
| "wait_left s BSerLoad = 23"
| "wait_left s (BSerStore v) = 22"
| "wait_left s BBroadcast = 21"
| "wait_left s (BRelock my) = (if my = s then 11 else 3)"
| "wait_left s (BLoop my) = (if my = s then 10 else 2)"
| "wait_left s (BWait my) = 9"
| "wait_left s (BSleep my) = (if my = s then 8 else 4)"
| "wait_left s BUnlock = 1"

fun bar_left :: "nat \<Rightarrow> int \<Rightarrow> wpc option \<Rightarrow> nat" where
  "bar_left K s (Some (Phase k)) = 40 * (K - k) + 1"
| "bar_left K s (Some (InBarrier k q)) = 40 * (K - Suc k) + 1 + wait_left s q"
| "bar_left K s _ = 0"

definition bar_work :: "nat \<Rightarrow> nat \<Rightarrow> int \<Rightarrow> (nat \<Rightarrow> wpc option) \<Rightarrow> nat" where
  "bar_work n K s L = (\<Sum>j<n. bar_left K s (L j))"

lemma bar_work_upd:
  assumes "L i = Some p" and "i < n" and "bar_left K s' (Some p') < bar_left K s (Some p)"
    and "\<And>j q. j \<noteq> i \<Longrightarrow> L j = Some q \<Longrightarrow> bar_left K s' (Some q) \<le> bar_left K s (Some q)"
  shows "bar_work n K s' (L(i \<mapsto> p')) < bar_work n K s L"
  unfolding bar_work_def
proof (rule sum_strict_mono_ex1)
  show "\<forall>j\<in>{..<n}. bar_left K s' ((L(i \<mapsto> p')) j) \<le> bar_left K s (L j)"
  proof
    fix j show "bar_left K s' ((L(i \<mapsto> p')) j) \<le> bar_left K s (L j)"
      using assms(1,3) assms(4) [of j] by (cases "j = i"; cases "L j") auto
  qed
  show "\<exists>j\<in>{..<n}. bar_left K s' ((L(i \<mapsto> p')) j) < bar_left K s (L j)"
    using assms(1-3) by (intro bexI [of _ i]) auto
qed simp

text \<open>When the serial advances, every other thread sleeps, or waits for the mutex, in the generation that ends.\<close>

lemma advance_left:
  assumes inv: "bar_inv n K g b L" and L: "L i = Some (InBarrier k (BSerStore s))" and "L j = Some q" "j \<noteq> i"
  shows "bar_left K (s + 1) (Some q) \<le> bar_left K s (Some q)"
proof -
  have I: "gen_inv n K g b L" using inv by (simp add: bar_inv_def)
  note P = gen_invD(2-4) [OF I L] and Q = gen_invD(2-4) [OF I assms(3)]
  have "arrivals n g L = {}" using P(3) gen_invD(6) [OF I] by simp
  moreover have "j \<in> arrivals n g L" if "arrived g q" using that assms(3) Q(1) by (simp add: arrivals_def)
  ultimately have "\<not> arrived g q" by blast
  then show ?thesis using P(2) Q(2)
    by (cases q; cases "case q of InBarrier k q \<Rightarrow> q | _ \<Rightarrow> BLock") auto
qed

text \<open>A thread that has been woken by a broadcast finds that the serial number has advanced.\<close>

lemma woken_serial:
  assumes "bar_inv n K g b L" and "L i = Some (InBarrier k (BSleep my))" and "Suc i \<notin> set (b_waiting b)"
  shows "my \<noteq> b_serial b"
proof -
  have I: "sleep_inv g b L" "gen_inv n K g b L" using assms(1) by (simp_all add: bar_inv_def)
  have "\<not> (\<exists>j q. L j = Some q \<and> advancing q)" using I(1) assms(2,3) unfolding sleep_inv_def by blast
  then have "b_serial b = int g" using gen_invD(7) [OF I(2)] by (simp only: if_False add_0_right)
  moreover have "k \<noteq> g" using I(1) assms(2,3) unfolding sleep_inv_def by blast
  ultimately show ?thesis using gen_invD(3) [OF I(2) assms(2)] by simp
qed

lemma bar_left_less:
  assumes inv: "bar_inv n K g b L" and L: "L i = Some p" and "\<not> spurious c"
    and st: "abs_worker K (Suc i) c p b = Ok (p', b')"
  shows "bar_left K (b_serial b') (Some p') < bar_left K (b_serial b) (Some p)"
proof -
  have I: "mutex_inv b L" "gen_inv n K g b L" using inv by (simp_all add: bar_inv_def)
  note P = gen_invD(2-4) [OF I(2) L]
  have ser: "b_serial b = (if advancing p then int g - 1 else int g)" if "holds p"
    by (rule owner_serial [OF I L that])
  have woken: "my \<noteq> b_serial b" if "p = InBarrier k (BSleep my)" "Suc i \<notin> set (b_waiting b)" for k my
    using woken_serial [OF inv] L that by blast
  show ?thesis using st ser P(2) woken assms(3)
    by (cases p; cases "case p of InBarrier k q \<Rightarrow> q | _ \<Rightarrow> BLock")
      (auto simp: outcome_simps abs_lock_def signed_add_def split: if_splits choice.splits)
qed

lemma bar_left_others:
  assumes inv: "bar_inv n K g b L" and L: "L i = Some p" and st: "abs_worker K (Suc i) c p b = Ok (p', b')"
    and q: "L j = Some q" "j \<noteq> i"
  shows "bar_left K (b_serial b') (Some q) \<le> bar_left K (b_serial b) (Some q)"
proof (cases "\<exists>k s. p = InBarrier k (BSerStore s)")
  case True
  have I: "mutex_inv b L" "gen_inv n K g b L" using inv by (simp_all add: bar_inv_def)
  obtain k s where p: "p = InBarrier k (BSerStore s)" using True by blast
  then have "b_serial b = s" "b_serial b' = s + 1"
    using st owner_serial [OF I L] gen_invD(3) [OF I(2) L] by (auto simp: outcome_simps signed_add_def split: if_splits)
  then show ?thesis using advance_left [OF inv L [unfolded p] q] by simp
next
  case False
  then have "b_serial b' = b_serial b"
    using st by (cases p; cases "case p of InBarrier k q \<Rightarrow> q | _ \<Rightarrow> BLock")
      (auto simp: outcome_simps abs_lock_def split: if_splits choice.splits)
  then show ?thesis by simp
qed

lemma bar_work_less:
  assumes inv: "bar_inv n K g b L" and L: "L i = Some p" and st: "abs_worker K (Suc i) Tau p b = Ok (p', b')"
  shows "bar_work n K (b_serial b') (L(i \<mapsto> p')) < bar_work n K (b_serial b) L"
proof (rule bar_work_upd [where L = L and i = i, OF L])
  show "i < n" using inv gen_invD(2) L by (auto simp: bar_inv_def)
  show "bar_left K (b_serial b') (Some p') < bar_left K (b_serial b) (Some p)"
    by (rule bar_left_less [OF inv L _ st]) simp
qed (rule bar_left_others [OF inv L st])

text \<open>Who moves: the owner of the mutex; with the mutex free, anyone who is not asleep. Not all are asleep.\<close>

lemma abs_moves:
  assumes inv: "bar_inv n K g b L" and L: "L i = Some p" and "p \<noteq> WorkerRet"
    and turn: "holds p \<or> b_owner b = None \<and> (\<forall>k my. p = InBarrier k (BSleep my) \<longrightarrow> Suc i \<notin> set (b_waiting b))"
  shows "\<exists>p' b'. abs_worker K (Suc i) c p b = Ok (p', b')"
proof -
  have "abs_worker K (Suc i) c p b \<noteq> Blocked"
    using assms(3) turn by (cases p; cases "case p of InBarrier k q \<Rightarrow> q | _ \<Rightarrow> BLock")
      (auto simp: abs_lock_def signed_add_def)
  then show ?thesis using abs_worker_no_ub [OF inv L, of c] by (cases "abs_worker K (Suc i) c p b") auto
qed

lemma not_all_asleep:
  assumes inv: "bar_inv n K g b L" and free: "b_owner b = None" and dom: "dom L = {..<n}"
    and L: "L i = Some p" "p \<noteq> WorkerRet"
    and asleep: "\<And>j q. L j = Some q \<Longrightarrow> q \<noteq> WorkerRet \<Longrightarrow> \<exists>k my. q = InBarrier k (BSleep my) \<and> Suc j \<in> set (b_waiting b)"
  shows False
proof -
  have I: "mutex_inv b L" "sleep_inv g b L" "gen_inv n K g b L" using inv by (simp_all add: bar_inv_def)
  note D = gen_invD [OF I(3)]
  have no: "\<not> waking q" "\<not> testing q" if "L j = Some q" for j q
    using mutex_inv_free [OF I(1) free that] owner_points by blast+
  have arr: "\<exists>my. q = InBarrier g (BSleep my)" if q0: "L j = Some q" "q \<noteq> WorkerRet" for j q
  proof -
    obtain k my where q: "q = InBarrier k (BSleep my)" "Suc j \<in> set (b_waiting b)" using asleep [OF q0] by blast
    then obtain j' k' my' where "Suc j = Suc j'" "L j' = Some (InBarrier k' (BSleep my'))"
      "k' = g \<or> (\<exists>j p. L j = Some p \<and> waking p)"
      using I(2) unfolding sleep_inv_def by blast
    then show ?thesis using q0(1) no(1) by auto
  qed
  have "g < K" using arr [OF L] D(3) [OF L(1)] by auto
  then have nr: "L j \<noteq> Some WorkerRet" for j using D(3) [of j WorkerRet] by auto
  have "j \<in> arrivals n g L" if "j < n" for j
  proof -
    have "j \<in> dom L" using that dom by simp
    then obtain q where q: "L j = Some q" by blast
    then have "\<exists>my. q = InBarrier g (BSleep my)" using nr [of j] by (intro arr) auto
    then show ?thesis using q that by (auto simp: arrivals_def)
  qed
  then have "{..<n} \<subseteq> arrivals n g L" by blast
  from card_mono [OF finite_arrivals this] have "\<not> card (arrivals n g L) < n" by simp
  moreover have "\<not> (\<exists>j q. L j = Some q \<and> testing q)" using no(2) by blast
  moreover have "n \<noteq> 0" using D(2) [OF L(1)] by simp
  ultimately show False using D(8) by blast
qed

lemma abs_progress:
  assumes inv: "bar_inv n K g b L" and dom: "dom L = {..<n}" and L: "L i = Some p" "p \<noteq> WorkerRet"
  shows "\<exists>j q p' b'. L j = Some q \<and> q \<noteq> WorkerRet \<and> abs_worker K (Suc j) c q b = Ok (p', b')"
proof (cases "b_owner b")
  case None
  then obtain j q where j: "L j = Some q" "q \<noteq> WorkerRet"
    "\<forall>k my. q = InBarrier k (BSleep my) \<longrightarrow> Suc j \<notin> set (b_waiting b)"
    using not_all_asleep [OF inv None dom L] by blast
  then show ?thesis using abs_moves [OF inv j(1,2)] None by blast
next
  case (Some t)
  have "mutex_inv b L" using inv by (simp add: bar_inv_def)
  then obtain j q where j: "L j = Some q" "holds q" using Some unfolding mutex_inv_def by blast
  moreover have "q \<noteq> WorkerRet" using j(2) by auto
  ultimately show ?thesis using abs_moves [OF inv j(1)] by blast
qed

end
