(* ===== verification/Barrier_Program.thy ===== *)
theory Barrier_Program
  imports Barrier
begin

text \<open>
  The whole program of exercise 06: the invariant of the abstract barrier carried to the weak-memory
  machine along the refinement, the interpretation of the fork-join interfaces, and what the exercise
  promises.
\<close>

section \<open>The program\<close>

definition bar_linv :: "nat \<Rightarrow> nat \<Rightarrow> bar_machine \<Rightarrow> (nat \<Rightarrow> wpc option) \<Rightarrow> bool" where
  "bar_linv n K m L \<longleftrightarrow> guarded m \<and> boot_view \<le> cur m 0 \<and> (\<forall>i p. L i = Some p \<longrightarrow> boot_view \<le> cur m (Suc i)) \<and>
     (\<exists>g. bar_inv n K g (abs_bar m) L)"

definition bar_ready :: "nat \<Rightarrow> nat \<Rightarrow> bar_machine \<Rightarrow> bool" where
  "bar_ready n K m \<longleftrightarrow> int n < 2 ^ 31 \<and> int K < 2 ^ 31 \<and> (\<exists>v0. bar_start n v0 = Ok m)"

lemma worker_refines:
  assumes "guarded m" and "holds p \<Longrightarrow> owner (mtx m Mutex) = Some t" and "boot_view \<le> cur m t"
  shows "refines (worker K t c p m) (abs_worker K t c p (abs_bar m))"
proof (cases p)
  case (InBarrier k q)
  have "refines (barrier_wait t c q m) (abs_wait t c q (abs_bar m))"
    by (rule wait_refines [OF assms(1) _ assms(3)]) (use assms(2) InBarrier in simp)
  then show ?thesis unfolding InBarrier refines_def
    by (cases "barrier_wait t c q m"; cases "abs_wait t c q (abs_bar m)") auto
qed (use assms(1) in simp_all)

lemma linv_refines:
  assumes "bar_linv n K m L" and "L i = Some p"
  shows "refines (worker K (Suc i) c p m) (abs_worker K (Suc i) c p (abs_bar m))"
proof -
  obtain g where "mutex_inv (abs_bar m) L" using assms(1) by (auto simp: bar_linv_def bar_inv_def)
  from mutex_invD(1) [OF this assms(2)] show ?thesis
    using assms by (intro worker_refines) (auto simp: bar_linv_def abs_bar_def)
qed

lemma refines_OkD:
  assumes "refines x y" and "x = Ok (r, m)"
  shows "y = Ok (r, abs_bar m)" and "guarded m"
  using assms by (auto simp: refines_def)

lemma linv_no_ub:
  assumes inv: "bar_linv n K m L" and L: "L i = Some p"
  shows "worker K (Suc i) c p m \<noteq> UB u"
proof
  assume "worker K (Suc i) c p m = UB u"
  then have "abs_worker K (Suc i) c p (abs_bar m) = UB u" using linv_refines [OF inv L, of c] by (simp add: refines_def)
  then show False using abs_worker_no_ub [where L = L and i = i, OF _ L] inv by (auto simp: bar_linv_def)
qed

lemma cond_grows:
  "cond_wait_enter t c x m = Ok m' \<Longrightarrow> grows t m m'" "grows t m (cond_spurious_wake u c m)" "grows t m (cond_broadcast c m)"
  by (auto simp: cond_wait_enter_def cond_spurious_wake_def cond_broadcast_def grows_def outcome_simps
      dest: mutex_unlock_D(7))

lemma cond_tracked:
  "cond_wait_enter t c x m = Ok m' \<Longrightarrow> accesses m' k = accesses m k"
  "accesses (cond_spurious_wake u c m) k = accesses m k" "accesses (cond_broadcast c m) k = accesses m k"
  by (cases k; auto simp: cond_wait_enter_def cond_spurious_wake_def cond_broadcast_def outcome_simps
      dest: mutex_unlock_D(5,6))+

lemma wait_grows: "barrier_wait t c q m = Ok (r, m') \<Longrightarrow> grows t m m'"
proof -
  have u: "grows t m m'" if "mutex_unlock t x m = Ok m'" for x and m' :: bar_machine
    using mutex_unlock_D(7) [OF that] by (simp add: grows_def)
  show "barrier_wait t c q m = Ok (r, m') \<Longrightarrow> grows t m m'"
    by (cases q) (auto simp: outcome_simps cond_grows split: if_splits choice.splits
        dest: mutex_lock_D(9) na_load_D(8) na_store_D(8) u intro: cond_grows)
qed

lemma wait_tracked:
  assumes "barrier_wait t c q m = Ok (r, m')"
  shows "accesses m' k = accesses m k \<or> knows_key (cur m' t) k m'"
  using assms by (cases q) (auto simp: outcome_simps cond_tracked split: if_splits choice.splits
      dest: na_load_tracked [where k = k] na_store_tracked [where k = k] mutex_tracked [where k = k] cond_tracked(1) [where k = k])

lemma wait_mwf: "mwf m \<Longrightarrow> barrier_wait t c q m = Ok (r, m') \<Longrightarrow> mwf m'"
  by (cases q) (auto simp: outcome_simps split: if_splits choice.splits
      intro: mutex_lock_mwf mutex_unlock_mwf na_load_mwf na_store_mwf cond_mwf)

lemma worker_laws:
  assumes "worker K t c p m = Ok (p', m')"
  shows "accesses m' k = accesses m k \<or> knows_key (cur m' t) k m'" and "mwf m \<Longrightarrow> mwf m'"
  using assms by (cases p; auto simp: outcome_simps dest: wait_tracked [where k = k] wait_mwf)+

lemma worker_grows: "worker K t c p m = Ok (p', m') \<Longrightarrow> grows t m m'"
  by (cases p) (auto simp: outcome_simps dest: wait_grows)

lemma linv_step:
  assumes inv: "bar_linv n K m L" and L: "L i = Some p" and st: "worker K (Suc i) c p m = Ok (p', m')"
  shows "bar_linv n K m' (L(i \<mapsto> p'))"
proof -
  note R = refines_OkD [OF linv_refines [OF inv L] st]
  obtain g where "bar_inv n K g (abs_bar m) L" using inv by (auto simp: bar_linv_def)
  from bar_inv_step [where L = L and i = i, OF this L R(1)]
  have "\<exists>g. bar_inv n K g (abs_bar m') (L(i \<mapsto> p'))" .
  moreover have "boot_view \<le> cur m' u" if "boot_view \<le> cur m u" for u
    using that grows_le [OF worker_grows [OF st], of u] by (rule order.trans)
  ultimately show ?thesis using inv L R(2) by (auto simp: bar_linv_def)
qed

text \<open>The stores of \<open>barrier_init\<close>.\<close>

lemma init_store:
  fixes m :: bar_machine
  assumes "\<And>y. knows (cur m 0) y m"
  shows "\<exists>m'. na_store 0 x v m = Ok m' \<and> (\<forall>y. knows (cur m' 0) y m') \<and> value_of m' x = v \<and>
    (\<forall>y. y \<noteq> x \<longrightarrow> hist m' y = hist m y) \<and> length (hist m' x) = Suc (length (hist m x)) \<and> rds m' = rds m \<and>
    mtx m' = mtx m \<and> waiting m' = waiting m"
proof -
  obtain m' where m': "na_store 0 x v m = Ok m'" using na_store_ok [OF assms] by blast
  note D = na_store_D [OF m']
  have "knows (cur m' 0) y m'" for y
    using D(9) knows_grows [OF assms D(8)] D(3,4) by (cases "y = x") (auto simp: untouched_def)
  then show ?thesis using m' D by auto
qed

lemma bar_start_state:
  "\<exists>m. bar_start n v0 = Ok m \<and> (\<forall>x. knows (cur m 0) x m) \<and> (\<forall>x\<in>bar_fields. length (hist m x) = 2) \<and>
     rds m = (\<lambda>_. []) \<and> owner (mtx m Mutex) = None \<and>
     abs_bar m = \<lparr>b_count = 0, b_threshold = int n, b_serial = 0, b_owner = None, b_waiting = []\<rparr>"
proof -
  let ?m = "init_machine v0 :: bar_machine"
  obtain m1 where m1: "na_store 0 Count 0 ?m = Ok m1" "\<forall>y. knows (cur m1 0) y m1" "value_of m1 Count = 0"
    "\<forall>y. y \<noteq> Count \<longrightarrow> hist m1 y = hist ?m y" "length (hist m1 Count) = Suc (length (hist ?m Count))" "rds m1 = rds ?m"
    "mtx m1 = mtx ?m" "waiting m1 = waiting ?m" using init_store [of ?m Count 0] by auto
  obtain m2 where m2: "na_store 0 Threshold (int n) m1 = Ok m2" "\<forall>y. knows (cur m2 0) y m2" "value_of m2 Threshold = int n"
    "\<forall>y. y \<noteq> Threshold \<longrightarrow> hist m2 y = hist m1 y" "length (hist m2 Threshold) = Suc (length (hist m1 Threshold))"
    "rds m2 = rds m1" "mtx m2 = mtx m1" "waiting m2 = waiting m1" using init_store [of m1 Threshold "int n"] m1(2) by auto
  obtain m3 where m3: "na_store 0 Serial 0 m2 = Ok m3" "\<forall>y. knows (cur m3 0) y m3" "value_of m3 Serial = 0"
    "\<forall>y. y \<noteq> Serial \<longrightarrow> hist m3 y = hist m2 y" "length (hist m3 Serial) = Suc (length (hist m2 Serial))" "rds m3 = rds m2"
    "mtx m3 = mtx m2" "waiting m3 = waiting m2" using init_store [of m2 Serial 0] m2(2) by auto
  have "bar_start n v0 = Ok m3" using m1(1) m2(1) m3(1) by (simp add: bar_start_def barrier_init_def)
  moreover have "value_of m3 Count = 0" "value_of m3 Threshold = int n"
    using m1(3) m2(3,4) m3(4) by (simp_all add: value_of_def)
  moreover have "\<forall>x\<in>bar_fields. length (hist m3 x) = 2"
    using m1(4,5) m2(4,5) m3(4,5) by (simp add: bar_fields_def)
  moreover have "rds m3 = (\<lambda>_. [])" using m1(6) m2(6) m3(6) by (simp add: init_machine_def)
  ultimately show ?thesis
    using m3(2,3) m1(7,8) m2(7,8) m3(7,8) by (intro exI [of _ m3]) (simp add: abs_bar_def)
qed

lemma bar_start_mwf:
  assumes "bar_start n v0 = Ok m"
  shows "mwf m"
proof -
  obtain m1 m2 where st: "na_store 0 Count 0 (init_machine v0) = Ok m1" "na_store 0 Threshold (int n) m1 = Ok m2"
    "na_store 0 Serial 0 m2 = Ok m"
    using assms by (auto simp: bar_start_def barrier_init_def outcome_simps)
  show ?thesis by (rule na_store_mwf [OF na_store_mwf [OF na_store_mwf [OF mwf_init st(1)] st(2)] st(3)])
qed

lemma bar_ready_facts:
  assumes "bar_ready n K m"
  shows "bar_linv n K m (\<lambda>_. None)" and "mwf m" and "knows (cur m 0) x m"
proof -
  obtain v0 where "bar_start n v0 = Ok m" and lt: "int n < 2 ^ 31" "int K < 2 ^ 31"
    using assms by (auto simp: bar_ready_def)
  then have m: "\<And>x. knows (cur m 0) x m" "\<forall>x\<in>bar_fields. length (hist m x) = 2" "rds m = (\<lambda>_. [])"
    "owner (mtx m Mutex) = None"
    "abs_bar m = \<lparr>b_count = 0, b_threshold = int n, b_serial = 0, b_owner = None, b_waiting = []\<rparr>"
    using bar_start_state [of n v0] by auto
  show "mwf m" using bar_start_mwf \<open>bar_start n v0 = Ok m\<close> .
  show "knows (cur m 0) x m" by (rule m(1))
  have "1 \<le> cur m 0 (W x)" if "x \<in> bar_fields" for x
    using knows_imp_writes [OF m(1), of x] m(2) that by (simp add: knows_writes_def)
  then have "boot_view \<le> cur m 0" by (auto simp: boot_view_def le_fun_def bar_fields_def)
  moreover have "guarded m"
    using m(2,3,4) unfolding guarded_def
    by (simp add: knows_def knows_writes_def holder_view_def boot_view_def bar_fields_def)
  moreover have "arrivals n 0 (\<lambda>_. None) = {}" by (simp add: arrivals_def)
  then have "bar_inv n K 0 (abs_bar m) (\<lambda>_. None)"
    using lt by (auto simp: m(5) bar_inv_def mutex_inv_def sleep_inv_def gen_inv_def)
  ultimately show "bar_linv n K m (\<lambda>_. None)" by (auto simp: bar_linv_def)
qed

lemma linv_same:
  assumes "bar_linv n K m L" and "abs_bar m' = abs_bar m" and "guarded m'"
    and "\<And>u. u = 0 \<or> (\<exists>i p. u = Suc i \<and> L i = Some p) \<Longrightarrow> cur m u \<le> cur m' u"
  shows "bar_linv n K m' L"
  using assms unfolding bar_linv_def by (auto intro: order.trans)

lemma linv_join:
  assumes "bar_linv n K m L"
  shows "bar_linv n K (pthread_join 0 u m) L"
proof (rule linv_same [OF assms])
  let ?m = "pthread_join 0 u m"
  have le: "cur m v \<le> cur ?m v" for v by (rule grows_le [OF pthread_join_grows])
  have hv: "holder_view m \<le> holder_view ?m"
    using le by (simp add: holder_view_def frame_simps split: option.splits)
  have "guarded m" using assms by (simp add: bar_linv_def)
  then show "guarded ?m"
    unfolding guarded_def by (intro ballI knows_mono [OF _ hv untouched_join]) simp
  show "cur m v \<le> cur ?m v" for v by (rule le)
  show "abs_bar ?m = abs_bar m" by (simp add: abs_bar_def value_of_def frame_simps)
qed

lemma linv_fork:
  assumes inv: "bar_linv n K m L" and L: "L i = None" and "i < n"
  shows "bar_linv n K (pthread_create 0 (Suc i) m) (L(i \<mapsto> Phase 0))"
proof -
  let ?m = "pthread_create 0 (Suc i) m"
  obtain g where g: "bar_inv n K g (abs_bar m) L" using inv by (auto simp: bar_linv_def)
  have "owner (mtx m Mutex) \<noteq> Some (Suc i)"
    using g L by (auto simp: bar_inv_def mutex_inv_def abs_bar_def)
  then have "holder_view ?m = holder_view m"
    by (auto simp: holder_view_def frame_simps split: option.splits)
  then have "guarded ?m"
    using inv by (simp add: bar_linv_def guarded_def frame_simps knows_def knows_writes_def)
  moreover have "abs_bar ?m = abs_bar m" by (simp add: abs_bar_def value_of_def frame_simps)
  moreover have "boot_view \<le> cur ?m u" if "u = Suc i \<or> boot_view \<le> cur m u" for u
    using inv that by (cases "u = Suc i") (auto simp: bar_linv_def frame_simps)
  ultimately show ?thesis
    using inv bar_inv_fork [OF g L assms(3)] unfolding bar_linv_def by (auto split: if_splits)
qed

interpretation bars: fork_join "bar_main n K" bar_fields "bar_ready n K" "bar_linv n K" for n K
proof (unfold_locales, goal_cases)
  case 1
  then show ?case by (auto simp: bar_main_def)
next
  case (2 m)
  then show ?case by (rule bar_ready_facts(1))
next
  case (3 m)
  then show ?case by (rule bar_ready_facts(2))
next
  case (4 m x)
  from 4(1) show ?case by (rule bar_ready_facts(3))
next
  case (5 m L i)
  then show ?case using linv_fork [of n K m L i] by (simp add: bar_main_def)
next
  case (6 m L i p)
  then show ?case using linv_join by blast
next
  case (7 m L i p c p' m')
  then show ?case using linv_step [of n K m L i p c p' m'] by (simp add: bar_main_def)
next
  case (8 m L i p c p' m')
  then show ?case using worker_grows [of K "Suc i" c p m p' m'] by (simp add: bar_main_def)
next
  case (9 m L i p c p' m' key)
  then show ?case using worker_laws(1) [of K "Suc i" c p m p' m' key] by (simp add: bar_main_def)
next
  case (10 m L i p c u)
  then show ?case using linv_no_ub [of n K m L i p c u] by (simp add: bar_main_def)
next
  case (11 m i c p p' m')
  then show ?case using worker_laws(2) [of K "Suc i" c p m p' m'] by (simp add: bar_main_def)
qed

interpretation bars: fork_join_progress "bar_main n K" bar_fields "bar_ready n K" "bar_linv n K"
  "\<lambda>m. bar_work n K (value_of m Serial)" for n K
proof (unfold_locales, goal_cases)
  case 1
  then show ?case by (auto simp: bar_main_def)
next
  case (2 m L)
  have dom: "dom L = {..<n}" using 2(3) by (simp add: bar_main_def)
  obtain i p where i: "L i = Some p" "p \<noteq> WorkerRet"
    using 2(4,3) by (rule unfinishedE) (simp add: bar_main_def)
  obtain g where g: "bar_inv n K g (abs_bar m) L" using 2(2) by (auto simp: bar_linv_def)
  obtain j q p' b' where j: "L j = Some q" "q \<noteq> WorkerRet"
    "abs_worker K (Suc j) Tau q (abs_bar m) = Ok (p', b')"
    using abs_progress [OF g dom i, of Tau] by blast
  from linv_refines [OF 2(2) j(1), of Tau] obtain m' where m': "worker K (Suc j) Tau q m = Ok (p', m')" "abs_bar m' = b'"
    unfolding refines_def j(3) by (cases "worker K (Suc j) Tau q m") auto
  have "solo (bar_main n K) j q m p' m'"
    by (rule solo_one [where c = Tau]) (simp_all add: bar_main_def j(2) m'(1))
  moreover have "bar_work n K (value_of m' Serial) (L(j \<mapsto> p')) < bar_work n K (value_of m Serial) L"
    using bar_work_less [OF g j(1,3)] by (simp add: m'(2) [symmetric] abs_bar_def)
  ultimately show ?case using j(1) by blast
qed

text \<open>Without spurious wakeups no thread moves in circles, whoever the scheduler picks.\<close>

lemma bar_left_le: "point_ok K g p \<Longrightarrow> bar_left K s (Some p) \<le> 40 * K + 1"
  by (cases p; cases "case p of InBarrier k q \<Rightarrow> q | _ \<Rightarrow> BLock") auto

lemma linv_abs_step:
  assumes "bar_linv n K m L" and "L i = Some p" and "worker K (Suc i) c p m = Ok (p', m')"
  shows "abs_worker K (Suc i) c p (abs_bar m) = Ok (p', abs_bar m')"
  using linv_refines [OF assms(1,2), of c] assms(3) by (simp add: refines_def)

interpretation bars: fork_join_bounded "bar_main n K" bar_fields "bar_ready n K" "bar_linv n K"
  "\<lambda>m p. bar_left K (value_of m Serial) (Some p)" for n K
proof (unfold_locales, goal_cases)
  case (1 m L i p c p' m')
  obtain g where g: "bar_inv n K g (abs_bar m) L" using 1(1) by (auto simp: bar_linv_def)
  have "worker K (Suc i) c p m = Ok (p', m')" using 1(6) by (simp add: bar_main_def)
  from bar_left_less [OF g 1(2,5) linv_abs_step [OF 1(1,2) this]] show ?case by (simp add: abs_bar_def)
next
  case (2 m L i p c p' m' j)
  obtain g where g: "bar_inv n K g (abs_bar m) L" using 2(1) by (auto simp: bar_linv_def)
  have "worker K (Suc i) c p m = Ok (p', m')" using 2(5) by (simp add: bar_main_def)
  note st = linv_abs_step [OF 2(1,2) this]
  show ?case
  proof (cases "L j")
    case (Some q)
    then show ?thesis using bar_left_others [OF g 2(2) st Some 2(7)] by (simp add: abs_bar_def)
  qed (simp add: bar_main_def)
qed (simp_all add: value_of_def frame_simps)

section \<open>What the exercise promises\<close>

text \<open>Phases a thread has left behind, and barriers at which it has counted itself.\<close>

fun completed :: "nat \<Rightarrow> wpc \<Rightarrow> nat" where
  "completed K (Phase k) = k"
| "completed K (InBarrier k q) = k"
| "completed K WorkerRet = K"

fun counted :: "bpc \<Rightarrow> bool" where
  "counted BLock = False"
| "counted BSerial = False"
| "counted (BCount my) = False"
| "counted (BIncr my n) = False"
| "counted _ = True"

fun entered :: "nat \<Rightarrow> wpc option \<Rightarrow> nat" where
  "entered K None = 0"
| "entered K (Some (Phase k)) = k"
| "entered K (Some (InBarrier k q)) = (if counted q then Suc k else k)"
| "entered K (Some WorkerRet) = K"

lemma point_ok_generation:
  assumes "point_ok K g p"
  shows "completed K p \<le> g" and "g \<le> entered K (Some p)" and "entered K (Some p) = (if arrived g p then Suc g else g)"
  using assms by (cases p; cases "case p of InBarrier k q \<Rightarrow> q | _ \<Rightarrow> BLock"; auto)+

lemma linv_entered:
  assumes "gen_inv n K g b L" and "i < n"
  shows "entered K (L i) = (if i \<in> arrivals n g L then Suc g else g)"
proof (cases "L i")
  case None
  then show ?thesis using gen_invD(5) [OF assms None] by (simp add: arrivals_def)
next
  case (Some p)
  then show ?thesis using point_ok_generation(3) [OF gen_invD(3) [OF assms(1) Some]] assms(2) by (simp add: arrivals_def)
qed

definition bar_state :: "nat \<Rightarrow> nat \<Rightarrow> (wpc, bar_obj, int) fj_state \<Rightarrow> bool" where
  "bar_state n K s \<longleftrightarrow> int n < 2 ^ 31 \<and> int K < 2 ^ 31 \<and>
     (\<exists>v0 m. bar_start n v0 = Ok m \<and> reach (fj_step (bar_main n K)) (fj_init m) s)"

lemma bar_stateE:
  assumes "bar_state n K s"
  obtains m g where "bar_ready n K m" and "reach (fj_step (bar_main n K)) (fj_init m) s"
    and "bar_linv n K (shared s) (locals s)" and "bar_inv n K g (abs_bar (shared s)) (locals s)"
proof -
  obtain v0 m where m: "bar_start n v0 = Ok m" and r: "reach (fj_step (bar_main n K)) (fj_init m) s"
    and lt: "int n < 2 ^ 31" "int K < 2 ^ 31"
    using assms by (auto simp: bar_state_def)
  then have rd: "bar_ready n K m" by (auto simp: bar_ready_def)
  have inv: "bar_linv n K (shared s) (locals s)" by (rule bars.reach_linv [OF r rd])
  then obtain g where "bar_inv n K g (abs_bar (shared s)) (locals s)" by (auto simp: bar_linv_def)
  then show thesis using that rd r inv by blast
qed

lemma bar_state_init: "int n < 2 ^ 31 \<Longrightarrow> int K < 2 ^ 31 \<Longrightarrow> \<exists>m. bar_start n v0 = Ok m \<and> bar_state n K (fj_init m)"
  using bar_start_state [of n v0] unfolding bar_state_def by (blast intro: reach_refl)

text \<open>Runs of one thread can be evaluated on the abstract barrier.\<close>

fun abs_run :: "nat \<Rightarrow> tid \<Rightarrow> nat \<Rightarrow> wpc \<Rightarrow> bar \<Rightarrow> (wpc \<times> bar) outcome" where
  "abs_run K t 0 p b = Ok (p, b)"
| "abs_run K t (Suc k) p b = obind (abs_worker K t Tau p b) (\<lambda>(p', b'). abs_run K t k p' b')"

lemma bar_state_step: "bar_state n K s \<Longrightarrow> fj_step (bar_main n K) e s = Ok s' \<Longrightarrow> bar_state n K s'"
  unfolding bar_state_def by (blast intro: reach_step)

lemma bar_state_thread:
  assumes "bar_state n K s" and "locals s i = Some p" and "abs_worker K (Suc i) c p (abs_bar (shared s)) = Ok (p', b')"
  shows "\<exists>m'. abs_bar m' = b' \<and> bar_state n K (s\<lparr>shared := m', locals := (locals s)(i \<mapsto> p')\<rparr>)"
proof -
  have "bar_linv n K (shared s) (locals s)" using assms(1) by (rule bar_stateE)
  from linv_refines [OF this assms(2), of c]
  obtain m' where m': "worker K (Suc i) c p (shared s) = Ok (p', m')" "abs_bar m' = b'"
    unfolding refines_def assms(3) by (cases "worker K (Suc i) c p (shared s)") auto
  moreover have "p \<noteq> WorkerRet" using assms(3) by auto
  then have "fj_step (bar_main n K) (ThreadStep i c) s = Ok (s\<lparr>shared := m', locals := (locals s)(i \<mapsto> p')\<rparr>)"
    using m'(1) assms(2) by (simp add: bar_main_def)
  from bar_state_step [OF assms(1) this] show ?thesis using m'(2) by blast
qed

lemma bar_state_run:
  "bar_state n K s \<Longrightarrow> locals s i = Some p \<Longrightarrow> abs_run K (Suc i) k p (abs_bar (shared s)) = Ok (p', b') \<Longrightarrow>
   \<exists>s'. bar_state n K s' \<and> locals s' i = Some p' \<and> abs_bar (shared s') = b'"
proof (induction k arbitrary: s p)
  case (Suc k)
  then obtain p1 b1 where 1: "abs_worker K (Suc i) Tau p (abs_bar (shared s)) = Ok (p1, b1)"
    "abs_run K (Suc i) k p1 b1 = Ok (p', b')"
    by (auto simp: outcome_simps)
  from bar_state_thread [OF Suc.prems(1,2) 1(1)] obtain m'
    where m': "abs_bar m' = b1" "bar_state n K (s\<lparr>shared := m', locals := (locals s)(i \<mapsto> p1)\<rparr>)" by blast
  show ?case using Suc.IH [OF m'(2), of p1] m'(1) 1(2) by simp
qed auto

lemma bar_state_first:
  assumes "int n < 2 ^ 31" and "int K < 2 ^ 31" and "0 < n"
  shows "\<exists>s. bar_state n K s \<and> locals s 0 = Some (Phase 0) \<and>
    abs_bar (shared s) = \<lparr>b_count = 0, b_threshold = int n, b_serial = 0, b_owner = None, b_waiting = []\<rparr>"
proof -
  obtain m where m: "bar_start n (\<lambda>_. 7) = Ok m"
    "abs_bar m = \<lparr>b_count = 0, b_threshold = int n, b_serial = 0, b_owner = None, b_waiting = []\<rparr>"
    using bar_start_state [of n "\<lambda>_. 7"] by blast
  then have "bar_state n K (fj_init m)" using assms unfolding bar_state_def by (blast intro: reach_refl)
  moreover let ?s = "\<lparr>shared = pthread_create 0 (Suc 0) m, locals = [0 \<mapsto> Phase 0], mainpc = Creating (Suc 0)\<rparr>"
  have "fj_step (bar_main n K) MainStep (fj_init m) = Ok ?s"
    using assms(3) by (simp add: main_step_def fj_init_def bar_main_def)
  ultimately have "bar_state n K ?s"
    by (rule bar_state_step)
  moreover have "abs_bar (pthread_create 0 (Suc 0) m) = abs_bar m" by (simp add: abs_bar_def value_of_def frame_simps)
  ultimately show ?thesis using m(2) by (intro exI [of _ ?s]) simp
qed

lemma bar_state_single:
  assumes "int n < 2 ^ 31" and "int K < 2 ^ 31" and "0 < n"
    and "abs_run K 1 k (Phase 0) \<lparr>b_count = 0, b_threshold = int n, b_serial = 0, b_owner = None, b_waiting = []\<rparr> = Ok (p, b)"
  shows "\<exists>s. bar_state n K s \<and> locals s 0 = Some p \<and> abs_bar (shared s) = b"
proof -
  obtain s where "bar_state n K s" "locals s 0 = Some (Phase 0)"
    "abs_bar (shared s) = \<lparr>b_count = 0, b_threshold = int n, b_serial = 0, b_owner = None, b_waiting = []\<rparr>"
    using bar_state_first [OF assms(1-3)] by blast
  then show ?thesis using bar_state_run [of n K s 0 "Phase 0" k p b] assms(4) by simp
qed

lemma bar_final:
  assumes "bar_state n K s" and "mainpc s = Joined" and "0 < n"
  shows "(\<forall>i<n. locals s i = Some WorkerRet) \<and> (\<exists>m'. na_load 0 Serial (shared s) = Ok (int K, m')) \<and>
    (\<exists>m'. barrier_destroy (shared s) = Ok m')"
proof -
  obtain m g where r: "bar_ready n K m" "reach (fj_step (bar_main n K)) (fj_init m) s"
    and g: "bar_inv n K g (abs_bar (shared s)) (locals s)" using assms(1) by (rule bar_stateE)
  note F = bars.finished [OF r(2,1) assms(2)]
  have ret: "locals s i = Some WorkerRet" if "i < n" for i using F(3) [of i] that by (auto simp: bar_main_def)
  have I: "mutex_inv (abs_bar (shared s)) (locals s)" "gen_inv n K g (abs_bar (shared s)) (locals s)"
    "sleep_inv g (abs_bar (shared s)) (locals s)"
    using g by (simp_all add: bar_inv_def)
  have "g = K" using gen_invD(3) [OF I(2) ret [OF assms(3)]] by simp
  moreover have "\<not> holds p" if "locals s j = Some p" for j p
    using gen_invD(2) [OF I(2) that] ret [of j] that by auto
  then have own: "b_owner (abs_bar (shared s)) = None" using I(1) unfolding mutex_inv_def by (metis option.exhaust)
  then have "b_serial (abs_bar (shared s)) = int g" by (rule free_serial [OF I(1,2)])
  moreover have "t \<notin> set (b_waiting (abs_bar (shared s)))" for t
  proof
    assume "t \<in> set (b_waiting (abs_bar (shared s)))"
    then obtain i k my where L: "locals s i = Some (InBarrier k (BSleep my))" using I(3) unfolding sleep_inv_def by blast
    show False using gen_invD(2) [OF I(2) L] ret [of i] L by simp
  qed
  then have "b_waiting (abs_bar (shared s)) = []" by (metis list.set_intros(1) neq_Nil_conv)
  with own have "barrier_destroy (shared s) = Ok (shared s)"
    by (simp add: barrier_destroy_def mutex_destroy_def cond_destroy_def abs_bar_def)
  moreover have "knows (cur (shared s) 0) Serial (shared s)" using F(2) [of Serial] by (simp add: bar_fields_def)
  ultimately show ?thesis using ret by (simp add: abs_bar_def na_load_def knows_imp_writes)
qed

text \<open>
  C5. The barrier program, for any number of threads and phases that fit an \<open>int\<close>, any schedule and any
  spurious wakeups: no step is undefined (no data race on the fields of \<open>barrier_t\<close>, no overflow of
  \<open>count\<close> or \<open>serial\<close>, no unlock by a thread that is not the owner), the program can always still run to
  its end, without any spurious wakeup on the way, so no thread is lost in the barrier, and when main has joined the threads all of them have
  returned, the serial number is the number of phases, and \<open>barrier_destroy\<close> finds the mutex free and no
  thread waiting.
\<close>

theorem barrier_correct:
  assumes "bar_state n K s" and "0 < n"
  shows "fj_step (bar_main n K) e s \<noteq> UB u \<and> can_finish (bar_main n K) s \<and>
    (mainpc s = Joined \<longrightarrow> (\<forall>i<n. locals s i = Some WorkerRet) \<and>
       (\<exists>m'. na_load 0 Serial (shared s) = Ok (int K, m')) \<and> (\<exists>m'. barrier_destroy (shared s) = Ok m'))"
proof -
  obtain m where r: "bar_ready n K m" "reach (fj_step (bar_main n K)) (fj_init m) s"
    using assms(1) by (rule bar_stateE)
  show ?thesis
    using bars.thread_safe [OF r(2,1)] bars.always_can_finish [OF r(2,1)] bar_final [OF assms(1) _ assms(2)] by blast
qed

lemma barrier_correct_witness:
  "\<exists>m. bar_start NUM_THREADS (\<lambda>_. 7) = Ok m \<and> can_finish (bar_main NUM_THREADS NUM_PHASES) (fj_init m)"
proof -
  have lt: "int NUM_THREADS < 2 ^ 31" "int NUM_PHASES < 2 ^ 31" "0 < NUM_THREADS"
    by (simp_all add: NUM_THREADS_def NUM_PHASES_def)
  obtain m where m: "bar_start NUM_THREADS (\<lambda>_. 7) = Ok m" "bar_state NUM_THREADS NUM_PHASES (fj_init m)"
    using bar_state_init [OF lt(1,2)] by blast
  then show ?thesis using barrier_correct [OF m(2) lt(3)] by blast
qed

text \<open>
  C10. Every schedule ends: from every reachable state, at most forty steps for each thread and phase
  (and a few for creating and joining the threads) are possible without a spurious wakeup, whatever the
  scheduler does, and an execution that cannot go on has finished main. So the barrier neither
  deadlocks nor lets threads go round in circles.
\<close>

theorem barrier_terminates:
  assumes "bar_state n K s"
  shows "ends_within (bar_main n K) (n * (40 * K + 3) + 2) s"
proof -
  let ?P = "bar_main n K"
  obtain m where r: "bar_ready n K m" "reach (fj_step ?P) (fj_init m) s" and inv: "bar_linv n K (shared s) (locals s)"
    using assms by (rule bar_stateE)
  then obtain g where "bar_inv n K g (abs_bar (shared s)) (locals s)" by (auto simp: bar_linv_def)
  then have I: "gen_inv n K g (abs_bar (shared s)) (locals s)" by (simp add: bar_inv_def)
  show ?thesis
  proof (rule bars.bounded_ends_le [OF r(2,1) bars.always_can_finish [OF _ r(1)]])
    show "bar_left K (value_of (shared s) Serial) (Some (point ?P (locals s) j)) \<le> 40 * K + 1" for j
    proof (cases "locals s j")
      case (Some p)
      then show ?thesis using bar_left_le [OF gen_invD(3) [OF I Some]] by simp
    qed (simp add: bar_main_def)
  qed (simp_all add: bar_main_def algebra_simps)
qed

lemma barrier_terminates_witness:
  "\<exists>m. bar_start NUM_THREADS (\<lambda>_. 7) = Ok m \<and> ends_within (bar_main NUM_THREADS NUM_PHASES) 494 (fj_init m)"
proof -
  obtain m where m: "bar_start NUM_THREADS (\<lambda>_. 7) = Ok m" "bar_state NUM_THREADS NUM_PHASES (fj_init m)"
    using bar_state_init [of NUM_THREADS NUM_PHASES] by (auto simp: NUM_THREADS_def NUM_PHASES_def)
  then show ?thesis using barrier_terminates [OF m(2)] by (auto simp: NUM_THREADS_def NUM_PHASES_def)
qed

text \<open>
  C2. The barrier separates the phases: in every reachable state, with spurious wakeups or not, a thread
  that has left the barrier of a phase behind finds that every thread has entered it. So no thread
  starts a phase while another is still at work in an earlier one.
\<close>

theorem barrier_separates_phases:
  assumes "bar_state n K s" and "locals s i = Some p" and "j < n"
  shows "completed K p \<le> entered K (locals s j)"
proof -
  obtain g where "bar_inv n K g (abs_bar (shared s)) (locals s)" using assms(1) by (rule bar_stateE)
  then have I: "gen_inv n K g (abs_bar (shared s)) (locals s)" by (simp add: bar_inv_def)
  show ?thesis using point_ok_generation(1) [OF gen_invD(3) [OF I assms(2)]] linv_entered [OF I assms(3)]
    by (auto split: if_splits)
qed

lemma barrier_separates_phases_witness:
  "\<exists>s. bar_state 1 2 s \<and> locals s 0 = Some (Phase 1) \<and> completed 2 (Phase 1) \<le> entered 2 (locals s 0)"
proof -
  have "abs_run 2 1 12 (Phase 0) \<lparr>b_count = 0, b_threshold = int 1, b_serial = 0, b_owner = None, b_waiting = []\<rparr> =
      Ok (Phase 1, \<lparr>b_count = 0, b_threshold = 1, b_serial = 1, b_owner = None, b_waiting = []\<rparr>)"
    by (simp add: numeral_eq_Suc abs_lock_def signed_add_def signed_range_def)
  then obtain s where s: "bar_state 1 2 s" "locals s 0 = Some (Phase 1)"
    using bar_state_single [of 1 2 12] by fastforce
  then show ?thesis using barrier_separates_phases [OF s, of 0] by auto
qed

text \<open>
  C13. Refinement: in every reachable state of the weak-memory program, a step of a thread has the outcome
  of the same step of the abstract barrier, whose fields are plain integers; the fields of the machine
  afterwards are those of the abstract barrier.
\<close>

theorem barrier_refines:
  assumes "bar_state n K s" and "locals s i = Some p"
  shows "map_outcome (\<lambda>(r, m). (r, abs_bar m)) (worker K (Suc i) c p (shared s)) =
    abs_worker K (Suc i) c p (abs_bar (shared s))"
proof -
  have "bar_linv n K (shared s) (locals s)" using assms(1) by (rule bar_stateE)
  from linv_refines [OF this assms(2)] show ?thesis by (simp add: refines_def)
qed

lemma barrier_refines_witness:
  "\<exists>s. bar_state 2 1 s \<and> locals s 0 = Some (Phase 0) \<and>
     map_outcome (\<lambda>(r, m). (r, abs_bar m)) (worker 1 1 Tau (Phase 0) (shared s)) =
       Ok (InBarrier 0 BLock, abs_bar (shared s))"
proof -
  obtain s where s: "bar_state 2 1 s" "locals s 0 = Some (Phase 0)" using bar_state_first [of 2 1] by auto
  then show ?thesis using barrier_refines [OF s, of Tau] by auto
qed

text \<open>
  C16. The count, whenever the mutex is free: it is the number of threads that have entered the barrier of
  the current generation, which is \<open>serial\<close>, and it is below the threshold.
\<close>

theorem barrier_count:
  assumes "bar_state n K s" and "0 < n" and "owner (mtx (shared s) Mutex) = None"
  shows "value_of (shared s) Count = int (card {i. i < n \<and> int (entered K (locals s i)) = value_of (shared s) Serial + 1}) \<and>
    value_of (shared s) Count < int n"
proof -
  obtain g where g: "bar_inv n K g (abs_bar (shared s)) (locals s)" using assms(1) by (rule bar_stateE)
  then have I: "mutex_inv (abs_bar (shared s)) (locals s)" "gen_inv n K g (abs_bar (shared s)) (locals s)"
    by (simp_all add: bar_inv_def)
  have free: "b_owner (abs_bar (shared s)) = None" using assms(3) by (simp add: abs_bar_def)
  have ser: "value_of (shared s) Serial = int g" using free_serial [OF I free] by (simp add: abs_bar_def)
  have "int (entered K (locals s i)) = int g + 1 \<longleftrightarrow> i \<in> arrivals n g (locals s)" if "i < n" for i
    using linv_entered [OF I(2) that] by simp
  moreover have "arrivals n g (locals s) \<subseteq> {..<n}" by (auto simp: arrivals_def)
  ultimately have "{i. i < n \<and> int (entered K (locals s i)) = int g + 1} = arrivals n g (locals s)" by blast
  moreover have "\<not> testing q" if "locals s j = Some q" for j q
    using mutex_inv_free [OF I(1) free that] owner_points(1) by blast
  then have "card (arrivals n g (locals s)) < n" using gen_invD(8) [OF I(2)] assms(2) by blast
  ultimately show ?thesis using gen_invD(6) [OF I(2)] by (simp add: ser abs_bar_def)
qed

lemma barrier_count_witness:
  "\<exists>s. bar_state 2 1 s \<and> value_of (shared s) Count = 1 \<and> value_of (shared s) Count < int 2"
proof -
  have "abs_run 1 1 9 (Phase 0) \<lparr>b_count = 0, b_threshold = int 2, b_serial = 0, b_owner = None, b_waiting = []\<rparr> =
      Ok (InBarrier 0 (BSleep 0), \<lparr>b_count = 1, b_threshold = 2, b_serial = 0, b_owner = None, b_waiting = [1]\<rparr>)"
    by (simp add: numeral_eq_Suc abs_lock_def signed_add_def signed_range_def)
  then obtain s where s: "bar_state 2 1 s" "abs_bar (shared s) =
      \<lparr>b_count = 1, b_threshold = 2, b_serial = 0, b_owner = None, b_waiting = [1]\<rparr>"
    using bar_state_single [of 2 1 9] by fastforce
  then have "owner (mtx (shared s) Mutex) = None" "value_of (shared s) Count = 1" by (simp_all add: abs_bar_def)
  then show ?thesis using barrier_count [OF s(1)] s(1) by auto
qed

text \<open>
  C15. No lost wakeup: whenever the mutex is free, a thread asleep in \<open>pthread_cond_wait\<close> waits for a
  broadcast exactly when its generation is not over, that is, when its \<open>my_serial\<close> is still the serial
  number; one whose generation is over has been woken.
\<close>

theorem barrier_no_lost_wakeup:
  assumes "bar_state n K s" and "owner (mtx (shared s) Mutex) = None"
    and "locals s i = Some (InBarrier k (BSleep my))"
  shows "Suc i \<in> set (waiting (shared s) Cond) \<longleftrightarrow> my = value_of (shared s) Serial"
proof -
  obtain g where g: "bar_inv n K g (abs_bar (shared s)) (locals s)" using assms(1) by (rule bar_stateE)
  then have I: "mutex_inv (abs_bar (shared s)) (locals s)" "sleep_inv g (abs_bar (shared s)) (locals s)"
    "gen_inv n K g (abs_bar (shared s)) (locals s)" by (simp_all add: bar_inv_def)
  have free: "b_owner (abs_bar (shared s)) = None" using assms(2) by (simp add: abs_bar_def)
  have ser: "value_of (shared s) Serial = int g" using free_serial [OF I(1,3) free] by (simp add: abs_bar_def)
  have w: "b_waiting (abs_bar (shared s)) = waiting (shared s) Cond" by (simp add: abs_bar_def)
  have my: "my = int k" using gen_invD(3) [OF I(3) assms(3)] by simp
  have "\<not> waking q" if "locals s j = Some q" for j q
    using mutex_inv_free [OF I(1) free that] owner_points(3) by blast
  then have "k = g" if "Suc i \<in> set (waiting (shared s) Cond)"
    using I(2) that assms(3) unfolding sleep_inv_def w by fastforce
  moreover have "Suc i \<in> set (waiting (shared s) Cond)" if "k = g"
    using I(2) assms(3) that unfolding sleep_inv_def w by blast
  ultimately show ?thesis using my ser by auto
qed

lemma barrier_no_lost_wakeup_witness:
  "\<exists>s. bar_state 2 1 s \<and> locals s 0 = Some (InBarrier 0 (BSleep 0)) \<and> 1 \<in> set (waiting (shared s) Cond)"
proof -
  have "abs_run 1 1 9 (Phase 0) \<lparr>b_count = 0, b_threshold = int 2, b_serial = 0, b_owner = None, b_waiting = []\<rparr> =
      Ok (InBarrier 0 (BSleep 0), \<lparr>b_count = 1, b_threshold = 2, b_serial = 0, b_owner = None, b_waiting = [1]\<rparr>)"
    by (simp add: numeral_eq_Suc abs_lock_def signed_add_def signed_range_def)
  then obtain s where s: "bar_state 2 1 s" "locals s 0 = Some (InBarrier 0 (BSleep 0))" "abs_bar (shared s) =
      \<lparr>b_count = 1, b_threshold = 2, b_serial = 0, b_owner = None, b_waiting = [1]\<rparr>"
    using bar_state_single [of 2 1 9] by fastforce
  then have "owner (mtx (shared s) Mutex) = None" "value_of (shared s) Serial = 0" by (simp_all add: abs_bar_def)
  then show ?thesis using barrier_no_lost_wakeup [OF s(1) _ s(2)] s(1,2) by auto
qed

end
