(* ===== verification/SPSC_Queue.thy ===== *)
theory SPSC_Queue
  imports Fork_Join
begin

text \<open>
  Exercise 07: the single-producer single-consumer queue, as the file has it. The loads of the other
  side's index are the constant 0 and neither index is ever stored, so the queue does not deliver:
  the theorems say what the program does instead. Indices are \<open>size_t\<close>, 64-bit words.
\<close>

unbundle bit_operations_syntax

section \<open>Objects, constants, program points\<close>

definition QUEUE_SIZE :: nat where "QUEUE_SIZE = 1024"

definition MASK :: "64 word" where "MASK = 1023"

definition NUM_MESSAGES :: nat where "NUM_MESSAGES = 10000000"

text \<open>The members of \<open>spsc_queue_t\<close>: the two indices and the elements of \<open>buffer\<close>.\<close>

datatype q_obj = Head | Tail | Slot nat

type_synonym q_machine = "(q_obj, int) machine"

datatype enq_pc = EnqLoad | EnqWrite "64 word"

datatype deq_pc = DeqLoad | DeqRead "64 word"

datatype q_pc =
    ProdLoop nat | ProdEnq nat enq_pc | ProdRet
  | ConsLoop nat | ConsDeq nat deq_pc | ConsExit | ConsRet

section \<open>The queue\<close>

definition queue_init :: "tid \<Rightarrow> q_machine \<Rightarrow> q_machine" where
  "queue_init t m = atomic_store SeqCst t Tail 0 (atomic_store SeqCst t Head 0 m)"

text \<open>An atomic load reads a message of the scheduler's choice, as far as coherence allows.\<close>

fun load_index :: "tid \<Rightarrow> q_obj \<Rightarrow> choice \<Rightarrow> q_machine \<Rightarrow> (64 word \<times> q_machine) outcome" where
  "load_index t x (Pick i) m = obind (atomic_load Relaxed t x i m) (\<lambda>(v, m'). Ok (word_of_int v, m'))"
| "load_index t x c m = Blocked"

definition next_index :: "64 word \<Rightarrow> 64 word" where
  "next_index head = (head + 1) AND MASK"

text \<open>\<open>Inl\<close>: the next point; \<open>Inr\<close>: the function has returned.\<close>

fun queue_enqueue :: "tid \<Rightarrow> choice \<Rightarrow> int \<Rightarrow> enq_pc \<Rightarrow> q_machine \<Rightarrow> ((enq_pc + bool) \<times> q_machine) outcome" where
  "queue_enqueue t c v EnqLoad m =
     obind (load_index t Head c m) (\<lambda>(head, m').
       let tail = 0 in Ok (if next_index head = tail then Inr False else Inl (EnqWrite head), m'))"
| "queue_enqueue t c v (EnqWrite head) m =
     (if unat head < QUEUE_SIZE then obind (na_store t (Slot (unat head)) v m) (\<lambda>m'. Ok (Inr True, m'))
      else UB OutOfBounds)"

text \<open>\<open>Inr None\<close> is \<open>false\<close>, \<open>Inr (Some v)\<close> is \<open>true\<close> with \<open>v\<close> stored through the pointer.\<close>

fun queue_dequeue :: "tid \<Rightarrow> choice \<Rightarrow> deq_pc \<Rightarrow> q_machine \<Rightarrow> ((deq_pc + int option) \<times> q_machine) outcome" where
  "queue_dequeue t c DeqLoad m =
     obind (load_index t Tail c m) (\<lambda>(tail, m').
       let head = 0 in Ok (if head = tail then Inr None else Inl (DeqRead tail), m'))"
| "queue_dequeue t c (DeqRead tail) m =
     (if unat tail < QUEUE_SIZE then obind (na_load t (Slot (unat tail)) m) (\<lambda>(v, m'). Ok (Inr (Some v), m'))
      else UB OutOfBounds)"

section \<open>The threads\<close>

fun producer :: "nat \<Rightarrow> tid \<Rightarrow> choice \<Rightarrow> q_pc \<Rightarrow> q_machine \<Rightarrow> (q_pc \<times> q_machine) outcome" where
  "producer n t c (ProdLoop i) m = Ok (if i < n then ProdEnq i EnqLoad else ProdRet, m)"
| "producer n t c (ProdEnq i e) m =
     obind (queue_enqueue t c (int i) e m) (\<lambda>(r, m').
       Ok (case r of Inl e' \<Rightarrow> ProdEnq i e' | Inr ok \<Rightarrow> if ok then ProdLoop (Suc i) else ProdEnq i EnqLoad, m'))"
| "producer n t c _ m = Blocked"

text \<open>\<open>ConsExit\<close>: the consumer has called \<open>exit(1)\<close>.\<close>

fun consumer :: "nat \<Rightarrow> tid \<Rightarrow> choice \<Rightarrow> q_pc \<Rightarrow> q_machine \<Rightarrow> (q_pc \<times> q_machine) outcome" where
  "consumer n t c (ConsLoop received) m =
     Ok (if received < n then ConsDeq received DeqLoad else ConsRet, m)"
| "consumer n t c (ConsDeq received d) m =
     obind (queue_dequeue t c d m) (\<lambda>(r, m').
       Ok (case r of Inl d' \<Rightarrow> ConsDeq received d'
             | Inr None \<Rightarrow> ConsLoop received
             | Inr (Some v) \<Rightarrow> if v \<noteq> int received then ConsExit else ConsLoop (Suc received), m'))"
| "consumer n t c _ m = Blocked"

text \<open>Main creates the consumer first, and joins the producer first. \<open>malloc\<close> leaves the members undetermined;
  whether its address has the alignment of \<open>spsc_queue_t\<close> is not part of the model.\<close>

definition queue_start :: "(q_obj \<Rightarrow> int) \<Rightarrow> q_machine" where
  "queue_start garbage = queue_init 0 (init_machine garbage)"

definition queue_main :: "nat \<Rightarrow> (q_pc, q_obj, int) thread_prog" where
  "queue_main n =
     \<lparr>nthreads = 2, jorder = [1, 0], entry = (\<lambda>i. if i = 0 then ConsLoop 0 else ProdLoop 0),
      tstep = (\<lambda>i. if i = 0 then consumer n (Suc i) else producer n (Suc i)),
      halted = (\<lambda>p. p = ProdRet \<or> p = ConsRet)\<rparr>"

section \<open>The invariant\<close>

text \<open>An index is written once, by \<open>queue_init\<close>, and whoever runs has seen that write.\<close>

definition index_zero :: "q_machine \<Rightarrow> q_obj \<Rightarrow> bool" where
  "index_zero m x \<longleftrightarrow> length (hist m x) = 2 \<and> mval (hist m x ! 1) = 0"

definition sees_init :: "q_machine \<Rightarrow> tid \<Rightarrow> bool" where
  "sees_init m t \<longleftrightarrow> 1 \<le> cur m t (W Head) \<and> 1 \<le> cur m t (W Tail)"

fun prod_ok :: "nat \<Rightarrow> q_pc \<Rightarrow> bool" where
  "prod_ok n (ProdLoop k) = (k \<le> n)"
| "prod_ok n (ProdEnq k EnqLoad) = (k < n)"
| "prod_ok n (ProdEnq k (EnqWrite h)) = (k < n \<and> h = 0)"
| "prod_ok n ProdRet = True"
| "prod_ok n _ = False"

fun sent :: "nat \<Rightarrow> q_pc \<Rightarrow> nat" where
  "sent n (ProdLoop k) = k"
| "sent n (ProdEnq k e) = k"
| "sent n _ = n"

fun cons_ok :: "q_pc \<Rightarrow> bool" where
  "cons_ok (ConsLoop r) = (r = 0)"
| "cons_ok (ConsDeq r d) = (r = 0 \<and> d = DeqLoad)"
| "cons_ok _ = False"

definition q_inv :: "nat \<Rightarrow> q_machine \<Rightarrow> (nat \<Rightarrow> q_pc option) \<Rightarrow> bool" where
  "q_inv n m L \<longleftrightarrow> 0 < n \<and> index_zero m Head \<and> index_zero m Tail \<and>
     sees_init m 0 \<and> (\<forall>i p. L i = Some p \<longrightarrow> sees_init m (Suc i)) \<and>
     (\<forall>k>0. length (hist m (Slot k)) = 1) \<and>
     (\<forall>p. L 0 = Some p \<longrightarrow> cons_ok p) \<and>
     (\<forall>p. L 1 = Some p \<longrightarrow> prod_ok n p \<and> knows (cur m 2) (Slot 0) m \<and>
        (0 < sent n p \<longrightarrow> value_of m (Slot 0) = int (sent n p - 1))) \<and>
     (L 1 = None \<longrightarrow> knows (cur m 0) (Slot 0) m)"

definition q_ready :: "nat \<Rightarrow> q_machine \<Rightarrow> bool" where
  "q_ready n m \<longleftrightarrow> 0 < n \<and> (\<exists>garbage. m = queue_start garbage)"

lemma next_index_zero [simp]: "next_index 0 = 1"
  by (simp add: next_index_def MASK_def)

lemma load_index_zero:
  assumes "index_zero m x" and "1 \<le> cur m t (W x)" and "load_index t x c m = Ok (w, m')"
  shows "w = 0" and "hist m' = hist m" and "rds m' = rds m" and "grows t m m'"
proof -
  obtain i v where i: "c = Pick i" "atomic_load Relaxed t x i m = Ok (v, m')" "w = word_of_int v"
    using assms(3) by (cases c) (auto simp: outcome_simps)
  note D = atomic_load_D [OF i(2)]
  have "i = 1" using D(2,3) assms(1,2) by (simp add: index_zero_def)
  then show "w = 0" using D(1) i(3) assms(1) by (simp add: index_zero_def)
  show "hist m' = hist m" and "rds m' = rds m" and "grows t m m'" using D(4,5,9) .
qed

lemma q_invD:
  assumes "q_inv n m L"
  shows "0 < n" and "index_zero m Head" and "index_zero m Tail" and "sees_init m 0"
    and "L i = Some p \<Longrightarrow> sees_init m (Suc i)" and "0 < k \<Longrightarrow> length (hist m (Slot k)) = 1"
    and "L 0 = Some p \<Longrightarrow> cons_ok p" and "L 1 = Some p \<Longrightarrow> prod_ok n p"
    and "L 1 = Some p \<Longrightarrow> knows (cur m 2) (Slot 0) m"
    and "L 1 = Some p \<Longrightarrow> 0 < sent n p \<Longrightarrow> value_of m (Slot 0) = int (sent n p - 1)"
    and "L 1 = None \<Longrightarrow> knows (cur m 0) (Slot 0) m"
  using assms unfolding q_inv_def by blast+

lemma sees_init_grows: "sees_init m u \<Longrightarrow> grows t m m' \<Longrightarrow> sees_init m' u"
  using grows_le [of t m m' u] by (auto simp: sees_init_def le_fun_def intro: order.trans)

text \<open>A step that writes nothing.\<close>

lemma q_inv_quiet:
  assumes inv: "q_inv n m L" and L: "L i = Some p" and m': "hist m' = hist m" "rds m' = rds m" "grows (Suc i) m m'"
    and "i = 0 \<Longrightarrow> cons_ok p'" and "i = 1 \<Longrightarrow> prod_ok n p' \<and> sent n p' = sent n p"
  shows "q_inv n m' (L(i \<mapsto> p'))"
proof -
  note D = q_invD [OF inv]
  have k: "knows (cur m' u) (Slot 0) m'" if "knows (cur m u) (Slot 0) m" for u
    by (rule knows_grows [OF that m'(3)]) (simp add: untouched_def m')
  have s: "sees_init m' u" if "sees_init m u" for u by (rule sees_init_grows [OF that m'(3)])
  have same: "index_zero m' x = index_zero m x" "value_of m' x = value_of m x" for x
    by (simp_all add: index_zero_def value_of_def m')
  have "sees_init m' (Suc j)" if "(L(i \<mapsto> p')) j = Some q" for j q
    using that D(5) [OF L] D(5) [of j q] s by (cases "j = i") auto
  moreover have "cons_ok q" if "(L(i \<mapsto> p')) 0 = Some q" for q
    using that assms(6) D(7) [of q] by (cases "i = 0") auto
  moreover have "prod_ok n q \<and> knows (cur m' 2) (Slot 0) m' \<and>
      (0 < sent n q \<longrightarrow> value_of m' (Slot 0) = int (sent n q - 1))" if q: "(L(i \<mapsto> p')) 1 = Some q" for q
  proof (cases "i = 1")
    case True
    then show ?thesis using q assms(7) L D(9,10) [of p] k by (auto simp: same)
  next
    case False
    then have "L 1 = Some q" using q by simp
    then show ?thesis using D(8,9,10) [of q] k by (auto simp: same)
  qed
  moreover have "knows (cur m' 0) (Slot 0) m'" if "(L(i \<mapsto> p')) 1 = None"
    using that D(11) k by (cases "i = 1") auto
  ultimately show ?thesis unfolding q_inv_def using D(1,2,3,4,6) s by (simp add: same m'(1))
qed

text \<open>The producer writes slot 0.\<close>

lemma q_inv_write:
  assumes inv: "q_inv n m L" and L: "L 1 = Some (ProdEnq k (EnqWrite 0))" and st: "na_store 2 (Slot 0) (int k) m = Ok m'"
  shows "q_inv n m' (L(1 \<mapsto> ProdLoop (Suc k)))"
proof -
  note D = q_invD [OF inv] and S = na_store_D [OF st]
  have s: "sees_init m' u" if "sees_init m u" for u by (rule sees_init_grows [OF that S(8)])
  have same: "hist m' x = hist m x" if "x \<noteq> Slot 0" for x using S(4) that by simp
  have "index_zero m' Head" "index_zero m' Tail" using D(2,3) by (simp_all add: index_zero_def same)
  moreover have "sees_init m' (Suc j)" if "(L(1 \<mapsto> ProdLoop (Suc k))) j = Some q" for j q
    using that D(5) [OF L] D(5) [of j q] s by (cases "j = 1") auto
  moreover have "length (hist m' (Slot j)) = 1" if "0 < j" for j using D(6) [OF that] same [of "Slot j"] that by simp
  ultimately show ?thesis
    unfolding q_inv_def using D(1,4) D(7) D(8) [OF L] s S(2,9) by simp
qed

lemma q_consumer_step:
  assumes inv: "q_inv n m L" and L: "L 0 = Some p" and st: "consumer n 1 c p m = Ok (p', m')"
  shows "q_inv n m' (L(0 \<mapsto> p'))" and "grows 1 m m'"
proof -
  note D = q_invD [OF inv]
  have "p = ConsLoop 0 \<and> p' = ConsDeq 0 DeqLoad \<and> m' = m \<or>
      p = ConsDeq 0 DeqLoad \<and> p' = ConsLoop 0 \<and> hist m' = hist m \<and> rds m' = rds m \<and> grows 1 m m'"
  proof (cases p)
    case (ConsDeq r d)
    then have "r = 0" "d = DeqLoad" using D(7) [OF L] by auto
    then obtain w where w: "load_index 1 Tail c m = Ok (w, m')"
      "p' = (if 0 = w then ConsLoop 0 else ConsDeq 0 (DeqRead w))"
      using st ConsDeq by (auto simp: outcome_simps Let_def split: if_splits)
    have "1 \<le> cur m 1 (W Tail)" using D(5) [OF L] by (simp add: sees_init_def)
    from load_index_zero [OF D(3) this w(1)] show ?thesis
      using w(2) \<open>r = 0\<close> \<open>d = DeqLoad\<close> ConsDeq by simp
  qed (use D(1) D(7) [OF L] st in auto)
  then show "q_inv n m' (L(0 \<mapsto> p'))" and "grows 1 m m'"
    using q_inv_quiet [where i = 0, OF inv L, of m' p'] by (auto simp: grows_def)
qed

lemma q_producer_step:
  assumes inv: "q_inv n m L" and L: "L 1 = Some p" and st: "producer n 2 c p m = Ok (p', m')"
  shows "q_inv n m' (L(1 \<mapsto> p'))" and "grows 2 m m'"
proof -
  note D = q_invD [OF inv]
  have quiet: "q_inv n m' (L(1 \<mapsto> p')) \<and> grows 2 m m'"
    if "hist m' = hist m" "rds m' = rds m" "grows 2 m m'" "prod_ok n p' \<and> sent n p' = sent n p"
    using q_inv_quiet [where i = 1, OF inv L that(1,2)] that by (simp add: numeral_2_eq_2)
  have "q_inv n m' (L(1 \<mapsto> p')) \<and> grows 2 m m'"
  proof (cases p)
    case (ProdLoop k)
    then show ?thesis using st D(8) [OF L] by (intro quiet) (auto simp: grows_def)
  next
    case (ProdEnq k e)
    show ?thesis
    proof (cases e)
      case EnqLoad
      then obtain w where w: "load_index 2 Head c m = Ok (w, m')"
        "p' = ProdEnq k (if next_index w = 0 then EnqLoad else EnqWrite w)"
        using st ProdEnq by (auto simp: outcome_simps Let_def split: if_splits)
      have "1 \<le> cur m 2 (W Head)" using D(5) [OF L] by (simp add: sees_init_def numeral_2_eq_2)
      from load_index_zero [OF D(2) this w(1)] show ?thesis
        using w(2) D(8) [OF L] ProdEnq EnqLoad by (intro quiet) simp_all
    next
      case (EnqWrite h)
      then have h: "h = 0" using D(8) [OF L] ProdEnq by simp
      then have "na_store 2 (Slot 0) (int k) m = Ok m'" "p' = ProdLoop (Suc k)"
        using st ProdEnq EnqWrite by (auto simp: outcome_simps split: if_splits)
      then show ?thesis using q_inv_write [OF inv] L na_store_D(8) ProdEnq EnqWrite h by auto
    qed
  qed (use st in simp_all)
  then show "q_inv n m' (L(1 \<mapsto> p'))" and "grows 2 m m'" by simp_all
qed

text \<open>No step is undefined: the consumer never reads the buffer, the producer alone writes it.\<close>

lemma load_index_no_ub: "load_index t x c m \<noteq> UB u"
  by (cases c) (auto simp: outcome_simps atomic_load_no_ub)

lemma q_no_ub:
  assumes inv: "q_inv n m L"
  shows "L 0 = Some p \<Longrightarrow> consumer n 1 c p m \<noteq> UB u" and "L 1 = Some p \<Longrightarrow> producer n 2 c p m \<noteq> UB u"
proof -
  note D = q_invD [OF inv]
  assume "L 0 = Some p"
  from D(7) [OF this] show "consumer n 1 c p m \<noteq> UB u"
    by (cases p) (auto simp: outcome_simps load_index_no_ub Let_def)
next
  note D = q_invD [OF inv]
  assume L: "L 1 = Some p"
  show "producer n 2 c p m \<noteq> UB u"
  proof (cases p)
    case (ProdEnq k e)
    then show ?thesis using D(8,9) [OF L]
      by (cases e) (auto simp: outcome_simps load_index_no_ub Let_def na_store_UB_iff QUEUE_SIZE_def)
  qed simp_all
qed

section \<open>The program\<close>

lemma q_ready_inv:
  assumes "q_ready n m"
  shows "q_inv n m (\<lambda>_. None)" and "mwf m"
proof -
  obtain g where m: "m = queue_start g" and n: "0 < n" using assms by (auto simp: q_ready_def)
  have "knows (cur m 0) (Slot 0) m"
    by (simp add: m queue_start_def queue_init_def knows_def knows_writes_def frame_simps)
  then show "q_inv n m (\<lambda>_. None)"
    using n by (simp add: q_inv_def m queue_start_def queue_init_def index_zero_def sees_init_def atomic_store_def
        Let_def frame_simps view_simps nth_append)
  show "mwf m" unfolding m queue_start_def queue_init_def by (intro atomic_store_mwf mwf_init)
qed

lemma q_mwf:
  assumes "mwf m"
  shows "consumer n t c p m = Ok (p', m') \<Longrightarrow> mwf m'" and "producer n t c p m = Ok (p', m') \<Longrightarrow> mwf m'"
proof -
  have li: "mwf m'" if "load_index t x c m = Ok (w, m')" for x w m'
    using that assms by (cases c) (auto simp: outcome_simps intro: atomic_load_mwf)
  have deq: "mwf m'" if "queue_dequeue t c d m = Ok (r, m')" for d r m'
    using that assms li by (cases d) (auto simp: outcome_simps Let_def intro: na_load_mwf split: if_splits)
  have enq: "mwf m'" if "queue_enqueue t c v e m = Ok (r, m')" for v e r m'
    using that assms li by (cases e) (auto simp: outcome_simps Let_def intro: na_store_mwf split: if_splits)
  show "consumer n t c p m = Ok (p', m') \<Longrightarrow> mwf m'" using assms deq by (cases p) (auto simp: outcome_simps)
  show "producer n t c p m = Ok (p', m') \<Longrightarrow> mwf m'" using assms enq by (cases p) (auto simp: outcome_simps)
qed

lemma two_workers: "i < nthreads (queue_main n) \<Longrightarrow> i = 0 \<or> i = 1"
  by (auto simp: queue_main_def)

lemma queue_tstep:
  "tstep (queue_main n) 0 = consumer n 1" "tstep (queue_main n) 1 = producer n 2"
  "tstep (queue_main n) (Suc 0) = producer n 2"
  by (simp_all add: queue_main_def numeral_2_eq_2)

interpretation spsc: fork_join "queue_main n" "{}" "q_ready n" "q_inv n" for n
proof (unfold_locales, goal_cases)
  case 1
  then show ?case by (auto simp: queue_main_def)
next
  case (2 m)
  then show ?case by (rule q_ready_inv(1))
next
  case (3 m)
  then show ?case by (rule q_ready_inv(2))
next
  case (5 m L i)
  let ?m = "pthread_create 0 (Suc i) m" and ?p = "entry (queue_main n) i"
  note D = q_invD [OF 5(1)]
  have k: "knows v x ?m = knows v x m" for v x by (simp add: knows_def knows_writes_def frame_simps)
  have same: "index_zero ?m x = index_zero m x" "value_of ?m x = value_of m x" for x
    by (simp_all add: index_zero_def value_of_def frame_simps)
  have s: "sees_init ?m u" if "u = Suc i \<or> sees_init m u" for u
    using that D(4) by (cases "u = Suc i") (auto simp: sees_init_def frame_simps)
  have L1: "L 1 = None" using 5(2,4) two_workers [OF 5(3)] by (auto simp: domIff)
  then have "knows (cur m 0) (Slot 0) m" using D(11) by blast
  then show ?case
    using D(1-7) L1 two_workers [OF 5(3)] s unfolding q_inv_def k same
    by (auto simp: queue_main_def frame_simps numeral_2_eq_2 split: if_splits)
next
  case (6 m L i p)
  let ?m = "pthread_join 0 (Suc i) m"
  have g: "grows 0 m ?m" by (rule pthread_join_grows)
  have same: "index_zero ?m x = index_zero m x" "value_of ?m x = value_of m x" for x
    by (simp_all add: index_zero_def value_of_def frame_simps)
  have k: "knows (cur ?m u) x ?m" if "knows (cur m u) x m" for u x
    by (rule knows_grows [OF that g]) simp
  have s: "sees_init ?m u" if "sees_init m u" for u by (rule sees_init_grows [OF that g])
  show ?case using 6(1) k s unfolding q_inv_def same pthread_join_frame(1) by simp
next
  case (7 m L i p c p' m')
  then show ?case
    using two_workers [OF 7(3)] q_consumer_step(1) [OF 7(1), of p c p' m'] q_producer_step(1) [OF 7(1), of p c p' m']
    by (auto simp: queue_tstep)
next
  case (8 m L i p c p' m')
  then show ?case
    using two_workers [OF 8(3)] q_consumer_step(2) [OF 8(1), of p c p' m'] q_producer_step(2) [OF 8(1), of p c p' m']
    by (auto simp: queue_tstep numeral_2_eq_2)
next
  case (10 m L i p c u)
  then show ?case
    using two_workers [OF 10(3)] q_no_ub [OF 10(1), of p c u] by (auto simp: queue_tstep)
next
  case (11 m i c p p' m')
  then show ?case using q_mwf [OF 11(1)] by (auto simp: queue_main_def split: if_splits)
qed simp_all

section \<open>The producer runs to its end\<close>

fun prod_left :: "nat \<Rightarrow> q_pc \<Rightarrow> nat" where
  "prod_left n (ProdLoop k) = 3 * (n - k) + 1"
| "prod_left n (ProdEnq k EnqLoad) = 3 * (n - k)"
| "prod_left n (ProdEnq k (EnqWrite h)) = 3 * (n - k) - 1"
| "prod_left n _ = 0"

lemma producer_moves:
  assumes inv: "q_inv n m L" and "mwf m" and L: "L 1 = Some p" and "p \<noteq> ProdRet"
  shows "\<exists>p' m'. producer n 2 (Pick 1) p m = Ok (p', m') \<and> prod_left n p' < prod_left n p"
proof (cases p)
  case (ProdEnq k e)
  note D = q_invD [OF inv]
  show ?thesis
  proof (cases e)
    case EnqLoad
    have "cur m 2 (W Head) < length (hist m Head)" using mwfD(1) [OF assms(2)] by (simp add: view_ok_def)
    then show ?thesis using D(2) D(8) [OF L] ProdEnq EnqLoad
      by (simp add: atomic_load_def index_zero_def)
  next
    case (EnqWrite h)
    obtain m' where "na_store 2 (Slot 0) (int k) m = Ok m'" using na_store_ok [OF D(9) [OF L]] by blast
    moreover have "n - k = Suc (n - Suc k)" using D(8) [OF L] ProdEnq EnqWrite by (simp add: Suc_diff_Suc)
    ultimately show ?thesis using D(8) [OF L] ProdEnq EnqWrite by (simp add: QUEUE_SIZE_def)
  qed
qed (use q_invD(8) [OF inv L] assms(4) in auto)

lemma producer_solo:
  assumes "q_inv n m L" and "mwf m" and "L 1 = Some p"
  shows "\<exists>m'. solo (queue_main n) 1 p m ProdRet m'"
  using assms
proof (induction "prod_left n p" arbitrary: p m L rule: less_induct)
  case less
  show ?case
  proof (cases "p = ProdRet")
    case True
    then show ?thesis using solo_refl [of "queue_main n" 1 p m] by auto
  next
    case False
    obtain p' m' where st: "producer n 2 (Pick 1) p m = Ok (p', m')" "prod_left n p' < prod_left n p"
      using producer_moves [OF less.prems False] by blast
    have "\<not> halted (queue_main n) p"
      using False q_invD(8) [OF less.prems(1,3)] by (cases p) (auto simp: queue_main_def)
    then have 1: "solo (queue_main n) 1 p m p' m'"
      by (rule solo_one [where c = "Pick 1"]) (simp_all add: queue_tstep st(1) del: One_nat_def)
    obtain m2 where "solo (queue_main n) 1 p' m' ProdRet m2"
      using less.hyps [OF st(2) q_producer_step(1) [OF less.prems(1,3) st(1)] q_mwf(2) [OF less.prems(2) st(1)]] by auto
    from solo_trans [OF 1 this] show ?thesis ..
  qed
qed

section \<open>What the program does\<close>

definition queue_state :: "nat \<Rightarrow> (q_pc, q_obj, int) fj_state \<Rightarrow> bool" where
  "queue_state n s \<longleftrightarrow> (\<exists>garbage. reach (fj_step (queue_main n)) (fj_init (queue_start garbage)) s)"

lemma queue_stateE:
  assumes "queue_state n s" and "0 < n"
  obtains m where "q_ready n m" and "reach (fj_step (queue_main n)) (fj_init m) s"
    and "q_inv n (shared s) (locals s)" and "mwf (shared s)"
proof -
  obtain g where r: "reach (fj_step (queue_main n)) (fj_init (queue_start g)) s"
    using assms(1) by (auto simp: queue_state_def)
  moreover have rd: "q_ready n (queue_start g)" using assms(2) by (auto simp: q_ready_def)
  ultimately show thesis using that spsc.reach_linv [OF r rd] spsc.reach_mwf [OF r rd] by blast
qed

lemma queue_state_run:
  "run (fj_step (queue_main n)) es (fj_init (queue_start g)) = Ok s \<Longrightarrow> queue_state n s"
  unfolding queue_state_def by (blast dest: run_reach)

text \<open>
  C20. The queue delivers nothing: for any positive number of messages and any schedule, no step is
  undefined, but the consumer has received no message in any reachable state and never stops
  spinning on the empty queue; so main never gets past its joins, and the exercise never prints its
  result.
\<close>

theorem queue_never_delivers:
  assumes "queue_state n s" and "0 < n"
  shows "fj_step (queue_main n) e s \<noteq> UB u \<and> mainpc s \<noteq> Joined \<and>
    locals s 0 \<in> {None, Some (ConsLoop 0), Some (ConsDeq 0 DeqLoad)}"
proof -
  obtain m where r: "q_ready n m" "reach (fj_step (queue_main n)) (fj_init m) s"
    and inv: "q_inv n (shared s) (locals s)" using assms by (rule queue_stateE)
  have c: "locals s 0 \<in> {None, Some (ConsLoop 0), Some (ConsDeq 0 DeqLoad)}"
  proof (cases "locals s 0")
    case (Some p)
    then show ?thesis using q_invD(7) [OF inv Some] by (cases p) auto
  qed simp
  moreover have "mainpc s \<noteq> Joined"
  proof
    assume "mainpc s = Joined"
    from spsc.finished(3) [OF r(2,1) this, of 0] show False using c by (auto simp: queue_main_def)
  qed
  ultimately show ?thesis using spsc.thread_safe [OF r(2,1)] by blast
qed

lemma queue_never_delivers_witness:
  "\<exists>s. queue_state NUM_MESSAGES s \<and> mainpc s \<noteq> Joined \<and> locals s 0 = Some (ConsLoop 0)"
proof -
  obtain s where s: "run (fj_step (queue_main NUM_MESSAGES)) [MainStep] (fj_init (queue_start (\<lambda>_. 7))) = Ok s"
    "locals s 0 = Some (ConsLoop 0)"
    by (simp add: main_step_def fj_init_def queue_main_def)
  then show ?thesis
    using queue_never_delivers [OF queue_state_run [OF s(1)]] queue_state_run [OF s(1)] by (auto simp: NUM_MESSAGES_def)
qed

text \<open>
  C21. The producer, which never waits: from every reachable state in which it has been created it can
  run to its end, and when it has returned the buffer holds the last message in element 0 and no
  other element has ever been written.
\<close>

theorem queue_producer_ends:
  assumes "queue_state n s" and "0 < n" and "locals s 1 \<noteq> None"
  shows "\<exists>s'. reach (fj_step (queue_main n)) s s' \<and> locals s' 1 = Some ProdRet \<and>
    value_of (shared s') (Slot 0) = int (n - 1) \<and> (\<forall>k>0. length (hist (shared s') (Slot k)) = 1)"
proof -
  obtain m where r: "q_ready n m" "reach (fj_step (queue_main n)) (fj_init m) s"
    and inv: "q_inv n (shared s) (locals s)" "mwf (shared s)" using assms(1,2) by (rule queue_stateE)
  obtain p where p: "locals s 1 = Some p" using assms(3) by blast
  obtain m' where m': "solo (queue_main n) 1 p (shared s) ProdRet m'" using producer_solo [OF inv p] by blast
  let ?s = "s\<lparr>shared := m', locals := (locals s)(1 \<mapsto> ProdRet)\<rparr>"
  have "reach (fj_step (queue_main n)) s ?s" by (rule calm_reach [OF solo_reach [OF m' p refl]])
  moreover from spsc.solo_keeps [OF m' inv(2,1) p] have "q_inv n m' ((locals s)(1 \<mapsto> ProdRet))"
    by (simp add: queue_main_def)
  ultimately show ?thesis
    using q_invD(6,10) [of n m' "(locals s)(1 \<mapsto> ProdRet)"] assms(2) by (intro exI [of _ ?s]) auto
qed

lemma queue_producer_ends_witness:
  "\<exists>s'. queue_state NUM_MESSAGES s' \<and> locals s' 1 = Some ProdRet \<and> value_of (shared s') (Slot 0) = 9999999"
proof -
  let ?P = "fj_step (queue_main NUM_MESSAGES)" and ?s0 = "fj_init (queue_start (\<lambda>_. 7))"
  obtain s where s: "run ?P [MainStep, MainStep] ?s0 = Ok s" "locals s 1 \<noteq> None"
    by (simp add: main_step_def fj_init_def queue_main_def)
  have "0 < NUM_MESSAGES" by (simp add: NUM_MESSAGES_def)
  then obtain s' where s': "reach ?P s s'" "locals s' 1 = Some ProdRet" "value_of (shared s') (Slot 0) = int (NUM_MESSAGES - 1)"
    using queue_producer_ends [OF queue_state_run [OF s(1)] _ s(2)] by blast
  moreover have "queue_state NUM_MESSAGES s'"
    unfolding queue_state_def using reach_trans [OF s'(1) run_reach [OF s(1)]] by blast
  ultimately show ?thesis by (auto simp: NUM_MESSAGES_def)
qed

text \<open>
  C37. The mask is the remainder: for every index, also the largest \<open>size_t\<close>, the index after it is its
  successor modulo the size of the queue, and it is in the bounds of the buffer.
\<close>

theorem next_index_mod:
  "unat (next_index head) = (unat head + 1) mod QUEUE_SIZE \<and> unat (next_index head) < QUEUE_SIZE"
proof -
  have "next_index head = take_bit 10 (head + 1)"
    by (simp add: next_index_def MASK_def take_bit_eq_mask mask_eq_exp_minus_1)
  then have "unat (next_index head) = take_bit 10 (unat (head + 1))" by (simp only: unsigned_take_bit_eq)
  also have "\<dots> = unat (head + 1) mod 1024" by (simp add: take_bit_eq_mod)
  also have "unat (head + 1) = (unat head + 1) mod 2 ^ 64"
    by (simp add: unat_word_ariths)
  finally show ?thesis by (simp add: QUEUE_SIZE_def mod_mod_cancel)
qed

end
