(* ===== verification/Summary.thy ===== *)
theory Summary
  imports C11_Machine "HOL-Library.Signed_Division"
begin

text \<open>
  Exercise 08, the capstone, as the file has it: the workers of the three variants return at once, no
  thread is created, and each variant prints the total it has with the total it expects. Modelled are
  the reset of the counter and the flag, the expected totals in \<open>long\<close> arithmetic, and the lines printed.
\<close>

section \<open>Objects and constants\<close>

datatype sum_obj = SharedCounter | StartFlag

type_synonym sum_machine = "(sum_obj, int) machine"

definition NUM_THREADS :: int where "NUM_THREADS = 8"

definition INCREMENTS :: int where "INCREMENTS = 2000000"

definition NUM_MESSAGES :: int where "NUM_MESSAGES = 1000000"

text \<open>One line of results: the label, the total printed, the expected total, and whether the tick is printed.\<close>

datatype label = ResultA | PackedTotal | PaddedTotal | SumC

record report =
  r_label :: label
  r_total :: int
  r_expected :: int
  r_tick :: bool

definition report_line :: "label \<Rightarrow> int \<Rightarrow> int \<Rightarrow> report" where
  "report_line l tot expected = \<lparr>r_label = l, r_total = tot, r_expected = expected, r_tick = (tot = expected)\<rparr>"

section \<open>Arithmetic on \<open>long\<close>\<close>

definition signed_mul :: "nat \<Rightarrow> int \<Rightarrow> int \<Rightarrow> int outcome" where
  "signed_mul w a b = (if signed_range w (a * b) then Ok (a * b) else UB SignedOverflow)"

text \<open>\<open>(long)NUM_THREADS * INCREMENTS\<close>\<close>

definition expected_total :: "int \<Rightarrow> int \<Rightarrow> int outcome" where
  "expected_total threads increments = signed_mul 64 threads increments"

text \<open>\<open>((long)NUM_MESSAGES * (NUM_MESSAGES + 1)) / 2\<close>; the sum in the parentheses is an \<open>int\<close>.\<close>

definition expected_sum :: "int \<Rightarrow> int outcome" where
  "expected_sum n = obind (signed_add 32 n 1) (\<lambda>n'. obind (signed_mul 64 n n') (\<lambda>p. Ok (p sdiv 2)))"

section \<open>Workers\<close>

text \<open>Every worker returns \<open>NULL\<close>, and touches nothing.\<close>

definition variant_a_worker :: "tid \<Rightarrow> sum_machine \<Rightarrow> int \<times> sum_machine" where
  "variant_a_worker arg m = (0, m)"

definition variant_b_worker_packed :: "tid \<Rightarrow> sum_machine \<Rightarrow> int \<times> sum_machine" where
  "variant_b_worker_packed arg m = (0, m)"

definition variant_b_worker_padded :: "tid \<Rightarrow> sum_machine \<Rightarrow> int \<times> sum_machine" where
  "variant_b_worker_padded arg m = (0, m)"

definition producer :: "tid \<Rightarrow> sum_machine \<Rightarrow> int \<times> sum_machine" where
  "producer arg m = (0, m)"

definition consumer :: "tid \<Rightarrow> sum_machine \<Rightarrow> int \<times> sum_machine" where
  "consumer arg m = (let received = (0 :: int); sum = (0 :: int) in (0, m))"

section \<open>The variants\<close>

definition run_variant_a :: "tid \<Rightarrow> sum_machine \<Rightarrow> (report list \<times> sum_machine) outcome" where
  "run_variant_a t m =
     obind (na_store t SharedCounter 0 m) (\<lambda>m1.
     let m2 = atomic_store Relaxed t StartFlag 0 m1 in
     obind (expected_total NUM_THREADS INCREMENTS) (\<lambda>expected.
     obind (na_load t SharedCounter m2) (\<lambda>(tot, m3).
     obind (na_load t SharedCounter m3) (\<lambda>(tot', m4).
     Ok ([\<lparr>r_label = ResultA, r_total = tot, r_expected = expected, r_tick = (tot' = expected)\<rparr>], m4)))))"

definition run_variant_b :: "tid \<Rightarrow> sum_machine \<Rightarrow> (report list \<times> sum_machine) outcome" where
  "run_variant_b t m =
     (let m1 = atomic_store SeqCst t StartFlag 0 m; packed_total = 0 in
      obind (expected_total NUM_THREADS INCREMENTS) (\<lambda>expected.
      let m2 = atomic_store SeqCst t StartFlag 0 m1; padded_total = 0 in
      obind (expected_total NUM_THREADS INCREMENTS) (\<lambda>expected'.
      Ok ([report_line PackedTotal packed_total expected, report_line PaddedTotal padded_total expected'], m2))))"

definition run_variant_c :: "tid \<Rightarrow> sum_machine \<Rightarrow> (report list \<times> sum_machine) outcome" where
  "run_variant_c t m =
     (let m1 = atomic_store SeqCst t StartFlag 0 m in
      obind (expected_sum NUM_MESSAGES) (\<lambda>expected.
      let observed = 0 in Ok ([report_line SumC observed expected], m1)))"

definition summary_main :: "tid \<Rightarrow> sum_machine \<Rightarrow> (report list \<times> sum_machine) outcome" where
  "summary_main t m =
     obind (run_variant_a t m) (\<lambda>(ra, m1).
     obind (run_variant_b t m1) (\<lambda>(rb, m2).
     obind (run_variant_c t m2) (\<lambda>(rc, m3). Ok (ra @ rb @ rc, m3))))"

section \<open>What it prints\<close>

lemma expected_totals:
  "expected_total NUM_THREADS INCREMENTS = Ok 16000000" "expected_sum NUM_MESSAGES = Ok 500000500000"
  by (simp_all add: expected_total_def expected_sum_def signed_mul_def signed_add_def signed_range_def NUM_THREADS_def
      INCREMENTS_def NUM_MESSAGES_def signed_divide_int_def)

lemma run_variant_a_prints:
  assumes "knows (cur m t) SharedCounter m"
  shows "\<exists>m'. run_variant_a t m =
    Ok ([\<lparr>r_label = ResultA, r_total = 0, r_expected = 16000000, r_tick = False\<rparr>], m')"
proof -
  obtain m1 where m1: "na_store t SharedCounter 0 m = Ok m1" using na_store_ok [OF assms] by blast
  note S = na_store_D [OF m1]
  let ?m2 = "atomic_store Relaxed t StartFlag 0 m1"
  have u: "untouched SharedCounter m1 ?m2" by (simp add: untouched_def frame_simps)
  have k2: "knows (cur ?m2 t) SharedCounter ?m2" by (rule knows_grows [OF S(9) atomic_store_grows u])
  have v2: "value_of ?m2 SharedCounter = 0" using S(2) u by (simp add: value_of_def untouched_def)
  obtain m3 where m3: "na_load t SharedCounter ?m2 = Ok (0, m3)"
    using knows_imp_writes [OF k2] v2 by (simp add: na_load_def)
  note L = na_load_D [OF m3]
  have v3: "value_of m3 SharedCounter = 0" using v2 L(3) by (simp add: value_of_def)
  obtain m4 where "na_load t SharedCounter m3 = Ok (0, m4)"
    using knows_imp_writes [OF L(9) [OF k2]] v3 by (simp add: na_load_def)
  then show ?thesis using m1 m3 by (simp add: run_variant_a_def expected_totals Let_def)
qed

text \<open>
  What the capstone prints as it stands, whatever main has done before with the counter: four lines,
  each with the total 0, the correct expected total of 16000000 or 500000500000, and the mark of a wrong result.
\<close>

lemma summary_prints_zero:
  assumes "knows (cur m t) SharedCounter m"
  shows "\<exists>m'. summary_main t m =
    Ok ([\<lparr>r_label = ResultA, r_total = 0, r_expected = 16000000, r_tick = False\<rparr>,
         \<lparr>r_label = PackedTotal, r_total = 0, r_expected = 16000000, r_tick = False\<rparr>,
         \<lparr>r_label = PaddedTotal, r_total = 0, r_expected = 16000000, r_tick = False\<rparr>,
         \<lparr>r_label = SumC, r_total = 0, r_expected = 500000500000, r_tick = False\<rparr>], m')"
proof -
  obtain m1 where "run_variant_a t m = Ok ([\<lparr>r_label = ResultA, r_total = 0, r_expected = 16000000, r_tick = False\<rparr>], m1)"
    using run_variant_a_prints [OF assms] by blast
  then show ?thesis
    by (simp add: summary_main_def run_variant_b_def run_variant_c_def expected_totals report_line_def Let_def)
qed

text \<open>
  C39. The expected sum of variant C is the sum of the messages \<open>1\<close> to \<open>n\<close>, with no overflow in the
  \<open>int\<close> addition or the \<open>long\<close> multiplication, for every number of messages below \<open>INT_MAX\<close>.
\<close>

theorem expected_sum_correct:
  assumes "n < 2 ^ 31 - 1"
  shows "expected_sum (int n) = Ok (\<Sum>i=1..n. int i)"
proof -
  have "2 * (\<Sum>i=1..n. int i) = int n * (int n + 1)"
    by (induction n) (simp_all add: algebra_simps)
  then have s: "(int n * (int n + 1)) div 2 = (\<Sum>i=1..n. int i)" by simp
  have n: "int n + 1 < 2 ^ 31" using assms by simp
  have "int n * (int n + 1) \<le> 2 ^ 31 * 2 ^ 31" using n by (intro mult_mono) auto
  then have "int n * (int n + 1) < 2 ^ 63" by simp
  moreover have "- (2 ^ 63) \<le> int n * (int n + 1)" by (rule order.trans [of _ 0]) simp_all
  ultimately have "signed_mul 64 (int n) (int n + 1) = Ok (int n * (int n + 1))"
    by (simp add: signed_mul_def signed_range_def)
  moreover have "(int n * (int n + 1)) sdiv 2 = (int n * (int n + 1)) div 2"
    by (simp add: signed_divide_int_def sgn_if)
  ultimately show ?thesis using n s by (simp add: expected_sum_def signed_add_def signed_range_def)
qed

theorem expected_sum_correct_witness:
  "expected_sum NUM_MESSAGES = Ok (\<Sum>i=1..1000000. int i) \<and> (\<Sum>i=1..1000000. int i) = 500000500000"
proof -
  have "expected_sum NUM_MESSAGES = Ok (\<Sum>i=1..1000000. int i)"
    using expected_sum_correct [of 1000000] by (simp add: NUM_MESSAGES_def)
  then show ?thesis using expected_totals(2) by simp
qed

end
