(* ===== verification/Solutions.thy ===== *)
theory Solutions
  imports Atomics Message_Passing RW_Lock
begin

text \<open>
  The reference solutions of exercises 01 and 02 that are programs of their own (the other
  \<open>solution.c\<close> files include the exercise). Each function is translated from the solution file, over
  the program points of the exercise; the lemmas say that the programs are those of the exercises, and
  the theorem what they therefore do. The solution of exercise 02
  sleeps with \<open>usleep\<close>, which is as invisible as \<open>sleep_for_us\<close>.
\<close>

section \<open>Exercise 01\<close>




















section \<open>Exercise 02\<close>






section \<open>The solutions are the exercises\<close>







section \<open>Properties\<close>



end
