(* ===== verification/Spec2Isabelle.thy ===== *)
theory Spec2Isabelle
  imports Spinlocks Message_Passing Quick_Review Atomics Cache_Effects Benchmark RW_Lock Barrier_Program SPSC_Queue Summary Solutions
begin

text \<open>
  Verification of the multithreading workshop: nine C programs under \<^verbatim>\<open>src/exercises/\<close>, their
  reference solutions, and the header \<^verbatim>\<open>src/include/benchmark.h\<close> they measure time with.

  \<^bold>\<open>The programs.\<close> Each exercise is a program of its own. Its \<open>main\<close> resets some shared objects,
  creates threads in a loop, joins them in a loop and reads the result; the threads communicate
  through C11 atomics, plain variables and POSIX locks. Several exercises contain versions that are
  broken on purpose, and exercises 07 and 08 are starters with stubs; they are modelled as the files
  have them.

  \<^bold>\<open>The machine\<close> (\<open>Workshop_Prelude\<close>, \<open>C11_Machine\<close>). A step of a C program ends with a result, is not
  enabled (a lock that is taken), or is undefined: a data race, signed overflow of a plain \<open>++\<close>, a
  lock released by a thread that does not hold it or destroyed while in use, an access out of bounds,
  a failing assertion. The machine has,
  for each object, the history of its writes, for each thread a view of the accesses that happen
  before its next step, and the states of mutexes, condition variables and reader-writer locks. A
  relaxed load may return any value the thread's view does not rule out; a weak compare-exchange may
  fail spuriously; a condition variable may wake a thread spuriously. These choices are arguments
  of the step functions, so that every step computes. Sequentially consistent operations are taken as
  acquire-release operations, which allows more executions than C11 does, and what is proved of all
  executions holds of C11's; the converse, that a program does race, is shown only for the plain and
  relaxed versions, whose resets by main before the threads start are the only such operations.

  \<^bold>\<open>The shape of the programs\<close> (\<open>Fork_Join\<close>). A program is a record \<open>thread_prog\<close>: the number of
  threads, the order of the joins, and the entry point, step function and final points of each
  thread; \<open>main_step\<close> creates and joins. The interface \<open>fork_join\<close> asks for an invariant of the
  machine and the threads' local states; it gives that no reachable step is undefined and that after
  the last join main has seen every access. \<open>fork_join_progress\<close> adds a measure that some thread can
  always lower, and gives that every reachable state can be continued to the end of main without a
  spurious wakeup, so that there is no deadlock and no completion that rests on luck;
  \<open>fork_join_live\<close> is the case in which some thread can run to its end alone. A main that runs
  several tests one after the other is \<open>in_turn\<close> of relations between machines (\<open>test_ends\<close>): each test
  starts from whatever machine the previous one left behind.

  \<^bold>\<open>Schedules that end\<close> (\<open>Bounded_Runs\<close>). Programs that block instead of polling satisfy more: the
  interface \<open>fork_join_bounded\<close> asks for a number of remaining steps that every step of every thread
  lowers, and gives \<open>ends_within\<close>: from every reachable state the number of steps is bounded whatever
  the scheduler does, and an execution that cannot go on has finished main. The mutex demo, the
  atomic counters, the reader-writer lock and the barrier are instances.

  \<^bold>\<open>The components.\<close>

  \<^item> \<open>Locked_Counter\<close>: the loop that increments a plain counter under a lock (exercises 00, 05). The
    interface \<open>counter_lock\<close> says what a lock promises; \<open>counter_threads\<close> gives, for any number of
    threads and iterations whose product fits the counter, mutual exclusion, no race, no overflow,
    no deadlock and the exact total; \<open>blocking_counter\<close> adds, for a lock that blocks, that every
    schedule ends.
  \<^item> \<open>Spinlocks\<close>: \<^verbatim>\<open>05_spinlock_internals.c\<close>. \<open>tas_lock\<close>, \<open>ttas_lock\<close>, \<open>ttas_pause_lock\<close>,
    \<open>backoff_lock\<close>, their unlocks and workers, and \<open>pthread_spinlock_t\<close>; every one keeps the contract
    \<open>counter_lock\<close>. Also: the lock word is 1 exactly when a thread is in its critical section, the
    backoff stays in its range.
  \<^item> \<open>Quick_Review\<close>: \<^verbatim>\<open>00_quick_review.c\<close>, parts 1 to 4: the results of joined threads, the racy
    counter, the counter under a mutex, the atomic counter, and main, which is undefined because of
    the racy counter.
  \<^item> \<open>Atomic_Counters\<close>, \<open>Atomics\<close>: the counters of \<^verbatim>\<open>01_atomics.c\<close>, with the exact total of the atomic
    ones, that every complete execution of the plain one has a race, and what follows for the three
    tests that main runs in turn.
  \<^item> \<open>Message_Passing\<close>: the message of exercises 00 (part 5), 01 (part 4) and 04
    (\<^verbatim>\<open>04_memory_ordering.c\<close>). The interface \<open>mp_channel\<close> is what the correct versions share; in
    them, in every round, the consumer reads 42. The plain and the relaxed version race in every
    complete execution, and so do the mains that run them first; without them the remaining tests
    run in turn to the end.
  \<^item> \<open>RW_Lock\<close>: \<^verbatim>\<open>02_rwlock.c\<close>: readers and writers; writers exclude every other thread, what a
    thread has read under the lock stays true, every schedule ends, the final value is the number of
    writes, and the lock is destroyed when no thread uses it.
  \<^item> \<open>Cache_Effects\<close>: \<^verbatim>\<open>03_cache_effects.c\<close>: the totals of both layouts, tested one after the other on one
    machine; from the layout of the structs, that no two threads of the aligned test write to the same
    cache line and that neighbouring threads of the packed test do.
  \<^item> \<open>Barrier\<close>, \<open>Barrier_Program\<close>: \<^verbatim>\<open>06_barriers.c\<close>. The barrier on the machine refines an abstract
    barrier with integer fields; the invariant of the algorithm is stated on the latter. The barrier
    separates the phases, loses no wakeup, counts the threads of the current phase; every
    schedule without spurious wakeups ends, and main destroys the barrier when no thread uses it.
  \<^item> \<open>SPSC_Queue\<close>: \<^verbatim>\<open>07_lockfree_queue.c\<close> with its stubs: nothing is undefined, the producer can
    always run to its end, the consumer receives nothing and main never passes its joins.
  \<^item> \<open>Summary\<close>: \<^verbatim>\<open>08_summary.c\<close> with its stubs: what it prints, and the totals it expects.
  \<^item> \<open>Solutions\<close>: \<^verbatim>\<open>01_atomics/solution.c\<close> and \<^verbatim>\<open>02_rwlock/solution.c\<close>, translated
    anew and shown to be the programs of the exercises, with what follows for their behaviour.
  \<^item> \<open>Benchmark\<close>: \<^verbatim>\<open>benchmark.h\<close>: time stamps, \<open>TIME_BLOCK\<close> (runs its block once, and how far
    the milliseconds it prints can be off), \<open>TIME_IT\<close> and \<open>MEASURE_CACHE_MISSES\<close> (never return; what each
    round of the latter measures), performance counters, aligned allocation, statistics.

  \<^bold>\<open>State and operations.\<close> A global variable or a member of a struct is a constructor of the object
  type of its component (\<open>sl_obj\<close>, \<open>bar_obj\<close>, ...). A C function run by a thread is a step function on
  its program points, a \<open>datatype\<close> whose constructors carry the local variables; one access to a
  shared object is one step, so that \<open>x++\<close> on a plain object is a load and a store. Main is thread 0
  and worker \<open>i\<close> is thread \<open>Suc i\<close> of the machine. Functions keep the names of the source; constants
  and types that several files share have a prefix of their exercise.

  \<^bold>\<open>Bounds and fuel.\<close> The numbers of threads, iterations and phases are parameters; the theorems
  assume only that the final counts fit the type of the counter, and the witnesses use the constants
  of the source. The loop variables of the threads are natural numbers that stay below their bound, a
  constant of type \<open>int\<close> in the sources. No definition needs fuel: loops of threads are steps, and the loops of the macros
  are \<open>while_option\<close>, whose value \<open>None\<close> means that the loop does not end. Completion of
  the programs that poll (spinlocks, flags) is proved as the existence of a continuation from every
  reachable state, since a scheduler may let a polling thread run forever. For the programs that
  block it is proved of every schedule, with a bound on its steps. Neither assumes fairness.

  \<^bold>\<open>Parameters.\<close> The clock, the line printed by \<open>TIME_BLOCK\<close>, \<open>posix_memalign\<close>, the performance counter calls and the rounding of
  doubles are arguments of the definitions in \<open>Benchmark\<close>; what is assumed of them is stated in the
  theorems and has a witness.

  \<^bold>\<open>Not modelled.\<close> Text that is printed, except the totals of exercise 08 and the block times; sleeping
  and yielding (\<open>usleep\<close>, \<open>nanosleep\<close>, \<open>cpu_relax\<close>, \<open>CPU_PAUSE\<close>, which only delay a thread), \<open>sched_getcpu\<close>;
  failure of \<open>pthread_create\<close> and of allocation in the exercises, accesses through misaligned pointers
  (\<open>calloc\<close> and \<open>malloc\<close> do not promise the alignment that exercises 03 and 07 ask for), \<open>free\<close>; the compiler and memory
  barrier macros, which no exercise uses;
  \<open>solution.c\<close> of the other exercises, which include the exercise or print two lines; the
  Makefile and the documents.
\<close>

end
